(* ===== verification/Prelude.thy ===== *)
theory Prelude
  imports Main "HOL-Library.Word"
begin

text \<open>
  Shared vocabulary of the development: the ways a C function of the repository can fail to
  return (a failed assertion, a call of exit, an access outside an object, a null or dangling pointer, a
  division by zero, an undefined shift, an overflow of int, a free of memory that is not the heap's, a poll that never ends) as values of an error type, results as a sum with
  that type, byte encodings of words, byte stores, and the generic facts about them that the
  component theories use. The collections \<open>res_simps\<close> and \<open>word_nat\<close> hold the rewrite rules
  for results and for reading words as natural numbers.
\<close>

unbundle bit_operations_syntax

named_theorems res_simps \<open>rules for results of fallible C functions\<close>
named_theorems word_nat \<open>rules that move word arithmetic to natural numbers\<close>

subsection \<open>Results\<close>

datatype c_error =
    AssertFail
  | ExitWith int
  | OutOfBounds
  | BadPointer
  | DivByZero
  | UndefShift
  | IntOverflow
  | BadFree
  | Stuck

type_synonym 'a res = "c_error + 'a"
type_synonym u8 = "8 word"
type_synonym u16 = "16 word"
type_synonym u32 = "32 word"
type_synonym u64 = "64 word"
type_synonym store = "nat \<Rightarrow> u8"

definition bind_res :: "'a res \<Rightarrow> ('a \<Rightarrow> 'b res) \<Rightarrow> 'b res" where
  "bind_res m f = (case m of Inl e \<Rightarrow> Inl e | Inr x \<Rightarrow> f x)"

definition check :: "bool \<Rightarrow> c_error \<Rightarrow> unit res" where
  "check b e = (if b then Inr () else Inl e)"

lemma bind_res_Inr [simp, res_simps]: "bind_res (Inr x) f = f x"
  by (simp add: bind_res_def)

lemma bind_res_Inl [simp, res_simps]: "bind_res (Inl e) f = Inl e"
  by (simp add: bind_res_def)

lemma bind_res_eq_Inr [res_simps]:
  "bind_res m f = Inr y \<longleftrightarrow> (\<exists>x. m = Inr x \<and> f x = Inr y)"
  by (cases m) auto

lemma bind_res_eq_Inl [res_simps]:
  "bind_res m f = Inl e \<longleftrightarrow> m = Inl e \<or> (\<exists>x. m = Inr x \<and> f x = Inl e)"
  by (cases m) auto

lemma bind_res_assoc: "bind_res (bind_res m f) g = bind_res m (\<lambda>x. bind_res (f x) g)"
  by (cases m) auto

lemma bind_res_cong [fundef_cong]:
  "m = m' \<Longrightarrow> (\<And>x. m' = Inr x \<Longrightarrow> f x = f' x) \<Longrightarrow> bind_res m f = bind_res m' f'"
  by (cases m') auto

lemma check_Inr [simp, res_simps]: "check b e = Inr u \<longleftrightarrow> b"
  by (simp add: check_def)

lemma check_Inl [simp, res_simps]: "check b e = Inl e' \<longleftrightarrow> \<not> b \<and> e' = e"
  by (auto simp: check_def)

lemma check_True [simp]: "check True e = Inr ()"
  by (simp add: check_def)

lemma check_False [simp]: "check False e = Inl e"
  by (simp add: check_def)

text \<open>A loop that collects the results of its turns and stops at the first error.\<close>

fun map_res :: "('a \<Rightarrow> 'b res) \<Rightarrow> 'a list \<Rightarrow> 'b list res" where
  "map_res f [] = Inr []"
| "map_res f (x # xs) = bind_res (f x) (\<lambda>y. bind_res (map_res f xs) (\<lambda>ys. Inr (y # ys)))"

lemma map_res_Inr_iff: "map_res f xs = Inr ys \<longleftrightarrow> map f xs = map Inr ys"
  by (induction xs arbitrary: ys) (auto simp: res_simps map_eq_Cons_conv Cons_eq_map_conv)

text \<open>A computation that ends with a value, and the rules that show it step by step.\<close>

named_theorems returns_intros \<open>introduction rules for computations that end with a value\<close>

definition returns :: "'a res \<Rightarrow> bool" where
  "returns m \<longleftrightarrow> (\<exists>x. m = Inr x)"

lemma returns_Inr [simp, returns_intros]: "returns (Inr x)"
  by (simp add: returns_def)

lemma returns_Inl [simp]: "\<not> returns (Inl e)"
  by (simp add: returns_def)

lemma returns_bind [returns_intros]:
  "returns m \<Longrightarrow> (\<And>x. m = Inr x \<Longrightarrow> returns (f x)) \<Longrightarrow> returns (bind_res m f)"
  by (auto simp: returns_def)

lemma returns_if [returns_intros]:
  "(b \<Longrightarrow> returns m) \<Longrightarrow> (\<not> b \<Longrightarrow> returns m') \<Longrightarrow> returns (if b then m else m')"
  by simp

lemma returns_check [returns_intros]: "b \<Longrightarrow> returns (check b e)"
  by simp

lemma returns_map_res [returns_intros]:
  "(\<And>x. x \<in> set xs \<Longrightarrow> returns (f x)) \<Longrightarrow> returns (map_res f xs)"
  by (induction xs) (auto intro!: returns_intros)

lemma returnsE: "returns m \<Longrightarrow> (\<And>x. m = Inr x \<Longrightarrow> P) \<Longrightarrow> P"
  by (auto simp: returns_def)

subsection \<open>Words as natural numbers\<close>

lemma unat_and_mask [word_nat]:
  fixes w :: "'a::len word"
  shows "unat (w AND mask k) = unat w mod 2 ^ k"
proof -
  have "unat (w AND mask k) = unat (take_bit k w)"
    by (simp only: take_bit_eq_mask)
  also have "\<dots> = take_bit k (unat w)"
    by (rule unsigned_take_bit_eq)
  also have "\<dots> = unat w mod 2 ^ k"
    by (rule take_bit_eq_mod)
  finally show ?thesis .
qed

lemma unat_plus_no_overflow [word_nat]:
  fixes a b :: "'a::len word"
  shows "unat a + unat b < 2 ^ LENGTH('a) \<Longrightarrow> unat (a + b) = unat a + unat b"
  by (simp add: unat_word_ariths)

lemma unat_minus_le [word_nat]:
  fixes a b :: "'a::len word"
  shows "unat b \<le> unat a \<Longrightarrow> unat (a - b) = unat a - unat b"
  by (simp add: unat_sub word_le_nat_alt)

lemma unat_minus_wrap:
  fixes a b :: "'a::len word"
  assumes "unat a < unat b"
  shows "unat (a - b) = 2 ^ LENGTH('a) + unat a - unat b"
  using assms by (simp add: unat_sub_if_size word_size)

lemma unat_two_power [word_nat]:
  "k < LENGTH('a) \<Longrightarrow> unat (2 ^ k :: 'a::len word) = 2 ^ k"
proof -
  assume "k < LENGTH('a)"
  then have "(2 ^ k :: nat) mod 2 ^ LENGTH('a) = 2 ^ k" by simp
  then show ?thesis using unat_of_nat [where 'a = 'a, of "2 ^ k"] by simp
qed

lemma mask_word_eq:
  "k < LENGTH('a) \<Longrightarrow> (mask k :: 'a::len word) = 2 ^ k - 1"
  by (simp add: mask_eq_decr_exp)

lemma and_not_mask_drop_push:
  fixes w :: "'a::len word"
  shows "w AND NOT (mask n) = push_bit n (drop_bit n w)"
  by (rule bit_word_eqI) (auto simp: bit_simps)

lemma unat_and_not_mask [word_nat]:
  fixes w :: "'a::len word"
  shows "unat (w AND NOT (mask n)) = unat w div 2 ^ n * 2 ^ n"
proof -
  have "unat (push_bit n (drop_bit n w)) = take_bit LENGTH('a) (push_bit n (unat (drop_bit n w)))"
    by (rule unsigned_push_bit_eq)
  also have "\<dots> = take_bit LENGTH('a) (unat w div 2 ^ n * 2 ^ n)"
    by (simp only: unat_drop_bit_eq push_bit_eq_mult drop_bit_eq_div [where 'a = nat])
  also have "\<dots> = unat w div 2 ^ n * 2 ^ n"
    by (intro take_bit_nat_eq_self) (meson div_times_less_eq_dividend le_less_trans unsigned_less)
  finally show ?thesis by (simp add: and_not_mask_drop_push)
qed

subsection \<open>Little-endian byte encodings\<close>

definition le_bytes :: "nat \<Rightarrow> 'a::len word \<Rightarrow> u8 list" where
  "le_bytes n w = map (\<lambda>i. ucast (drop_bit (8 * i) w)) [0..<n]"

fun le_word :: "u8 list \<Rightarrow> 'a::len word" where
  "le_word [] = 0"
| "le_word (b # bs) = ucast b OR push_bit 8 (le_word bs)"

lemma length_le_bytes [simp]: "length (le_bytes n w) = n"
  by (simp add: le_bytes_def)

lemma bit_le_bytes:
  "i < n \<Longrightarrow> bit (le_bytes n w ! i) j \<longleftrightarrow> j < 8 \<and> bit w (8 * i + j)"
  by (simp add: le_bytes_def bit_ucast_iff bit_drop_bit_eq) 

lemma le_bytes_inj:
  fixes v w :: "'a::len word"
  assumes "LENGTH('a) \<le> 8 * n" and "le_bytes n v = le_bytes n w"
  shows "v = w"
proof (rule bit_word_eqI)
  fix m assume "m < LENGTH('a)"
  with assms(1) have i: "m div 8 < n" by simp
  have "bit (le_bytes n v ! (m div 8)) (m mod 8) = bit (le_bytes n w ! (m div 8)) (m mod 8)"
    using assms(2) by simp
  then show "bit v m = bit w m"
    using i by (simp add: bit_le_bytes)
qed

lemma bit_le_word:
  "bit (le_word bs :: 'a::len word) m \<longleftrightarrow> m < LENGTH('a) \<and> m div 8 < length bs \<and> bit (bs ! (m div 8)) (m mod 8)"
proof (induction bs arbitrary: m)
  case (Cons b bs)
  show ?case
  proof (cases "m < 8")
    case True
    thus ?thesis by (auto simp: bit_or_iff bit_push_bit_iff bit_ucast_iff dest: bit_imp_le_length)
  next
    case False
    then obtain k where k: "m = k + 8" by (metis add.commute le_Suc_ex not_less)
    have "\<not> bit (ucast b :: 'a word) m" using False bit_imp_le_length [of b m] by (auto simp: bit_ucast_iff)
    moreover have "(k + 8) div 8 = Suc (k div 8)" "(k + 8) mod 8 = k mod 8" by simp_all
    ultimately show ?thesis using Cons.IH [of k] by (auto simp: bit_or_iff bit_push_bit_iff k)
  qed
qed simp

lemma le_word_le_bytes:
  assumes "LENGTH('a::len) \<le> 8 * n"
  shows "le_word (le_bytes n (w :: 'a word)) = w"
proof (rule bit_word_eqI)
  fix m
  assume m: "m < LENGTH('a)"
  hence "m div 8 < n" using assms by simp
  thus "bit (le_word (le_bytes n w) :: 'a word) m \<longleftrightarrow> bit w m"
    using m by (simp add: bit_le_word bit_le_bytes)
qed

subsection \<open>Byte stores\<close>

text \<open>
  A region of memory is a function from byte offsets to bytes; its size is kept beside it, and
  every access is checked against that size by the operation that makes it.
\<close>

definition read_bytes :: "store \<Rightarrow> nat \<Rightarrow> nat \<Rightarrow> u8 list" where
  "read_bytes m a n = map (\<lambda>i. m (a + i)) [0..<n]"

definition write_bytes :: "store \<Rightarrow> nat \<Rightarrow> u8 list \<Rightarrow> store" where
  "write_bytes m a bs = (\<lambda>i. if a \<le> i \<and> i < a + length bs then bs ! (i - a) else m i)"

definition memcpy_bytes :: "nat \<Rightarrow> store \<Rightarrow> nat \<Rightarrow> u8 list \<Rightarrow> nat \<Rightarrow> store res" where
  "memcpy_bytes cap dst a src n =
     (if n \<le> length src \<and> a + n \<le> cap then Inr (write_bytes dst a (take n src))
      else Inl OutOfBounds)"

lemma length_read_bytes [simp]: "length (read_bytes m a n) = n"
  by (simp add: read_bytes_def)

lemma nth_read_bytes [simp]: "i < n \<Longrightarrow> read_bytes m a n ! i = m (a + i)"
  by (simp add: read_bytes_def)

lemma read_bytes_cong:
  "(\<And>i. i < n \<Longrightarrow> m (a + i) = m' (b + i)) \<Longrightarrow> read_bytes m a n = read_bytes m' b n"
  by (simp add: read_bytes_def)

lemma write_bytes_inside:
  "a \<le> i \<Longrightarrow> i < a + length bs \<Longrightarrow> write_bytes m a bs i = bs ! (i - a)"
  by (simp add: write_bytes_def)

lemma write_bytes_outside:
  "i < a \<or> a + length bs \<le> i \<Longrightarrow> write_bytes m a bs i = m i"
  by (auto simp: write_bytes_def)

lemma read_write_same:
  "k + n \<le> length bs \<Longrightarrow> read_bytes (write_bytes m a bs) (a + k) n = take n (drop k bs)"
  by (rule nth_equalityI) (auto simp: write_bytes_inside)

lemma read_write_disjoint:
  "b + n \<le> a \<or> a + length bs \<le> b \<Longrightarrow> read_bytes (write_bytes m a bs) b n = read_bytes m b n"
  by (rule read_bytes_cong) (auto simp: write_bytes_outside)

lemma memcpy_bytes_Inr [res_simps]:
  "memcpy_bytes cap dst a src n = Inr m \<longleftrightarrow>
     n \<le> length src \<and> a + n \<le> cap \<and> m = write_bytes dst a (take n src)"
  by (auto simp: memcpy_bytes_def)

end
