(* ===== verification/City.thy ===== *)
theory City
  imports Prelude
begin

text \<open>
  CityHash of mica/city.c: the 64-bit and the 128-bit hash of a byte string, on 64-bit words with
  wrap-around. A string is a list of bytes, a pointer into it an integer index, and a fetch
  outside the string is an error result. The platform is little-endian
  (\<open>uint64_in_expected_order\<close> is the identity).
\<close>

type_synonym uint128 = "u64 \<times> u64"

subsection \<open>Fetches and mixing\<close>

definition Fetch64 :: "u8 list \<Rightarrow> int \<Rightarrow> u64 res" where
  "Fetch64 s i = (if 0 \<le> i \<and> i + 8 \<le> int (length s)
     then Inr (le_word (take 8 (drop (nat i) s))) else Inl OutOfBounds)"

definition Fetch32 :: "u8 list \<Rightarrow> int \<Rightarrow> u32 res" where
  "Fetch32 s i = (if 0 \<le> i \<and> i + 4 \<le> int (length s)
     then Inr (le_word (take 4 (drop (nat i) s))) else Inl OutOfBounds)"

definition Fetch8 :: "u8 list \<Rightarrow> int \<Rightarrow> u8 res" where
  "Fetch8 s i = (if 0 \<le> i \<and> i < int (length s) then Inr (s ! nat i) else Inl OutOfBounds)"

definition k0 :: u64 where "k0 = 0xc3a5c85c97cb3127"
definition k1 :: u64 where "k1 = 0xb492b66fbe98f273"
definition k2 :: u64 where "k2 = 0x9ae16a3b2f90404f"
definition k3 :: u64 where "k3 = 0xc949d7c7509e6557"
definition kMul :: u64 where "kMul = 0x9ddfea08eb382d69"

definition ShiftMix :: "u64 \<Rightarrow> u64" where
  "ShiftMix val = val XOR drop_bit 47 val"

definition Hash128to64 :: "uint128 \<Rightarrow> u64" where
  "Hash128to64 x =
     (let a = (fst x XOR snd x) * kMul;
          a = a XOR drop_bit 47 a;
          b = (snd x XOR a) * kMul;
          b = b XOR drop_bit 47 b
      in b * kMul)"

definition Rotate :: "u64 \<Rightarrow> nat \<Rightarrow> u64" where
  "Rotate val shift =
     (if shift = 0 then val else drop_bit shift val OR push_bit (64 - shift) val)"

definition RotateByAtLeast1 :: "u64 \<Rightarrow> nat \<Rightarrow> u64" where
  "RotateByAtLeast1 val shift = drop_bit shift val OR push_bit (64 - shift) val"

definition HashLen16 :: "u64 \<Rightarrow> u64 \<Rightarrow> u64" where
  "HashLen16 u v = Hash128to64 (u, v)"

subsection \<open>Strings of at most 64 bytes\<close>

definition HashLen0to16 :: "u8 list \<Rightarrow> u64 res" where
  "HashLen0to16 s =
     (let len = int (length s); n = of_nat (length s) in
      if len > 8 then
        bind_res (Fetch64 s 0) (\<lambda>a.
        bind_res (Fetch64 s (len - 8)) (\<lambda>b.
        Inr (HashLen16 a (RotateByAtLeast1 (b + n) (length s)) XOR b)))
      else if len \<ge> 4 then
        bind_res (Fetch32 s 0) (\<lambda>a.
        bind_res (Fetch32 s (len - 4)) (\<lambda>b.
        Inr (HashLen16 (n + push_bit 3 (ucast a)) (ucast b))))
      else if len > 0 then
        bind_res (Fetch8 s 0) (\<lambda>a.
        bind_res (Fetch8 s (len div 2)) (\<lambda>b.
        bind_res (Fetch8 s (len - 1)) (\<lambda>c.
        let y = ucast a + push_bit 8 (ucast b) :: u32;
            z = of_nat (length s) + push_bit 2 (ucast c) :: u32
        in Inr (ShiftMix (ucast y * k2 XOR ucast z * k3) * k2))))
      else Inr k2)"

definition HashLen17to32 :: "u8 list \<Rightarrow> u64 res" where
  "HashLen17to32 s =
     (let len = int (length s); n = of_nat (length s) in
      bind_res (Fetch64 s 0) (\<lambda>a.
      bind_res (Fetch64 s 8) (\<lambda>b.
      bind_res (Fetch64 s (len - 8)) (\<lambda>c.
      bind_res (Fetch64 s (len - 16)) (\<lambda>d.
      let a = a * k1; c = c * k2; d = d * k0 in
      Inr (HashLen16 (Rotate (a - b) 43 + Rotate c 30 + d)
                     (a + Rotate (b XOR k3) 20 - c + n)))))))"

definition WeakHashLen32WithSeeds6 :: "u64 \<Rightarrow> u64 \<Rightarrow> u64 \<Rightarrow> u64 \<Rightarrow> u64 \<Rightarrow> u64 \<Rightarrow> uint128" where
  "WeakHashLen32WithSeeds6 w x y z a b =
     (let a = a + w;
          b = Rotate (b + a + z) 21;
          c = a;
          a = a + x;
          a = a + y;
          b = b + Rotate a 44
      in (a + z, b + c))"

definition WeakHashLen32WithSeeds :: "u8 list \<Rightarrow> int \<Rightarrow> u64 \<Rightarrow> u64 \<Rightarrow> uint128 res" where
  "WeakHashLen32WithSeeds s p a b =
     bind_res (Fetch64 s p) (\<lambda>w.
     bind_res (Fetch64 s (p + 8)) (\<lambda>x.
     bind_res (Fetch64 s (p + 16)) (\<lambda>y.
     bind_res (Fetch64 s (p + 24)) (\<lambda>z.
     Inr (WeakHashLen32WithSeeds6 w x y z a b)))))"

definition HashLen33to64 :: "u8 list \<Rightarrow> u64 res" where
  "HashLen33to64 s =
     (let len = int (length s); n = of_nat (length s) in
      bind_res (Fetch64 s 24) (\<lambda>s24.
      bind_res (Fetch64 s 0) (\<lambda>s0.
      bind_res (Fetch64 s (len - 16)) (\<lambda>e16.
      bind_res (Fetch64 s 8) (\<lambda>s8.
      bind_res (Fetch64 s 16) (\<lambda>s16.
      bind_res (Fetch64 s (len - 32)) (\<lambda>e32.
      bind_res (Fetch64 s (len - 8)) (\<lambda>e8.
      bind_res (Fetch64 s (len - 24)) (\<lambda>e24.
      let z = s24;
          a = s0 + (n + e16) * k0;
          b = Rotate (a + z) 52;
          c = Rotate a 37;
          a = a + s8;
          c = c + Rotate a 7;
          a = a + s16;
          vf = a + z;
          vs = b + Rotate a 31 + c;
          a = s16 + e32;
          z = e8;
          b = Rotate (a + z) 52;
          c = Rotate a 37;
          a = a + e24;
          c = c + Rotate a 7;
          a = a + e16;
          wf = a + z;
          ws = b + Rotate a 31 + c;
          r = ShiftMix ((vf + ws) * k2 + (wf + vs) * k0)
      in Inr (ShiftMix (r * k0 + vs) * k2))))))))))"

subsection \<open>CityHash64\<close>

text \<open>The 56 bytes of state, and the body both main loops share: one 64-byte chunk at \<open>p\<close>.\<close>

record city_state =
  st_x :: u64
  st_y :: u64
  st_z :: u64
  st_v :: uint128
  st_w :: uint128

definition city_chunk :: "u8 list \<Rightarrow> int \<Rightarrow> city_state \<Rightarrow> city_state res" where
  "city_chunk s p st =
     (let x = st_x st; y = st_y st; z = st_z st; v = st_v st; w = st_w st in
      bind_res (Fetch64 s (p + 8)) (\<lambda>s8.
      bind_res (Fetch64 s (p + 48)) (\<lambda>s48.
      bind_res (Fetch64 s (p + 40)) (\<lambda>s40.
      let x = Rotate (x + y + fst v + s8) 37 * k1;
          y = Rotate (y + snd v + s48) 42 * k1;
          x = x XOR snd w;
          y = y + (fst v + s40);
          z = Rotate (z + fst w) 33 * k1
      in
      bind_res (WeakHashLen32WithSeeds s p (snd v * k1) (x + fst w)) (\<lambda>v'.
      bind_res (Fetch64 s (p + 16)) (\<lambda>s16.
      bind_res (WeakHashLen32WithSeeds s (p + 32) (z + snd w) (y + s16)) (\<lambda>w'.
      Inr \<lparr>st_x = z, st_y = y, st_z = x, st_v = v', st_w = w'\<rparr>)))))))"

text \<open>
  The loop \<open>do ... while (len != 0)\<close>. Its \<open>len\<close> starts as a positive multiple of 64; a step
  from a smaller value would wrap around and is the error \<open>Stuck\<close>.
\<close>

fun city64_loop :: "u8 list \<Rightarrow> int \<Rightarrow> nat \<Rightarrow> city_state \<Rightarrow> city_state res" where
  "city64_loop s p len st =
     bind_res (city_chunk s p st) (\<lambda>st'.
     if len < 64 then Inl Stuck
     else if len - 64 = 0 then Inr st'
     else city64_loop s (p + 64) (len - 64) st')"

declare city64_loop.simps [simp del]

definition CityHash64 :: "u8 list \<Rightarrow> u64 res" where
  "CityHash64 s =
     (let len = int (length s); n = of_nat (length s) in
      if len \<le> 32 then if len \<le> 16 then HashLen0to16 s else HashLen17to32 s
      else if len \<le> 64 then HashLen33to64 s
      else
        bind_res (Fetch64 s (len - 40)) (\<lambda>x.
        bind_res (Fetch64 s (len - 16)) (\<lambda>e16.
        bind_res (Fetch64 s (len - 56)) (\<lambda>e56.
        bind_res (Fetch64 s (len - 48)) (\<lambda>e48.
        bind_res (Fetch64 s (len - 24)) (\<lambda>e24.
        let y = e16 + e56; z = HashLen16 (e48 + n) e24 in
        bind_res (WeakHashLen32WithSeeds s (len - 64) n z) (\<lambda>v.
        bind_res (WeakHashLen32WithSeeds s (len - 32) (y + k1) x) (\<lambda>w.
        bind_res (Fetch64 s 0) (\<lambda>s0.
        let x = x * k1 + s0 in
        bind_res (city64_loop s 0 ((length s - 1) div 64 * 64)
            \<lparr>st_x = x, st_y = y, st_z = z, st_v = v, st_w = w\<rparr>) (\<lambda>st.
        Inr (HashLen16 (HashLen16 (fst (st_v st)) (fst (st_w st)) + ShiftMix (st_y st) * k1 + st_z st)
               (HashLen16 (snd (st_v st)) (snd (st_w st)) + st_x st))))))))))))"

definition CityHash64WithSeeds :: "u8 list \<Rightarrow> u64 \<Rightarrow> u64 \<Rightarrow> u64 res" where
  "CityHash64WithSeeds s seed0 seed1 =
     bind_res (CityHash64 s) (\<lambda>h. Inr (HashLen16 (h - seed0) seed1))"

definition CityHash64WithSeed :: "u8 list \<Rightarrow> u64 \<Rightarrow> u64 res" where
  "CityHash64WithSeed s seed = CityHash64WithSeeds s k2 seed"

subsection \<open>CityHash128\<close>

function murmur_loop ::
  "u8 list \<Rightarrow> int \<Rightarrow> int \<Rightarrow> u64 \<times> u64 \<times> u64 \<times> u64 \<Rightarrow> (u64 \<times> u64 \<times> u64 \<times> u64) res" where
  "murmur_loop s p l (a, b, c, d) =
     bind_res (Fetch64 s p) (\<lambda>s0.
     let a = (a XOR ShiftMix (s0 * k1) * k1) * k1; b = b XOR a in
     bind_res (Fetch64 s (p + 8)) (\<lambda>s8.
     let c = (c XOR ShiftMix (s8 * k1) * k1) * k1; d = d XOR c in
     if l - 16 > 0 then murmur_loop s (p + 16) (l - 16) (a, b, c, d) else Inr (a, b, c, d)))"
  by pat_completeness auto
termination by (relation "measure (\<lambda>(s, p, l, st). nat l)") auto

declare murmur_loop.simps [simp del]

definition CityMurmur :: "u8 list \<Rightarrow> uint128 \<Rightarrow> uint128 res" where
  "CityMurmur s seed =
     (let len = int (length s); n = of_nat (length s); a = fst seed; b = snd seed; l = len - 16 in
      bind_res
        (if l \<le> 0 then
           let a = ShiftMix (a * k1) * k1 in
           bind_res (HashLen0to16 s) (\<lambda>h.
           let c = b * k1 + h in
           bind_res (if len \<ge> 8 then Fetch64 s 0 else Inr c) (\<lambda>t.
           Inr (a, b, c, ShiftMix (a + t))))
         else
           bind_res (Fetch64 s (len - 8)) (\<lambda>e8.
           let c = HashLen16 (e8 + k1) a in
           bind_res (Fetch64 s (len - 16)) (\<lambda>e16.
           let d = HashLen16 (b + n) (c + e16); a = a + d in
           murmur_loop s 0 l (a, b, c, d)))) (\<lambda>(a, b, c, d).
      let a = HashLen16 a c; b = HashLen16 d b in
      Inr (a XOR b, HashLen16 b a)))"

text \<open>The main loop, two chunks per turn; it returns the index and the length it leaves.\<close>

fun city128_loop :: "u8 list \<Rightarrow> int \<Rightarrow> nat \<Rightarrow> city_state \<Rightarrow> (int \<times> nat \<times> city_state) res" where
  "city128_loop s p len st =
     bind_res (city_chunk s p st) (\<lambda>st1.
     bind_res (city_chunk s (p + 64) st1) (\<lambda>st2.
     if len < 128 then Inl Stuck
     else if len - 128 \<ge> 128 then city128_loop s (p + 128) (len - 128) st2
     else Inr (p + 128, len - 128, st2)))"

declare city128_loop.simps [simp del]

text \<open>The tail loop: chunks of 32 bytes from the end, \<open>tail_done\<close> counting up by 32.\<close>

function city128_tail :: "u8 list \<Rightarrow> int \<Rightarrow> int \<Rightarrow> int \<Rightarrow> city_state \<Rightarrow> city_state res" where
  "city128_tail s p len tail_done st =
     (if tail_done < len then
        let t = tail_done + 32;
            x = st_x st; y = st_y st; z = st_z st; v = st_v st; w = st_w st;
            y = Rotate (x + y) 42 * k0 + snd v
        in
        bind_res (Fetch64 s (p + len - t + 16)) (\<lambda>f1.
        let w1 = fst w + f1; x = x * k0 + w1 in
        bind_res (Fetch64 s (p + len - t)) (\<lambda>f2.
        let z = z + (snd w + f2); w2 = snd w + fst v in
        bind_res (WeakHashLen32WithSeeds s (p + len - t) (fst v + z) (snd v)) (\<lambda>v'.
        city128_tail s p len t \<lparr>st_x = x, st_y = y, st_z = z, st_v = v', st_w = (w1, w2)\<rparr>)))
      else Inr st)"
  by pat_completeness auto
termination by (relation "measure (\<lambda>(s, p, len, t, st). nat (len - t))") auto

declare city128_tail.simps [simp del]

definition CityHash128WithSeed :: "u8 list \<Rightarrow> uint128 \<Rightarrow> uint128 res" where
  "CityHash128WithSeed s seed =
     (if length s < 128 then CityMurmur s seed
      else
        let n = of_nat (length s); x = fst seed; y = snd seed; z = n * k1 in
        bind_res (Fetch64 s 0) (\<lambda>s0.
        bind_res (Fetch64 s 8) (\<lambda>s8.
        bind_res (Fetch64 s 88) (\<lambda>s88.
        let v1 = Rotate (y XOR k1) 49 * k1 + s0;
            v2 = Rotate v1 42 * k1 + s8;
            w1 = Rotate (y + z) 35 * k1 + x;
            w2 = Rotate (x + s88) 53 * k1
        in
        bind_res (city128_loop s 0 (length s)
            \<lparr>st_x = x, st_y = y, st_z = z, st_v = (v1, v2), st_w = (w1, w2)\<rparr>) (\<lambda>(p, len, st).
        let st = st\<lparr>st_x := st_x st + Rotate (fst (st_v st) + st_z st) 49 * k0,
                    st_z := st_z st + Rotate (fst (st_w st)) 37 * k0\<rparr>
        in
        bind_res (city128_tail s p (int len) 0 st) (\<lambda>st.
        let v = st_v st; w = st_w st;
            x = HashLen16 (st_x st) (fst v);
            y = HashLen16 (st_y st + st_z st) (fst w)
        in Inr (HashLen16 (x + snd v) (snd w) + y, HashLen16 (x + snd w) (y + snd v))))))))"

definition CityHash128 :: "u8 list \<Rightarrow> uint128 res" where
  "CityHash128 s =
     (let len = int (length s); n = of_nat (length s) in
      if len \<ge> 16 then
        bind_res (Fetch64 s 0) (\<lambda>a.
        bind_res (Fetch64 s 8) (\<lambda>b.
        CityHash128WithSeed (drop 16 s) (a XOR k3, b)))
      else if len \<ge> 8 then
        bind_res (Fetch64 s 0) (\<lambda>a.
        bind_res (Fetch64 s (len - 8)) (\<lambda>b.
        CityHash128WithSeed [] (a XOR (n * k0), b XOR k1)))
      else CityHash128WithSeed s (k0, k1))"

end
