(* ===== verification/Mica.thy ===== *)
theory Mica
  imports Prelude City
begin

text \<open>
  The MICA key-value store of mica/mica.h and mica/mica.c: an index of buckets of eight slots,
  each holding a tag and a 40-bit virtual log offset, over a circular log of variable-length
  entries. The state of \<open>struct mica_kv\<close> is the record \<open>mica_kv\<close>; the index and the log are the
  memory behind the pointers \<open>ht_index\<close> and \<open>ht_log\<close>, the log as a byte store of \<open>log_cap\<close>
  bytes. A log access outside these bytes, a failed assertion and an oversized batch are error
  results. Log offsets and the log head keep their 64-bit width.
\<close>

subsection \<open>Constants and data\<close>

definition MICA_OP_GET :: u8 where "MICA_OP_GET = 111"
definition MICA_OP_PUT :: u8 where "MICA_OP_PUT = 112"
definition MICA_MAX_BATCH_SIZE :: nat where "MICA_MAX_BATCH_SIZE = 32"
definition MICA_RESP_PUT_SUCCESS :: u8 where "MICA_RESP_PUT_SUCCESS = 113"
definition MICA_RESP_GET_SUCCESS :: u8 where "MICA_RESP_GET_SUCCESS = 114"
definition MICA_RESP_GET_FAIL :: u8 where "MICA_RESP_GET_FAIL = 115"
definition sizeof_mica_key :: nat where "sizeof_mica_key = 16"
definition MICA_MAX_VALUE :: nat where "MICA_MAX_VALUE = 64 - (sizeof_mica_key + 1 + 1)"
definition MICA_LOG_BITS :: nat where "MICA_LOG_BITS = 40"
definition MICA_INDEX_SHM_KEY :: int where "MICA_INDEX_SHM_KEY = 3185"
definition MICA_LOG_SHM_KEY :: int where "MICA_LOG_SHM_KEY = 4185"

record mica_key =
  key_unused :: u64
  key_bkt :: u32
  key_server :: u16
  key_tag :: u16

record mica_op =
  op_key :: mica_key
  opcode :: u8
  val_len :: u8
  op_value :: "u8 list"

record mica_resp =
  resp_type :: u8
  resp_val_len :: u8
  resp_val_ptr :: "nat option"

record mica_slot =
  in_use :: bool
  slot_tag :: "23 word"
  offset :: "40 word"

type_synonym mica_bkt = "nat \<Rightarrow> mica_slot"

record mica_kv =
  ht_index :: "nat \<Rightarrow> mica_bkt"
  ht_log :: store
  instance_id :: int
  node_id :: int
  num_bkts :: int
  bkt_mask :: u32
  log_cap :: u64
  log_mask :: u64
  log_head :: u64
  num_get_op :: int
  num_get_fail :: int
  num_put_op :: int
  num_index_evictions :: int

text \<open>
  The bytes of a \<open>struct mica_key\<close> and of a \<open>struct mica_op\<close> as they lie in memory: the bit
  fields fill two little-endian 64-bit words, so a key has no padding.
\<close>

definition key_bytes :: "mica_key \<Rightarrow> u8 list" where
  "key_bytes k = le_bytes 8 (key_unused k) @ le_bytes 4 (key_bkt k)
     @ le_bytes 2 (key_server k) @ le_bytes 2 (key_tag k)"

definition op_bytes :: "mica_op \<Rightarrow> u8 list" where
  "op_bytes op = key_bytes (op_key op) @ [opcode op, val_len op] @ op_value op"

text \<open>The key whose two 64-bit words are \<open>first\<close> and \<open>second\<close>, as \<open>op_key[0]\<close> and \<open>op_key[1]\<close> set it.\<close>

definition key_of_u128 :: "uint128 \<Rightarrow> mica_key" where
  "key_of_u128 p = \<lparr>key_unused = fst p, key_bkt = ucast (snd p),
     key_server = ucast (drop_bit 32 (snd p)), key_tag = ucast (drop_bit 48 (snd p))\<rparr>"

subsection \<open>Initialisation\<close>

definition is_power_of_2 :: "int \<Rightarrow> bool" where
  "is_power_of_2 x =
     (x = 1 \<or> x = 2 \<or> x = 4 \<or> x = 8 \<or> x = 16 \<or> x = 32 \<or>
      x = 64 \<or> x = 128 \<or> x = 256 \<or> x = 512 \<or> x = 1024 \<or>
      x = 2048 \<or> x = 4096 \<or> x = 8192 \<or> x = 16384 \<or> x = 32768 \<or>
      x = 65536 \<or> x = 131072 \<or> x = 262144 \<or> x = 524288 \<or>
      x = 1048576 \<or> x = 2097152 \<or> x = 4194304 \<or> x = 8388608 \<or>
      x = 16777216 \<or> x = 33554432 \<or> x = 67108864 \<or> x = 134217728 \<or>
      x = 268435456 \<or> x = 536870912 \<or> x = 1073741824)"

text \<open>
  The two calls of \<open>hrd_malloc_socket\<close> are the parameters \<open>malloc_index\<close> and \<open>malloc_log\<close>:
  given a shared-memory key, a size and a NUMA node they return the contents of the new segment,
  or the error with which the process ends.
\<close>

definition mica_init ::
  "(int \<Rightarrow> int \<Rightarrow> int \<Rightarrow> (nat \<Rightarrow> mica_bkt) res) \<Rightarrow> (int \<Rightarrow> int \<Rightarrow> int \<Rightarrow> store res) \<Rightarrow>
   int \<Rightarrow> int \<Rightarrow> int \<Rightarrow> int \<Rightarrow> mica_kv res" where
  "mica_init malloc_index malloc_log inst node nbkts cap =
     bind_res (check (node = 0 \<or> node = 1) AssertFail) (\<lambda>_.
     bind_res (check (is_power_of_2 nbkts \<and> nbkts \<le> 16777216) AssertFail) (\<lambda>_.
     bind_res (check (cap > 0 \<and> cap \<le> 1073741824 \<and> cap mod 2097152 = 0 \<and> is_power_of_2 cap)
       AssertFail) (\<lambda>_.
     bind_res (malloc_index (MICA_INDEX_SHM_KEY + inst) (nbkts * 64) node) (\<lambda>idx.
     bind_res (malloc_log (MICA_LOG_SHM_KEY + inst) cap node) (\<lambda>lg.
     Inr \<lparr>ht_index = (\<lambda>i j. if int i < nbkts \<and> j < 8 then (idx i j)\<lparr>in_use := False\<rparr> else idx i j),
          ht_log = lg, instance_id = inst, node_id = node,
          num_bkts = nbkts, bkt_mask = word_of_int (nbkts - 1),
          log_cap = word_of_int cap, log_mask = word_of_int (cap - 1), log_head = 0,
          num_get_op = 0, num_get_fail = 0, num_put_op = 0, num_index_evictions = 0\<rparr>)))))"

subsection \<open>Insertion\<close>

text \<open>
  The slot scan of \<open>mica_insert_one\<close> after its first \<open>n\<close> iterations: it has no \<open>break\<close>, so the
  last slot that is free or carries the tag wins; -1 when there is none.
\<close>

primrec scan_slots :: "mica_bkt \<Rightarrow> u32 \<Rightarrow> nat \<Rightarrow> int" where
  "scan_slots b t 0 = -1"
| "scan_slots b t (Suc i) =
     (if ucast (slot_tag (b i)) = t \<or> \<not> in_use (b i) then int i else scan_slots b t i)"

definition key_bucket :: "mica_kv \<Rightarrow> mica_key \<Rightarrow> nat" where
  "key_bucket kv k = unat (key_bkt k AND bkt_mask kv)"

text \<open>
  The slot an insertion of a tag uses, and whether it evicts: the scan's result, or, when every
  slot holds another tag, the slot given by the low three bits of the tag.
\<close>

definition slot_to_use :: "mica_bkt \<Rightarrow> u32 \<Rightarrow> nat \<times> bool" where
  "slot_to_use b t =
     (let i = scan_slots b t 8 in if i = -1 then (unat (t AND 7), True) else (nat i, False))"

definition advance_head :: "mica_kv \<Rightarrow> u64 \<Rightarrow> u64" where
  "advance_head kv len =
     (let h = (log_head kv + len + 7) AND NOT 7 in
      if log_cap kv - h \<le> of_nat (MICA_MAX_VALUE + 32)
      then (h + log_cap kv) AND NOT (log_mask kv) else h)"

definition mica_insert_one :: "mica_kv \<Rightarrow> mica_op \<Rightarrow> mica_kv res" where
  "mica_insert_one kv op =
     (let bkt = key_bucket kv (op_key op);
          tag = ucast (key_tag (op_key op)) :: u32;
          (i, evict) = slot_to_use (ht_index kv bkt) tag;
          s = \<lparr>in_use = True, slot_tag = ucast tag, offset = ucast (log_head kv)\<rparr>;
          log_ptr = unat (log_head kv AND log_mask kv);
          len_to_copy = sizeof_mica_key + 1 + 1 + unat (val_len op)
      in
      bind_res (check ((2 ^ MICA_LOG_BITS :: u64) - log_head kv > of_nat (len_to_copy + 8)) AssertFail) (\<lambda>_.
      bind_res (memcpy_bytes (unat (log_cap kv)) (ht_log kv) log_ptr (op_bytes op) len_to_copy) (\<lambda>lg.
      Inr (kv\<lparr>ht_index := (ht_index kv)(bkt := (ht_index kv bkt)(i := s)),
              ht_log := lg,
              log_head := advance_head kv (of_nat len_to_copy),
              num_put_op := num_put_op kv + 1,
              num_index_evictions := num_index_evictions kv + (if evict then 1 else 0)\<rparr>))))"

subsection \<open>Batched operations\<close>

text \<open>
  The second loop of \<open>mica_batch_op\<close>: the first slot in use with the tag; its log position, or
  nothing when the head has passed it by a full lap.
\<close>

definition lookup_slot :: "mica_kv \<Rightarrow> mica_key \<Rightarrow> nat option" where
  "lookup_slot kv k =
     (let b = ht_index kv (key_bucket kv k)
      in find (\<lambda>j. in_use (b j) \<and> ucast (slot_tag (b j)) = (ucast (key_tag k) :: u32)) [0..<8])"

definition lookup_ptr :: "mica_kv \<Rightarrow> mica_op \<Rightarrow> nat option" where
  "lookup_ptr kv op =
     (let b = ht_index kv (key_bucket kv (op_key op))
      in case lookup_slot kv (op_key op) of None \<Rightarrow> None
         | Some j \<Rightarrow>
             if log_head kv - ucast (offset (b j)) \<ge> log_cap kv then None
             else Some (unat (ucast (offset (b j)) AND log_mask kv)))"

definition read_log :: "mica_kv \<Rightarrow> nat \<Rightarrow> nat \<Rightarrow> u8 list res" where
  "read_log kv a n =
     (if a + n \<le> unat (log_cap kv) then Inr (read_bytes (ht_log kv) a n) else Inl OutOfBounds)"

definition fail_resp :: "u8 \<Rightarrow> mica_resp" where
  "fail_resp t = \<lparr>resp_type = t, resp_val_len = 0, resp_val_ptr = None\<rparr>"

text \<open>One iteration of the third loop, with the log position found by the second one.\<close>

definition exec_miss :: "mica_kv \<Rightarrow> mica_op \<Rightarrow> (mica_kv \<times> mica_resp) res" where
  "exec_miss kv op =
     (if opcode op = MICA_OP_GET
      then Inr (kv\<lparr>num_get_fail := num_get_fail kv + 1\<rparr>, fail_resp MICA_RESP_GET_FAIL)
      else bind_res (mica_insert_one kv op) (\<lambda>kv'. Inr (kv', fail_resp MICA_RESP_PUT_SUCCESS)))"

definition exec_hit :: "mica_kv \<Rightarrow> mica_op \<Rightarrow> nat \<Rightarrow> (mica_kv \<times> mica_resp) res" where
  "exec_hit kv op p =
     bind_res (read_log kv (p + 17) 1) (\<lambda>vl.
     if opcode op = MICA_OP_GET
     then Inr (kv\<lparr>num_get_op := num_get_op kv + 1\<rparr>,
               \<lparr>resp_type = MICA_RESP_GET_SUCCESS, resp_val_len = hd vl,
                resp_val_ptr = Some (p + 18)\<rparr>)
     else
       bind_res (check (val_len op = hd vl) AssertFail) (\<lambda>_.
       bind_res (memcpy_bytes (unat (log_cap kv)) (ht_log kv) (p + 18) (op_value op) (unat (hd vl)))
         (\<lambda>lg. Inr (kv\<lparr>num_put_op := num_put_op kv + 1, ht_log := lg\<rparr>,
                    fail_resp MICA_RESP_PUT_SUCCESS))))"

definition exec_one :: "mica_kv \<Rightarrow> nat option \<Rightarrow> mica_op \<Rightarrow> (mica_kv \<times> mica_resp) res" where
  "exec_one kv ptr op =
     (case ptr of
        None \<Rightarrow> exec_miss kv op
      | Some p \<Rightarrow>
          bind_res (read_log kv p sizeof_mica_key) (\<lambda>kb.
          if kb = key_bytes (op_key op) then exec_hit kv op p else exec_miss kv op))"

fun exec_all :: "mica_kv \<Rightarrow> (nat option \<times> mica_op) list \<Rightarrow> (mica_kv \<times> mica_resp list) res" where
  "exec_all kv [] = Inr (kv, [])"
| "exec_all kv ((ptr, op) # rest) =
     bind_res (exec_one kv ptr op) (\<lambda>(kv1, r).
     bind_res (exec_all kv1 rest) (\<lambda>(kv2, rs). Inr (kv2, r # rs)))"

definition mica_batch_op :: "mica_kv \<Rightarrow> mica_op list \<Rightarrow> (mica_kv \<times> mica_resp list) res" where
  "mica_batch_op kv ops =
     bind_res (check (length ops \<le> MICA_MAX_BATCH_SIZE) OutOfBounds) (\<lambda>_.
     exec_all kv (map (\<lambda>op. (lookup_ptr kv op, op)) ops))"

subsection \<open>Population with a fixed value length\<close>

text \<open>
  The keys are the 128-bit CityHashes of the four bytes of the loop counter. The array that
  holds them is allocated (\<open>malloc\<close> succeeds).
\<close>

definition mica_gen_keys :: "int \<Rightarrow> uint128 list res" where
  "mica_gen_keys n =
     bind_res (check (n > 0 \<and> n \<le> 1073741824 div 16) AssertFail) (\<lambda>_.
     map_res (\<lambda>i. CityHash128 (le_bytes 4 (word_of_nat i :: u32))) [0..<nat n])"

definition populate_op :: "nat \<Rightarrow> uint128 \<Rightarrow> mica_op" where
  "populate_op vlen p =
     \<lparr>op_key = key_of_u128 p, opcode = MICA_OP_PUT, val_len = word_of_nat vlen,
      op_value = replicate vlen (ucast (snd p AND 0xff))\<rparr>"

fun insert_all :: "mica_kv \<Rightarrow> mica_op list \<Rightarrow> mica_kv res" where
  "insert_all kv [] = Inr kv"
| "insert_all kv (op # ops) = bind_res (mica_insert_one kv op) (\<lambda>kv'. insert_all kv' ops)"

definition mica_populate_fixed_len :: "mica_kv \<Rightarrow> int \<Rightarrow> int \<Rightarrow> mica_kv res" where
  "mica_populate_fixed_len kv n vlen =
     bind_res (check (n > 0) AssertFail) (\<lambda>_.
     bind_res (check (vlen > 0 \<and> vlen \<le> int MICA_MAX_VALUE) AssertFail) (\<lambda>_.
     bind_res (check (num_put_op kv = 0 \<and> num_index_evictions kv = 0) AssertFail) (\<lambda>_.
     bind_res (mica_gen_keys n) (\<lambda>keys.
     bind_res (insert_all kv (map (populate_op (nat vlen)) keys)) (\<lambda>kv'.
     bind_res (check (num_put_op kv' = n) AssertFail) (\<lambda>_. Inr kv'))))))"

end
