(* ===== verification/Kv_Spec.thy ===== *)
theory Kv_Spec
  imports Prelude
begin

text \<open>
  The contract of a lossy key-value store, as MICA is one: a stored pair may be lost at any
  time (index eviction, log wrap-around), but a lookup never returns anything but the last value
  stored under its key. The clients of the store rely on this contract only.
\<close>

fun run_puts :: "('s \<Rightarrow> 'k \<Rightarrow> 'v \<Rightarrow> 's res) \<Rightarrow> 's \<Rightarrow> ('k \<times> 'v) list \<Rightarrow> 's res" where
  "run_puts put s [] = Inr s"
| "run_puts put s ((k, v) # kvs) = bind_res (put s k v) (\<lambda>s'. run_puts put s' kvs)"

locale lossy_store =
  fixes inv :: "'s \<Rightarrow> bool"
    and valid :: "'v \<Rightarrow> bool"
    and get :: "'s \<Rightarrow> 'k \<Rightarrow> 'v option"
    and put :: "'s \<Rightarrow> 'k \<Rightarrow> 'v \<Rightarrow> 's res"
  assumes put_inv: "inv s \<Longrightarrow> valid v \<Longrightarrow> put s k v = Inr s' \<Longrightarrow> inv s'"
    and put_get_same: "inv s \<Longrightarrow> valid v \<Longrightarrow> put s k v = Inr s' \<Longrightarrow> get s' k = Some v"
    and put_get_other: "inv s \<Longrightarrow> valid v \<Longrightarrow> put s k v = Inr s' \<Longrightarrow> k' \<noteq> k \<Longrightarrow>
           get s' k' = Some w \<Longrightarrow> get s k' = Some w"
begin

lemma run_puts_inv:
  "inv s \<Longrightarrow> (\<forall>(k, v)\<in>set kvs. valid v) \<Longrightarrow> run_puts put s kvs = Inr s' \<Longrightarrow> inv s'"
proof (induction kvs arbitrary: s)
  case Nil
  then show ?case by simp
next
  case (Cons p kvs)
  obtain k v where p: "p = (k, v)" by (cases p)
  from Cons.prems(3) p obtain s1 where s1: "put s k v = Inr s1" "run_puts put s1 kvs = Inr s'"
    by (auto simp: res_simps)
  moreover have "valid v" using Cons.prems(2) p by simp
  ultimately have "inv s1" using Cons.prems(1) put_inv by blast
  then show ?case using Cons.IH [of s1] Cons.prems(2) s1(2) by auto
qed

text \<open>A lookup after any sequence of stores gives the last stored value, or an older one of a
  key the sequence does not store.\<close>

lemma run_puts_get:
  "inv s \<Longrightarrow> (\<forall>(k, v)\<in>set kvs. valid v) \<Longrightarrow> run_puts put s kvs = Inr s' \<Longrightarrow>
     get s' k = Some v \<Longrightarrow>
     map_of (rev kvs) k = Some v \<or> map_of (rev kvs) k = None \<and> get s k = Some v"
proof (induction kvs arbitrary: s)
  case Nil
  then show ?case by simp
next
  case (Cons p kvs)
  obtain k1 v1 where p: "p = (k1, v1)" by (cases p)
  from Cons.prems(3) p obtain s1 where s1: "put s k1 v1 = Inr s1" "run_puts put s1 kvs = Inr s'"
    by (auto simp: res_simps)
  have v1: "valid v1" using Cons.prems(2) p by simp
  then have i1: "inv s1" using Cons.prems(1) put_inv s1(1) by blast
  have "\<forall>(k, v)\<in>set kvs. valid v" using Cons.prems(2) by auto
  from Cons.IH [OF i1 this s1(2) Cons.prems(4)]
  consider "map_of (rev kvs) k = Some v" | "map_of (rev kvs) k = None" "get s1 k = Some v"
    by auto
  then show ?case
  proof cases
    case 1
    then show ?thesis using p by (simp add: map_add_Some_iff)
  next
    case 2
    then show ?thesis
      using put_get_same [OF Cons.prems(1) v1 s1(1)] put_get_other [OF Cons.prems(1) v1 s1(1), of k v] p
      by (cases "k = k1") (auto simp: map_add_def)
  qed
qed

text \<open>The value stored last is found.\<close>

lemma run_puts_last:
  assumes "inv s" "\<forall>(k, v)\<in>set (kvs @ [(k0, v0)]). valid v"
    and "run_puts put s (kvs @ [(k0, v0)]) = Inr s'"
  shows "get s' k0 = Some v0"
  using assms
proof (induction kvs arbitrary: s)
  case Nil
  then show ?case using put_get_same by (auto simp: res_simps)
next
  case (Cons p kvs)
  obtain k v where p: "p = (k, v)" by (cases p)
  from Cons.prems(3) p obtain s1 where s1: "put s k v = Inr s1" "run_puts put s1 (kvs @ [(k0, v0)]) = Inr s'"
    by (auto simp: res_simps)
  moreover have "valid v" using Cons.prems(2) p by simp
  ultimately have "inv s1" using Cons.prems(1) put_inv by blast
  then show ?case using Cons.IH [of s1] Cons.prems(2) s1(2) by auto
qed

end

end
