(* ===== verification/Mica_Proofs.thy ===== *)
theory Mica_Proofs
  imports Mica Kv_Spec
begin

text \<open>
  Correctness of the MICA store: the configuration and index invariants, the layout of the log,
  what an insertion and an update do to them, what a GET can return, and the batched execution.
\<close>

subsection \<open>Definitions of the specification\<close>

definition mica_cfg :: "mica_kv \<Rightarrow> bool" where
  "mica_cfg kv \<longleftrightarrow> (\<exists>k\<in>{21..30}. log_cap kv = 2 ^ k \<and> log_mask kv = 2 ^ k - 1)
     \<and> (\<exists>m\<in>{0..24}. num_bkts kv = 2 ^ m \<and> bkt_mask kv = 2 ^ m - 1)"

definition valid_bkt :: "mica_kv \<Rightarrow> nat \<Rightarrow> bool" where
  "valid_bkt kv b \<longleftrightarrow> int b < num_bkts kv"

text \<open>Natural-number readings of the head, the capacity, a slot's offset and an entry's length.\<close>

abbreviation head_n :: "mica_kv \<Rightarrow> nat" where "head_n kv \<equiv> unat (log_head kv)"
abbreviation cap_n :: "mica_kv \<Rightarrow> nat" where "cap_n kv \<equiv> unat (log_cap kv)"
abbreviation off_n :: "mica_slot \<Rightarrow> nat" where "off_n s \<equiv> unat (offset s)"

definition entry_len :: "mica_kv \<Rightarrow> nat \<Rightarrow> nat" where
  "entry_len kv x = 18 + unat (ht_log kv (x mod cap_n kv + 17))"

definition bkt_wf :: "mica_bkt \<Rightarrow> bool" where
  "bkt_wf b \<longleftrightarrow>
     (\<forall>i<8. \<forall>j<8. i \<le> j \<longrightarrow> in_use (b i) \<longrightarrow> in_use (b j)) \<and>
     (\<forall>i<8. \<forall>j<8. in_use (b i) \<longrightarrow> in_use (b j) \<longrightarrow> slot_tag (b i) = slot_tag (b j) \<longrightarrow> i = j)"

definition used_slot :: "mica_kv \<Rightarrow> mica_slot \<Rightarrow> bool" where
  "used_slot kv s \<longleftrightarrow> (\<exists>b j. valid_bkt kv b \<and> j < 8 \<and> s = ht_index kv b j \<and> in_use s)"

definition live :: "mica_kv \<Rightarrow> nat \<Rightarrow> bool" where
  "live kv x \<longleftrightarrow> head_n kv - x < cap_n kv"

definition entry_ok :: "mica_kv \<Rightarrow> nat \<Rightarrow> bool" where
  "entry_ok kv x \<longleftrightarrow> x + entry_len kv x \<le> head_n kv
     \<and> x mod cap_n kv + entry_len kv x \<le> cap_n kv"

definition entries_apart :: "mica_kv \<Rightarrow> nat \<Rightarrow> nat \<Rightarrow> bool" where
  "entries_apart kv x y \<longleftrightarrow> x = y \<or> x + entry_len kv x \<le> y \<or> y + entry_len kv y \<le> x"

definition mica_inv :: "mica_kv \<Rightarrow> bool" where
  "mica_inv kv \<longleftrightarrow> mica_cfg kv \<and> head_n kv \<le> 2 ^ 40
     \<and> (head_n kv < cap_n kv \<longrightarrow> 78 < cap_n kv - head_n kv)
     \<and> (\<forall>b. valid_bkt kv b \<longrightarrow> bkt_wf (ht_index kv b))
     \<and> (\<forall>s. used_slot kv s \<longrightarrow> off_n s < head_n kv)
     \<and> (\<forall>s. used_slot kv s \<longrightarrow> live kv (off_n s) \<longrightarrow> entry_ok kv (off_n s))
     \<and> (\<forall>s s'. used_slot kv s \<longrightarrow> used_slot kv s' \<longrightarrow> live kv (off_n s) \<longrightarrow> live kv (off_n s')
          \<longrightarrow> entries_apart kv (off_n s) (off_n s'))"

definition op_wf :: "mica_op \<Rightarrow> bool" where
  "op_wf op \<longleftrightarrow> length (op_value op) \<le> MICA_MAX_VALUE"

subsection \<open>Arithmetic of the log head\<close>

lemma mica_cfgE:
  assumes "mica_cfg kv"
  obtains k where "21 \<le> k" "k \<le> 30" "log_cap kv = 2 ^ k" "log_mask kv = mask k"
    "cap_n kv = 2 ^ k"
proof -
  from assms obtain k where k: "21 \<le> k" "k \<le> 30" "log_cap kv = 2 ^ k" "log_mask kv = 2 ^ k - 1"
    by (auto simp: mica_cfg_def)
  then have "cap_n kv = 2 ^ k" by (simp add: unat_two_power)
  with k that show ?thesis by (simp add: mask_word_eq)
qed

lemma cap_bounds: "mica_cfg kv \<Longrightarrow> 2 ^ 21 \<le> cap_n kv \<and> cap_n kv \<le> 2 ^ 30"
  by (erule mica_cfgE) (metis one_le_numeral power_increasing)

lemma key_bucket_valid: "mica_cfg kv \<Longrightarrow> valid_bkt kv (key_bucket kv k)"
proof -
  assume "mica_cfg kv"
  then obtain m where "m \<le> 24" "num_bkts kv = 2 ^ m" "bkt_mask kv = mask m"
    by (auto simp: mica_cfg_def mask_word_eq)
  then show ?thesis
    by (simp add: valid_bkt_def key_bucket_def unat_and_mask flip: of_nat_less_iff)
qed

lemma log_pos: "mica_cfg kv \<Longrightarrow> unat (w AND log_mask kv) = unat w mod cap_n kv"
  by (erule mica_cfgE) (simp add: unat_and_mask)

definition round8 :: "nat \<Rightarrow> nat" where
  "round8 n = (n + 7) div 8 * 8"

lemma round8_bounds: "n \<le> round8 n" "round8 n \<le> n + 7"
  unfolding round8_def by arith+

lemma advance_head_nat:
  assumes cfg: "mica_cfg kv" and h: "head_n kv \<le> 2 ^ 40" and l: "0 < len" "len \<le> 300"
    and room: "head_n kv < cap_n kv \<longrightarrow> round8 (head_n kv + len) < cap_n kv"
  shows "head_n (kv\<lparr>log_head := advance_head kv (of_nat len)\<rparr>) =
    (if round8 (head_n kv + len) \<le> cap_n kv \<and> cap_n kv - round8 (head_n kv + len) \<le> 78
     then cap_n kv else round8 (head_n kv + len))"
proof -
  let ?H = "round8 (head_n kv + len)"
  let ?h = "(log_head kv + of_nat len + 7) AND NOT (7 :: u64)"
  obtain k where k: "21 \<le> k" "k \<le> 30" "log_cap kv = 2 ^ k" "log_mask kv = mask k" "cap_n kv = 2 ^ k"
    using cfg by (rule mica_cfgE)
  have cap: "cap_n kv \<le> 2 ^ 30" using cap_bounds [OF cfg] by simp
  have Hb: "?H \<le> 2 ^ 40 + 307" using h l round8_bounds [of "head_n kv + len"] by linarith
  have "unat (log_head kv + of_nat len) = head_n kv + len"
    using h l by (simp add: unat_word_ariths unat_of_nat)
  then have "unat (log_head kv + of_nat len + 7) = head_n kv + len + 7"
    using h l by (simp add: unat_word_ariths)
  then have h': "unat ?h = ?H"
    using unat_and_not_mask [of "log_head kv + of_nat len + 7" 3]
    by (simp add: round8_def mask_eq_decr_exp)
  have guard: "log_cap kv - ?h \<le> of_nat (MICA_MAX_VALUE + 32) \<longleftrightarrow> ?H \<le> cap_n kv \<and> cap_n kv - ?H \<le> 78"
  proof (cases "?H \<le> cap_n kv")
    case True
    then have "unat (log_cap kv - ?h) = cap_n kv - ?H" using h' by (simp add: unat_minus_le)
    then show ?thesis using True
      by (simp add: word_le_nat_alt MICA_MAX_VALUE_def sizeof_mica_key_def)
  next
    case False
    then have "unat (log_cap kv - ?h) = 2 ^ 64 + cap_n kv - ?H"
      using unat_minus_wrap [of "log_cap kv" ?h] h' by simp
    then show ?thesis using False Hb
      by (simp add: word_le_nat_alt MICA_MAX_VALUE_def sizeof_mica_key_def)
  qed
  have wrap: "unat ((?h + log_cap kv) AND NOT (log_mask kv)) = cap_n kv"
    if "?H < cap_n kv"
  proof -
    have "unat (?h + log_cap kv) = ?H + cap_n kv"
      using h' cap that by (simp add: unat_plus_no_overflow)
    moreover have "(?H + 2 ^ k) div 2 ^ k = 1"
      using that k(5) by (simp add: div_add_self2)
    ultimately show ?thesis
      using unat_and_not_mask [of "?h + log_cap kv" k] k by simp
  qed
  have "?H \<noteq> cap_n kv" if "?H \<le> cap_n kv"
    using room l round8_bounds(1) [of "head_n kv + len"] that
    by (cases "head_n kv < cap_n kv") auto
  then show ?thesis
    using guard wrap h' by (auto simp: advance_head_def Let_def)
qed

subsection \<open>The slot scan and the bucket invariant\<close>

lemma ucast_tag_eq:
  fixes x :: "23 word" and g :: u16
  shows "ucast x = (ucast g :: u32) \<longleftrightarrow> x = ucast (ucast g :: u32)"
proof -
  have x: "unat x < 2 ^ 23" and g: "unat g < 2 ^ 16"
    using unsigned_less [where 'a = nat, of x] unsigned_less [where 'a = nat, of g] by simp_all
  have "unat (ucast x :: u32) = unat x"
    using x by (simp add: unsigned_ucast_eq take_bit_nat_eq_self)
  moreover have g32: "unat (ucast g :: u32) = unat g"
    using g by (simp add: unsigned_ucast_eq take_bit_nat_eq_self)
  moreover have "unat (ucast (ucast g :: u32) :: 23 word) = unat g"
    by (subst unsigned_ucast_eq, subst g32) (use g in \<open>simp add: take_bit_nat_eq_self\<close>)
  ultimately show ?thesis by (simp add: word_unat_eq_iff)
qed

lemma scan_slots_range: "-1 \<le> scan_slots b t n \<and> scan_slots b t n < int n"
  by (induction n) auto

lemma scan_slots_none:
  "scan_slots b t n = -1 \<Longrightarrow> i < n \<Longrightarrow> in_use (b i) \<and> ucast (slot_tag (b i)) \<noteq> t"
  by (induction n) (auto simp: less_Suc_eq split: if_splits)

lemma scan_slots_some:
  "scan_slots b t n = int i \<Longrightarrow>
     (ucast (slot_tag (b i)) = t \<or> \<not> in_use (b i)) \<and>
     (\<forall>j. i < j \<longrightarrow> j < n \<longrightarrow> in_use (b j) \<and> ucast (slot_tag (b j)) \<noteq> t)"
  by (induction n) (auto simp: less_Suc_eq split: if_splits)

lemma slot_to_use_spec:
  assumes wf: "bkt_wf b" and i: "slot_to_use b (ucast (g :: u16)) = (i, ev)"
  shows slot_to_use_less: "i < 8"
    and slot_to_use_other: "\<And>j. j < 8 \<Longrightarrow> j \<noteq> i \<Longrightarrow> in_use (b j) \<Longrightarrow> slot_tag (b j) \<noteq> ucast (ucast g :: u32)"
    and slot_to_use_wf: "bkt_wf (b(i := \<lparr>in_use = True, slot_tag = ucast (ucast g :: u32), offset = x\<rparr>))"
proof -
  let ?t = "ucast g :: u32"
  have suffix: "\<And>j l. j < 8 \<Longrightarrow> l < 8 \<Longrightarrow> j \<le> l \<Longrightarrow> in_use (b j) \<Longrightarrow> in_use (b l)"
    and dist: "\<And>j l. j < 8 \<Longrightarrow> l < 8 \<Longrightarrow> in_use (b j) \<Longrightarrow> in_use (b l) \<Longrightarrow> slot_tag (b j) = slot_tag (b l) \<Longrightarrow> j = l"
    using wf unfolding bkt_wf_def by blast+
  have *: "i < 8 \<and> (\<forall>j<8. j \<noteq> i \<longrightarrow> in_use (b j) \<longrightarrow> slot_tag (b j) \<noteq> ucast ?t)
      \<and> (\<forall>j<8. i < j \<longrightarrow> in_use (b j))"
  proof (cases "scan_slots b ?t 8 = -1")
    case True
    have "unat (?t AND 7) < 8"
      using unat_and_mask [of ?t 3] by (simp add: mask_eq_decr_exp)
    with True i scan_slots_none [OF True] show ?thesis
      by (auto simp: slot_to_use_def ucast_tag_eq)
  next
    case False
    with i have si: "scan_slots b ?t 8 = int i"
      using scan_slots_range [of b ?t 8] by (auto simp: slot_to_use_def Let_def)
    have "i < 8" using si scan_slots_range [of b ?t 8] by simp
    moreover have "slot_tag (b j) \<noteq> ucast ?t" if "j < 8" "j \<noteq> i" "in_use (b j)" for j
    proof (cases "i < j")
      case True
      then show ?thesis using scan_slots_some [OF si] that by (simp add: ucast_tag_eq)
    next
      case False
      then have "in_use (b i)" using suffix [of j i] that \<open>i < 8\<close> by simp
      then have "slot_tag (b i) = ucast ?t" using scan_slots_some [OF si] by (simp add: ucast_tag_eq)
      then show ?thesis using dist [of j i] that \<open>i < 8\<close> \<open>in_use (b i)\<close> by auto
    qed
    ultimately show ?thesis using scan_slots_some [OF si] by blast
  qed
  then show "i < 8" and oth: "\<And>j. j < 8 \<Longrightarrow> j \<noteq> i \<Longrightarrow> in_use (b j) \<Longrightarrow> slot_tag (b j) \<noteq> ucast ?t"
    by auto
  show "bkt_wf (b(i := \<lparr>in_use = True, slot_tag = ucast ?t, offset = x\<rparr>))"
    (is "bkt_wf ?b'")
    unfolding bkt_wf_def
  proof (intro conjI allI impI)
    fix j l :: nat
    assume "j < 8" "l < 8" "j \<le> l" "in_use (?b' j)"
    then show "in_use (?b' l)"
      using * suffix [of j l] by (cases "l = i"; cases "j = i") auto
  next
    fix j l :: nat
    assume "j < 8" "l < 8" "in_use (?b' j)" "in_use (?b' l)" "slot_tag (?b' j) = slot_tag (?b' l)"
    then show "j = l"
      using * dist [of j l] by (cases "l = i"; cases "j = i") auto
  qed
qed

subsection \<open>Looking a key up\<close>

definition key_slot_tag :: "mica_key \<Rightarrow> 23 word" where
  "key_slot_tag k = ucast (ucast (key_tag k) :: u32)"

lemma lookup_slot_SomeD:
  "lookup_slot kv k = Some j \<Longrightarrow>
     j < 8 \<and> in_use (ht_index kv (key_bucket kv k) j)
     \<and> slot_tag (ht_index kv (key_bucket kv k) j) = key_slot_tag k"
  by (auto simp: lookup_slot_def Let_def find_Some_iff ucast_tag_eq key_slot_tag_def)

lemma lookup_slot_NoneD:
  "lookup_slot kv k = None \<Longrightarrow> j < 8 \<Longrightarrow> in_use (ht_index kv (key_bucket kv k) j)
     \<Longrightarrow> slot_tag (ht_index kv (key_bucket kv k) j) \<noteq> key_slot_tag k"
  by (auto simp: lookup_slot_def Let_def find_None_iff ucast_tag_eq key_slot_tag_def)

lemma lookup_slot_eqI:
  assumes "bkt_wf (ht_index kv (key_bucket kv k))" "j < 8"
    and "in_use (ht_index kv (key_bucket kv k) j)"
    and "slot_tag (ht_index kv (key_bucket kv k) j) = key_slot_tag k"
  shows "lookup_slot kv k = Some j"
proof (cases "lookup_slot kv k")
  case None
  then show ?thesis using lookup_slot_NoneD assms by blast
next
  case (Some l)
  then have "l = j"
    using lookup_slot_SomeD [OF Some] assms unfolding bkt_wf_def by metis
  with Some show ?thesis by simp
qed

lemma used_slotI:
  "valid_bkt kv b \<Longrightarrow> j < 8 \<Longrightarrow> in_use (ht_index kv b j) \<Longrightarrow> used_slot kv (ht_index kv b j)"
  by (auto simp: used_slot_def)

lemma mica_invD:
  assumes "mica_inv kv"
  shows "mica_cfg kv" "head_n kv \<le> 2 ^ 40" "valid_bkt kv b \<Longrightarrow> bkt_wf (ht_index kv b)"
    and "head_n kv < cap_n kv \<Longrightarrow> 78 < cap_n kv - head_n kv"
    and "used_slot kv s \<Longrightarrow> off_n s < head_n kv"
    and "used_slot kv s \<Longrightarrow> live kv (off_n s) \<Longrightarrow> entry_ok kv (off_n s)"
    and "used_slot kv s \<Longrightarrow> used_slot kv s' \<Longrightarrow> live kv (off_n s) \<Longrightarrow> live kv (off_n s')
          \<Longrightarrow> entries_apart kv (off_n s) (off_n s')"
  using assms unfolding mica_inv_def by blast+

lemma unat_ucast_offset: "unat (ucast (x :: 40 word) :: u64) = unat x"
proof -
  have "unat x < 2 ^ 40" using unsigned_less [where 'a = nat, of x] by simp
  then show ?thesis by (simp add: unsigned_ucast_eq take_bit_nat_eq_self)
qed

lemma inv_bucket:
  assumes "mica_inv kv"
  shows "valid_bkt kv (key_bucket kv k)" "bkt_wf (ht_index kv (key_bucket kv k))"
  using key_bucket_valid [OF mica_invD(1) [OF assms]] mica_invD(3) [OF assms] by auto

lemma lookup_used:
  assumes "mica_inv kv" "lookup_slot kv k = Some j"
  shows "used_slot kv (ht_index kv (key_bucket kv k) j)"
  using used_slotI inv_bucket(1) [OF assms(1)] lookup_slot_SomeD [OF assms(2)] by blast

definition live_ptr :: "mica_kv \<Rightarrow> nat \<Rightarrow> nat option" where
  "live_ptr kv x = (if live kv x then Some (x mod cap_n kv) else None)"

lemma lookup_ptr_eq:
  assumes "mica_inv kv"
  shows "lookup_ptr kv op = (case lookup_slot kv (op_key op) of None \<Rightarrow> None
     | Some j \<Rightarrow> live_ptr kv (off_n (ht_index kv (key_bucket kv (op_key op)) j)))"
proof (cases "lookup_slot kv (op_key op)")
  case None
  then show ?thesis by (simp add: lookup_ptr_def)
next
  case (Some j)
  let ?s = "ht_index kv (key_bucket kv (op_key op)) j"
  have "off_n ?s < head_n kv"
    using mica_invD(5) [OF assms lookup_used [OF assms Some]] .
  then have "unat (log_head kv - ucast (offset ?s)) = head_n kv - off_n ?s"
    by (simp add: unat_minus_le unat_ucast_offset)
  then have "log_head kv - ucast (offset ?s) \<ge> log_cap kv \<longleftrightarrow> \<not> live kv (off_n ?s)"
    by (simp add: word_le_nat_alt live_def not_less)
  then show ?thesis
    using Some log_pos [OF mica_invD(1) [OF assms], of "ucast (offset ?s)"]
    by (simp add: lookup_ptr_def live_ptr_def unat_ucast_offset)
qed

subsection \<open>Physical positions\<close>

lemma mod_window_neq:
  fixes a b c :: nat
  assumes "a < b" "b - a < c"
  shows "a mod c \<noteq> b mod c"
proof
  assume "a mod c = b mod c"
  then have "c dvd b - a" using assms(1) by (metis mod_eq_dvd_iff_nat less_imp_le_nat)
  then show False using assms nat_dvd_not_less by auto
qed

lemma phys_add: "x mod c + i < c \<Longrightarrow> x mod c + i = (x + i) mod (c :: nat)"
  by (metis mod_add_left_eq mod_less)

lemma phys_frame:
  fixes x h c :: nat
  assumes "x mod c + i < c" "h mod c + j < c" "x + i < h + j" "h + j - (x + i) < c"
  shows "x mod c + i \<noteq> h mod c + j"
  using mod_window_neq [OF assms(3,4)] phys_add [OF assms(1)] phys_add [OF assms(2)] by simp

subsection \<open>What an insertion does\<close>

definition op_len :: "mica_op \<Rightarrow> nat" where
  "op_len op = 18 + unat (val_len op)"

definition new_slot :: "mica_kv \<Rightarrow> mica_op \<Rightarrow> mica_slot" where
  "new_slot kv op = \<lparr>in_use = True, slot_tag = key_slot_tag (op_key op), offset = ucast (log_head kv)\<rparr>"

lemma length_key_bytes [simp]: "length (key_bytes k) = 16"
  by (simp add: key_bytes_def)

lemma length_op_bytes [simp]: "length (op_bytes op) = 18 + length (op_value op)"
  by (simp add: op_bytes_def)

lemma advance_bounds:
  assumes inv: "mica_inv kv" and l: "0 < len" "len \<le> 64" and h: "head_n kv + len + 8 < 2 ^ 40"
  defines "h' \<equiv> unat (advance_head kv (of_nat len))"
  shows "head_n kv + len \<le> h'" "h' \<le> 2 ^ 40" "h' - head_n kv < cap_n kv"
    "h' < cap_n kv \<Longrightarrow> 78 < cap_n kv - h'"
proof -
  let ?H = "round8 (head_n kv + len)"
  note cfg = mica_invD(1) [OF inv]
  have r: "head_n kv + len \<le> ?H" "?H \<le> head_n kv + len + 7" by (rule round8_bounds)+
  have room: "head_n kv < cap_n kv \<longrightarrow> ?H < cap_n kv"
    using mica_invD(4) [OF inv] r l by linarith
  have h': "h' = (if ?H \<le> cap_n kv \<and> cap_n kv - ?H \<le> 78 then cap_n kv else ?H)"
    using advance_head_nat [OF cfg mica_invD(2) [OF inv] l(1) _ room] l by (simp add: h'_def)
  show "head_n kv + len \<le> h'" "h' \<le> 2 ^ 40" "h' - head_n kv < cap_n kv"
    "h' < cap_n kv \<Longrightarrow> 78 < cap_n kv - h'"
    using h' r h l cap_bounds [OF cfg] by (auto split: if_splits)
qed

lemma mica_insert_one_Inr:
  assumes inv: "mica_inv kv" and wf: "op_wf op" and ins: "mica_insert_one kv op = Inr kv'"
  defines "b \<equiv> key_bucket kv (op_key op)" and "h \<equiv> head_n kv"
  obtains i where "i < 8"
    and "\<And>j. j < 8 \<Longrightarrow> j \<noteq> i \<Longrightarrow> in_use (ht_index kv b j) \<Longrightarrow> slot_tag (ht_index kv b j) \<noteq> key_slot_tag (op_key op)"
    and "bkt_wf ((ht_index kv b)(i := new_slot kv op))"
    and "ht_index kv' = (ht_index kv)(b := (ht_index kv b)(i := new_slot kv op))"
    and "ht_log kv' = write_bytes (ht_log kv) (h mod cap_n kv) (take (op_len op) (op_bytes op))"
    and "log_cap kv' = log_cap kv" "log_mask kv' = log_mask kv" "bkt_mask kv' = bkt_mask kv"
      "num_bkts kv' = num_bkts kv"
    and "op_len op \<le> 64" "unat (val_len op) \<le> length (op_value op)"
    and "h + op_len op + 8 < 2 ^ 40" "h mod cap_n kv + op_len op \<le> cap_n kv"
    and "log_head kv' = advance_head kv (of_nat (op_len op))"
proof -
  obtain i ev where i: "slot_to_use (ht_index kv b) (ucast (key_tag (op_key op))) = (i, ev)"
    by fastforce
  note defs = mica_insert_one_def Let_def b_def [symmetric] i case_prod_conv sizeof_mica_key_def
  from ins have a: "of_nat (op_len op + 8) < (2 ^ MICA_LOG_BITS :: u64) - log_head kv"
    and m: "op_len op \<le> length (op_bytes op)"
      "unat (log_head kv AND log_mask kv) + op_len op \<le> cap_n kv"
    and kv': "kv' = kv\<lparr>ht_index := (ht_index kv)(b := (ht_index kv b)(i := new_slot kv op)),
       ht_log := write_bytes (ht_log kv) (unat (log_head kv AND log_mask kv)) (take (op_len op) (op_bytes op)),
       log_head := advance_head kv (of_nat (op_len op)),
       num_put_op := num_put_op kv + 1,
       num_index_evictions := num_index_evictions kv + (if ev then 1 else 0)\<rparr>"
    by (auto simp: defs res_simps op_len_def new_slot_def key_slot_tag_def)
  have len: "op_len op \<le> 64"
    using m(1) wf by (simp add: op_wf_def MICA_MAX_VALUE_def sizeof_mica_key_def)
  have "unat ((2 ^ MICA_LOG_BITS :: u64) - log_head kv) = 2 ^ 40 - h"
    using mica_invD(2) [OF inv] by (simp add: MICA_LOG_BITS_def unat_minus_le h_def)
  moreover have "unat (of_nat (op_len op + 8) :: u64) = op_len op + 8"
    using len unat_of_nat [where 'a = 64, of "op_len op + 8"] by (simp del: of_nat_add)
  ultimately have "h + op_len op + 8 < 2 ^ 40"
    using a by (simp only: word_less_nat_alt)
  moreover note log_pos [OF mica_invD(1) [OF inv], of "log_head kv"]
  moreover note slot_to_use_spec [OF _ i, folded key_slot_tag_def]
  ultimately show ?thesis
    using that [of i] kv' m len inv_bucket(2) [OF inv, of "op_key op"]
    by (simp add: h_def new_slot_def op_len_def b_def)
qed

subsection \<open>Insertion keeps the invariant\<close>

text \<open>
  An entry that is still live after a write at the old head, and lay below that head, has all
  its bytes outside the written range.
\<close>

lemma write_frame:
  assumes x: "x + n \<le> h" "x mod c + n \<le> c" and h: "h mod c + length bs \<le> c"
    and live: "h + length bs - x \<le> c" and i: "i < n"
  shows "write_bytes m (h mod c) bs (x mod c + i) = m (x mod c + i)"
proof (rule write_bytes_outside, rule ccontr)
  assume "\<not> (x mod c + i < h mod c \<or> h mod c + length bs \<le> x mod c + i)"
  then obtain j where "x mod c + i = h mod c + j" "j < length bs"
    by (metis le_Suc_ex nat_add_left_cancel_less not_le)
  moreover from this have "x mod c + i \<noteq> h mod c + j"
    using x h live i by (intro phys_frame) linarith+
  ultimately show False by simp
qed

lemma insert_used_slot:
  assumes idx: "ht_index kv' = (ht_index kv)(b := (ht_index kv b)(i := s0))"
    and n: "num_bkts kv' = num_bkts kv" and u: "used_slot kv' s"
  shows "s = s0 \<or> used_slot kv s"
proof -
  from u obtain b' j where s: "valid_bkt kv' b'" "j < 8" "s = ht_index kv' b' j" "in_use s"
    by (auto simp: used_slot_def)
  show ?thesis
  proof (cases "b' = b \<and> j = i")
    case True
    then show ?thesis using s idx by simp
  next
    case False
    then have "s = ht_index kv b' j" using s idx by (auto simp: fun_upd_def)
    then show ?thesis using s n by (auto simp: used_slot_def valid_bkt_def)
  qed
qed

lemma off_new_slot: "mica_inv kv \<Longrightarrow> head_n kv < 2 ^ 40 \<Longrightarrow> off_n (new_slot kv op) = head_n kv"
  by (simp add: new_slot_def unsigned_ucast_eq take_bit_nat_eq_self)

text \<open>Entries that lie below the old head and are still live are unchanged by the insertion.\<close>

lemma insert_entry_frame:
  assumes inv: "mica_inv kv" and wf: "op_wf op" and ins: "mica_insert_one kv op = Inr kv'"
    and u: "used_slot kv s" and live: "live kv' (off_n s)"
  shows "live kv (off_n s)" "entry_len kv' (off_n s) = entry_len kv (off_n s)"
    "off_n s + entry_len kv (off_n s) \<le> head_n kv"
    "n \<le> entry_len kv (off_n s) \<Longrightarrow>
       read_bytes (ht_log kv') (off_n s mod cap_n kv) n = read_bytes (ht_log kv) (off_n s mod cap_n kv) n"
proof -
  let ?x = "off_n s" and ?h = "head_n kv" and ?c = "cap_n kv"
  obtain i where r: "ht_log kv' = write_bytes (ht_log kv) (?h mod ?c) (take (op_len op) (op_bytes op))"
      "log_cap kv' = log_cap kv" "op_len op \<le> 64" "unat (val_len op) \<le> length (op_value op)"
      "?h + op_len op + 8 < 2 ^ 40" "?h mod ?c + op_len op \<le> ?c"
      "log_head kv' = advance_head kv (of_nat (op_len op))"
    using mica_insert_one_Inr [OF inv wf ins] by metis
  have len: "length (take (op_len op) (op_bytes op)) = op_len op" using r(4) by (simp add: op_len_def)
  have "0 < op_len op" by (simp add: op_len_def)
  then have h': "?h + op_len op \<le> head_n kv'" using advance_bounds(1) [OF inv _ r(3) r(5)] r(7) by simp
  show lv: "live kv ?x" using live h' r(2) by (simp add: live_def)
  from mica_invD(6) [OF inv u lv] have e: "?x + entry_len kv ?x \<le> ?h" "?x mod ?c + entry_len kv ?x \<le> ?c"
    by (simp_all add: entry_ok_def)
  then show "?x + entry_len kv ?x \<le> ?h" by simp
  have fr: "ht_log kv' (?x mod ?c + i) = ht_log kv (?x mod ?c + i)" if "i < entry_len kv ?x" for i
    unfolding r(1)
    using e r(6) len live h' r(2) that
    by (intro write_frame [where n = "entry_len kv ?x"]) (auto simp: live_def)
  show "entry_len kv' ?x = entry_len kv ?x"
    using fr [of 17] r(2) by (simp add: entry_len_def)
  show "n \<le> entry_len kv ?x \<Longrightarrow> read_bytes (ht_log kv') (?x mod ?c) n = read_bytes (ht_log kv) (?x mod ?c) n"
    using fr by (intro read_bytes_cong) simp
qed

lemma insert_new_entry:
  assumes inv: "mica_inv kv" and wf: "op_wf op" and ins: "mica_insert_one kv op = Inr kv'"
  defines "p \<equiv> head_n kv mod cap_n kv"
  shows "read_bytes (ht_log kv') p 16 = key_bytes (op_key op)"
    and "ht_log kv' (p + 17) = val_len op"
    and "read_bytes (ht_log kv') (p + 18) (unat (val_len op)) = take (unat (val_len op)) (op_value op)"
    and "entry_len kv' (head_n kv) = op_len op"
proof -
  let ?bs = "take (op_len op) (op_bytes op)"
  obtain i where r: "ht_log kv' = write_bytes (ht_log kv) p ?bs" "log_cap kv' = log_cap kv"
      "unat (val_len op) \<le> length (op_value op)"
    using mica_insert_one_Inr [OF inv wf ins] unfolding p_def by metis
  have len: "length ?bs = 18 + unat (val_len op)" using r(3) by (simp add: op_len_def)
  have bs: "?bs = key_bytes (op_key op) @ [opcode op, val_len op] @ take (unat (val_len op)) (op_value op)"
    by (simp add: op_bytes_def op_len_def)
  show "read_bytes (ht_log kv') p 16 = key_bytes (op_key op)"
    using read_write_same [of 0 16 ?bs "ht_log kv" p] len r(1) bs by simp
  show 17: "ht_log kv' (p + 17) = val_len op"
    using r(1) write_bytes_inside [of p "p + 17" ?bs] len bs by (simp add: nth_append)
  show "read_bytes (ht_log kv') (p + 18) (unat (val_len op)) = take (unat (val_len op)) (op_value op)"
    using read_write_same [of 18 "unat (val_len op)" ?bs "ht_log kv" p] len r(1) bs by simp
  show "entry_len kv' (head_n kv) = op_len op"
    using 17 r(2) by (simp add: entry_len_def op_len_def p_def)
qed

lemma insert_inv:
  assumes inv: "mica_inv kv" and wf: "op_wf op" and ins: "mica_insert_one kv op = Inr kv'"
  shows "mica_inv kv'"
proof -
  define h b where "h = head_n kv" and "b = key_bucket kv (op_key op)"
  obtain i where wfb: "bkt_wf ((ht_index kv b)(i := new_slot kv op))"
    and idx: "ht_index kv' = (ht_index kv)(b := (ht_index kv b)(i := new_slot kv op))"
    and cap: "log_cap kv' = log_cap kv" "log_mask kv' = log_mask kv"
      "bkt_mask kv' = bkt_mask kv" "num_bkts kv' = num_bkts kv"
    and l: "op_len op \<le> 64" "h + op_len op + 8 < 2 ^ 40" "h mod cap_n kv + op_len op \<le> cap_n kv"
    and hd: "log_head kv' = advance_head kv (of_nat (op_len op))"
    using mica_insert_one_Inr [OF inv wf ins] unfolding b_def h_def by metis
  have "0 < op_len op" by (simp add: op_len_def)
  note adv = advance_bounds [OF inv this l(1) l(2) [unfolded h_def], folded hd h_def]
  have off: "off_n (new_slot kv op) = h"
    using l off_new_slot [OF inv] by (simp add: h_def)
  have used: "used_slot kv' s \<Longrightarrow> s = new_slot kv op \<or> used_slot kv s" for s
    using insert_used_slot [OF idx cap(4)] by blast
  note frame = insert_entry_frame [OF inv wf ins]
  note new = insert_new_entry(4) [OF inv wf ins, folded h_def]
  have new_ok: "entry_ok kv' h" using new adv l cap by (simp add: entry_ok_def)
  have old: "live kv (off_n s)" "entry_len kv' (off_n s) = entry_len kv (off_n s)"
      "off_n s + entry_len kv' (off_n s) \<le> h" "entry_ok kv' (off_n s)"
    if "used_slot kv s" "live kv' (off_n s)" for s
    using frame(1-3) [OF that] mica_invD(6) [OF inv that(1)] adv(1) cap
    by (auto simp: entry_ok_def h_def)
  have "off_n s < head_n kv'" if "used_slot kv' s" for s
    using used [OF that] mica_invD(5) [OF inv, of s] off adv(1) \<open>0 < op_len op\<close> by (auto simp: h_def)
  moreover have "entry_ok kv' (off_n s)" if "used_slot kv' s" "live kv' (off_n s)" for s
    using used [OF that(1)] new_ok old(4) that(2) off by auto
  moreover have "entries_apart kv' (off_n s) (off_n s')"
    if u: "used_slot kv' s" "used_slot kv' s'" and v: "live kv' (off_n s)" "live kv' (off_n s')" for s s'
  proof -
    consider "s = new_slot kv op" "s' = new_slot kv op" | "s = new_slot kv op" "used_slot kv s'"
      | "used_slot kv s" "s' = new_slot kv op" | "used_slot kv s" "used_slot kv s'"
      using used u by blast
    then show ?thesis
    proof cases
      case 4
      then show ?thesis
        using mica_invD(7) [OF inv 4] old [OF 4(1) v(1)] old [OF 4(2) v(2)]
        by (simp add: entries_apart_def)
    qed (use old off v in \<open>auto simp: entries_apart_def\<close>)
  qed
  moreover have "bkt_wf (ht_index kv' b')" if "valid_bkt kv' b'" for b'
    using mica_invD(3) [OF inv, of b'] wfb idx cap(4) that by (cases "b' = b") (simp_all add: valid_bkt_def)
  moreover have "mica_cfg kv'" using mica_invD(1) [OF inv] cap by (simp add: mica_cfg_def)
  ultimately show ?thesis
    using adv(2,4) cap unfolding mica_inv_def by simp
qed

subsection \<open>What a GET returns\<close>

definition mica_get :: "mica_kv \<Rightarrow> mica_key \<Rightarrow> u8 list option" where
  "mica_get kv k =
     (case lookup_slot kv k of None \<Rightarrow> None
      | Some j \<Rightarrow>
          let p = off_n (ht_index kv (key_bucket kv k) j) mod cap_n kv in
          if live kv (off_n (ht_index kv (key_bucket kv k) j))
             \<and> read_bytes (ht_log kv) p 16 = key_bytes k
          then Some (read_bytes (ht_log kv) (p + 18) (unat (ht_log kv (p + 17)))) else None)"

lemma key_bytes_inj: "key_bytes k = key_bytes k' \<Longrightarrow> k = k'"
  by (rule mica_key.equality)
    (auto simp: key_bytes_def dest!: le_bytes_inj [rotated])

lemma read_bytes_shift:
  assumes "read_bytes m p n = read_bytes m' p n" "k + l \<le> n"
  shows "read_bytes m (p + k) l = read_bytes m' (p + k) l"
proof (rule read_bytes_cong)
  fix i assume "i < l"
  then have "k + i < n" using assms(2) by simp
  then show "m (p + k + i) = m' (p + k + i)"
    using arg_cong [OF assms(1), of "\<lambda>xs. xs ! (k + i)"] by (simp add: add.assoc)
qed

lemma get_insert_same:
  assumes inv: "mica_inv kv" and wf: "op_wf op" and ins: "mica_insert_one kv op = Inr kv'"
  shows "mica_get kv' (op_key op) = Some (take (unat (val_len op)) (op_value op))"
proof -
  define b where "b = key_bucket kv (op_key op)"
  obtain i where i: "i < 8" and idx: "ht_index kv' = (ht_index kv)(b := (ht_index kv b)(i := new_slot kv op))"
    and cap: "log_cap kv' = log_cap kv" "bkt_mask kv' = bkt_mask kv"
    and l: "op_len op \<le> 64" "head_n kv + op_len op + 8 < 2 ^ 40"
    and hd: "log_head kv' = advance_head kv (of_nat (op_len op))"
    using mica_insert_one_Inr [OF inv wf ins] unfolding b_def by metis
  have b': "key_bucket kv' (op_key op) = b" using cap by (simp add: b_def key_bucket_def)
  have sl: "ht_index kv' b i = new_slot kv op" using idx by simp
  have lk: "lookup_slot kv' (op_key op) = Some i"
    using lookup_slot_eqI [of kv' "op_key op" i] inv_bucket(2) [OF insert_inv [OF inv wf ins], of "op_key op"] i sl b'
    by (simp add: new_slot_def)
  have "0 < op_len op" by (simp add: op_len_def)
  then have "live kv' (head_n kv)"
    using advance_bounds(3) [OF inv _ l(1) l(2)] hd cap by (simp add: live_def)
  moreover have "off_n (new_slot kv op) = head_n kv" using off_new_slot [OF inv] l by simp
  ultimately show ?thesis
    using lk b' sl cap insert_new_entry(1-3) [OF inv wf ins] by (simp add: mica_get_def)
qed

lemma get_insert_other:
  assumes inv: "mica_inv kv" and wf: "op_wf op" and ins: "mica_insert_one kv op = Inr kv'"
    and k: "k \<noteq> op_key op" and g: "mica_get kv' k = Some v"
  shows "mica_get kv k = Some v"
proof -
  define b b' where "b = key_bucket kv (op_key op)" and "b' = key_bucket kv k"
  obtain i where idx: "ht_index kv' = (ht_index kv)(b := (ht_index kv b)(i := new_slot kv op))"
    and cap: "log_cap kv' = log_cap kv" "bkt_mask kv' = bkt_mask kv" and l: "head_n kv + op_len op + 8 < 2 ^ 40"
    using mica_insert_one_Inr [OF inv wf ins] unfolding b_def by metis
  have bk: "key_bucket kv' k = b'" using cap by (simp add: b'_def key_bucket_def)
  from g obtain j where lk: "lookup_slot kv' k = Some j" by (auto simp: mica_get_def split: option.splits)
  let ?s = "ht_index kv' b' j" let ?p = "off_n ?s mod cap_n kv"
  from g lk have lv: "live kv' (off_n ?s)" and kb: "read_bytes (ht_log kv') ?p 16 = key_bytes k"
    and v: "v = read_bytes (ht_log kv') (?p + 18) (unat (ht_log kv' (?p + 17)))"
    using bk cap by (auto simp: mica_get_def Let_def split: if_splits)
  have j: "j < 8" "in_use ?s" "slot_tag ?s = key_slot_tag k"
    using lookup_slot_SomeD [OF lk] bk by auto
  have "off_n (new_slot kv op) = head_n kv" using off_new_slot [OF inv] l by simp
  then have "\<not> (b' = b \<and> j = i)"
    using kb idx insert_new_entry(1) [OF inv wf ins] k key_bytes_inj by fastforce
  then have s: "?s = ht_index kv b' j" using idx by (auto simp: fun_upd_def)
  have u: "used_slot kv ?s"
    using used_slotI [of kv b' j] inv_bucket(1) [OF inv, of k] j s by (simp add: b'_def)
  note fr = insert_entry_frame [OF inv wf ins u lv]
  have lk': "lookup_slot kv k = Some j"
    using lookup_slot_eqI [of kv k j] inv_bucket(2) [OF inv, of k] j s b'_def by simp
  have rd: "read_bytes (ht_log kv') ?p (entry_len kv (off_n ?s)) = read_bytes (ht_log kv) ?p (entry_len kv (off_n ?s))"
    using fr(4) by simp
  have vl: "ht_log kv' (?p + 17) = ht_log kv (?p + 17)"
    using arg_cong [OF read_bytes_shift [OF rd, of 17 1], of hd]
    by (simp add: entry_len_def read_bytes_def)
  have "read_bytes (ht_log kv) ?p 16 = key_bytes k"
    using read_bytes_shift [OF rd, of 0 16] kb by (simp add: entry_len_def)
  moreover have "v = read_bytes (ht_log kv) (?p + 18) (unat (ht_log kv (?p + 17)))"
    using read_bytes_shift [OF rd, of 18 "unat (ht_log kv (?p + 17))"] v vl cap
    by (simp add: entry_len_def)
  ultimately show ?thesis
    using lk' fr(1) s b'_def by (simp add: mica_get_def Let_def)
qed

subsection \<open>In-place update\<close>

lemma entries_disjoint:
  assumes inv: "mica_inv kv" and u: "used_slot kv s" "used_slot kv s'"
    and v: "live kv (off_n s)" "live kv (off_n s')" and ne: "off_n s \<noteq> off_n s'"
    and i: "i < entry_len kv (off_n s)" and j: "j < entry_len kv (off_n s')"
  shows "off_n s mod cap_n kv + i \<noteq> off_n s' mod cap_n kv + j"
proof -
  have ok: "entry_ok kv (off_n s)" "entry_ok kv (off_n s')"
    using mica_invD(6) [OF inv] u v by auto
  consider "off_n s + entry_len kv (off_n s) \<le> off_n s'" | "off_n s' + entry_len kv (off_n s') \<le> off_n s"
    using mica_invD(7) [OF inv u v] ne by (auto simp: entries_apart_def)
  then show ?thesis
  proof cases
    case 1
    with ok i j v show ?thesis
      by (intro phys_frame) (auto simp: entry_ok_def live_def)
  next
    case 2
    with ok i j v show ?thesis
      by (intro phys_frame [symmetric]) (auto simp: entry_ok_def live_def)
  qed
qed

text \<open>
  Overwriting the value bytes of the entry a key resolves to, as the PUT branch of the third
  loop does: the other entries and the first 18 bytes of every entry stay as they are.
\<close>

definition updated :: "mica_kv \<Rightarrow> nat \<Rightarrow> u8 list \<Rightarrow> mica_kv \<Rightarrow> bool" where
  "updated kv x bs kv' \<longleftrightarrow> ht_index kv' = ht_index kv \<and> bkt_mask kv' = bkt_mask kv
     \<and> num_bkts kv' = num_bkts kv
     \<and> log_cap kv' = log_cap kv \<and> log_mask kv' = log_mask kv \<and> log_head kv' = log_head kv
     \<and> ht_log kv' = write_bytes (ht_log kv) (x mod cap_n kv + 18) bs"

lemma updated_same:
  assumes "updated kv x bs kv'"
  shows "used_slot kv' s = used_slot kv s" "live kv' y = live kv y" "cap_n kv' = cap_n kv"
    "lookup_slot kv' k = lookup_slot kv k" "key_bucket kv' k = key_bucket kv k"
  using assms by (simp_all add: updated_def used_slot_def live_def lookup_slot_def key_bucket_def valid_bkt_def)

lemma updated_frame:
  assumes inv: "mica_inv kv" and up: "updated kv (off_n s) bs kv'"
    and s: "used_slot kv s" "live kv (off_n s)" "18 + length bs \<le> entry_len kv (off_n s)"
    and s': "used_slot kv s'" "live kv (off_n s')"
    and i: "i < entry_len kv (off_n s')" "off_n s' = off_n s \<longrightarrow> i < 18"
  shows "ht_log kv' (off_n s' mod cap_n kv + i) = ht_log kv (off_n s' mod cap_n kv + i)"
proof -
  have "\<not> (off_n s mod cap_n kv + 18 \<le> off_n s' mod cap_n kv + i
      \<and> off_n s' mod cap_n kv + i < off_n s mod cap_n kv + 18 + length bs)" (is "\<not> ?bad")
  proof
    assume ?bad
    define j where "j = off_n s' mod cap_n kv + i - off_n s mod cap_n kv"
    have j: "off_n s mod cap_n kv + j = off_n s' mod cap_n kv + i" "18 \<le> j" "j < 18 + length bs"
      using \<open>?bad\<close> unfolding j_def by linarith+
    show False
    proof (cases "off_n s = off_n s'")
      case True
      then show False using j i(2) by simp
    next
      case False
      then show False
        using entries_disjoint [OF inv s(1) s'(1) s(2) s'(2) False, of j i] s(3) i(1) j by simp
    qed
  qed
  then show ?thesis using up by (auto simp: updated_def intro: write_bytes_outside)
qed

lemma updated_entry_len:
  assumes "mica_inv kv" "updated kv (off_n s) bs kv'"
    and "used_slot kv s" "live kv (off_n s)" "18 + length bs \<le> entry_len kv (off_n s)"
    and "used_slot kv s'" "live kv (off_n s')"
  shows "entry_len kv' (off_n s') = entry_len kv (off_n s')"
  using updated_frame [OF assms, of 17] updated_same(3) [OF assms(2)] by (simp add: entry_len_def)

lemma updated_inv:
  assumes inv: "mica_inv kv" and up: "updated kv (off_n s) bs kv'"
    and s: "used_slot kv s" "live kv (off_n s)" "18 + length bs \<le> entry_len kv (off_n s)"
  shows "mica_inv kv'"
proof -
  note len = updated_entry_len [OF assms]
  have "mica_cfg kv'" "log_head kv' = log_head kv" "ht_index kv' = ht_index kv" "num_bkts kv' = num_bkts kv"
    using up mica_invD(1) [OF inv] by (auto simp: updated_def mica_cfg_def)
  note f = this
  have "entry_ok kv' (off_n t)" if "used_slot kv' t" "live kv' (off_n t)" for t
    using mica_invD(6) [OF inv] len that f(2)
    by (simp add: entry_ok_def updated_same [OF up])
  moreover have "entries_apart kv' (off_n t) (off_n t')"
    if "used_slot kv' t" "used_slot kv' t'" "live kv' (off_n t)" "live kv' (off_n t')" for t t'
    using mica_invD(7) [OF inv, of t t'] len that by (simp add: entries_apart_def updated_same [OF up])
  moreover have "off_n t < head_n kv'" if "used_slot kv' t" for t
    using mica_invD(5) [OF inv] that f(2) by (simp add: updated_same [OF up])
  ultimately show ?thesis
    using f mica_invD(2-4) [OF inv] unfolding mica_inv_def updated_same(3) [OF up] by (simp add: valid_bkt_def)
qed

lemma updated_get_other:
  assumes inv: "mica_inv kv" and up: "updated kv (off_n s) bs kv'"
    and s: "used_slot kv s" "live kv (off_n s)" "18 + length bs \<le> entry_len kv (off_n s)"
    and key: "read_bytes (ht_log kv) (off_n s mod cap_n kv) 16 = key_bytes k" and k: "k' \<noteq> k"
  shows "mica_get kv' k' = mica_get kv k'"
proof (cases "lookup_slot kv k'")
  case None
  then show ?thesis by (simp add: mica_get_def updated_same [OF up])
next
  case (Some j)
  let ?s = "ht_index kv (key_bucket kv k') j"
  have idx: "ht_index kv' = ht_index kv" using up by (simp add: updated_def)
  have u: "used_slot kv ?s" using lookup_used [OF inv Some] .
  show ?thesis
  proof (cases "live kv (off_n ?s)")
    case False
    then show ?thesis using Some idx by (simp add: mica_get_def updated_same [OF up] Let_def)
  next
    case True
    note fr = updated_frame [OF inv up s u True]
    let ?p = "off_n ?s mod cap_n kv"
    have el: "18 \<le> entry_len kv (off_n ?s)" by (simp add: entry_len_def)
    have kb: "read_bytes (ht_log kv') ?p 16 = read_bytes (ht_log kv) ?p 16"
      using fr el by (intro read_bytes_cong) simp
    show ?thesis
    proof (cases "off_n ?s = off_n s")
      case True
      then have "read_bytes (ht_log kv) ?p 16 \<noteq> key_bytes k'"
        using key k key_bytes_inj by metis
      then show ?thesis
        using Some idx kb by (simp add: mica_get_def updated_same [OF up] Let_def)
    next
      case False
      have "ht_log kv' (?p + 17) = ht_log kv (?p + 17)" using fr [of 17] el False by simp
      moreover have "read_bytes (ht_log kv') (?p + 18) (unat (ht_log kv (?p + 17)))
          = read_bytes (ht_log kv) (?p + 18) (unat (ht_log kv (?p + 17)))"
        using fr [of "18 + _"] False by (intro read_bytes_cong) (simp add: entry_len_def add.assoc)
      ultimately show ?thesis
        using Some idx kb by (simp add: mica_get_def updated_same [OF up] Let_def)
    qed
  qed
qed

lemma updated_get_same:
  assumes inv: "mica_inv kv" and lk: "lookup_slot kv k = Some j"
  defines "x \<equiv> off_n (ht_index kv (key_bucket kv k) j)"
  defines "p \<equiv> x mod cap_n kv"
  assumes lv: "live kv x" and up: "updated kv x bs kv'"
    and key: "read_bytes (ht_log kv) p 16 = key_bytes k"
    and bs: "length bs = unat (ht_log kv (p + 17))"
  shows "mica_get kv' k = Some bs"
proof -
  note u = lookup_used [OF inv lk]
  have idx: "ht_index kv' = ht_index kv" using up by (simp add: updated_def)
  have len: "18 + length bs \<le> entry_len kv x" using bs by (simp add: entry_len_def p_def)
  note fr = updated_frame [OF inv up [unfolded x_def] u lv [unfolded x_def] len [unfolded x_def] u lv [unfolded x_def],
      folded x_def p_def]
  have el: "18 \<le> entry_len kv x" by (simp add: entry_len_def)
  have "read_bytes (ht_log kv') p 16 = key_bytes k"
    using fr el key by (subst key [symmetric], intro read_bytes_cong) simp
  moreover have "ht_log kv' (p + 17) = ht_log kv (p + 17)" using fr [of 17] el by simp
  moreover have "read_bytes (ht_log kv') (p + 18) (length bs) = bs"
    using up read_write_same [of 0 "length bs" bs "ht_log kv" "p + 18"] by (simp add: updated_def p_def)
  ultimately show ?thesis
    using lk lv bs idx by (simp add: mica_get_def updated_same [OF up] Let_def x_def p_def)
qed

subsection \<open>Single operations\<close>

lemma batch_one:
  "mica_batch_op kv [op] =
     bind_res (exec_one kv (lookup_ptr kv op) op) (\<lambda>(kv', r). Inr (kv', [r]))"
  by (simp add: mica_batch_op_def MICA_MAX_BATCH_SIZE_def case_prod_unfold)

text \<open>The two outcomes of a lookup: no live entry with the key, or the live entry of the key.\<close>

lemma exec_one_cases:
  assumes inv: "mica_inv kv"
  obtains (miss) "mica_get kv (op_key op) = None" "exec_one kv (lookup_ptr kv op) op = exec_miss kv op"
  | (hit) j x where "lookup_slot kv (op_key op) = Some j"
      "x = off_n (ht_index kv (key_bucket kv (op_key op)) j)" "live kv x"
      "read_bytes (ht_log kv) (x mod cap_n kv) 16 = key_bytes (op_key op)"
      "mica_get kv (op_key op) = Some (read_bytes (ht_log kv) (x mod cap_n kv + 18)
         (unat (ht_log kv (x mod cap_n kv + 17))))"
      "exec_one kv (lookup_ptr kv op) op = exec_hit kv op (x mod cap_n kv)"
proof (cases "lookup_slot kv (op_key op)")
  case None
  with miss show ?thesis by (simp add: mica_get_def exec_one_def lookup_ptr_eq [OF inv])
next
  case (Some j)
  define x where "x = off_n (ht_index kv (key_bucket kv (op_key op)) j)"
  show ?thesis
  proof (cases "live kv x")
    case False
    with Some miss show ?thesis
      by (simp add: mica_get_def exec_one_def lookup_ptr_eq [OF inv] live_ptr_def x_def Let_def)
  next
    case True
    then have ok: "x mod cap_n kv + 18 \<le> cap_n kv"
      using mica_invD(6) [OF inv lookup_used [OF inv Some]] by (simp add: x_def entry_ok_def entry_len_def)
    have ptr: "lookup_ptr kv op = Some (x mod cap_n kv)"
      using Some True by (simp add: lookup_ptr_eq [OF inv] live_ptr_def x_def)
    show ?thesis
    proof (cases "read_bytes (ht_log kv) (x mod cap_n kv) 16 = key_bytes (op_key op)")
      case k: True
      show ?thesis
        by (rule hit [OF Some x_def True k])
          (use Some True k ok ptr in \<open>simp_all add: mica_get_def exec_one_def read_log_def sizeof_mica_key_def x_def Let_def\<close>)
    next
      case False
      show ?thesis
        by (rule miss)
          (use Some True False ok ptr in \<open>simp_all add: mica_get_def exec_one_def read_log_def sizeof_mica_key_def x_def Let_def\<close>)
    qed
  qed
qed

definition get_op :: "mica_key \<Rightarrow> mica_op" where
  "get_op k = \<lparr>op_key = k, opcode = MICA_OP_GET, val_len = 0, op_value = []\<rparr>"

definition put_op :: "mica_key \<Rightarrow> u8 list \<Rightarrow> mica_op" where
  "put_op k v = \<lparr>op_key = k, opcode = MICA_OP_PUT, val_len = of_nat (length v), op_value = v\<rparr>"

text \<open>
  A GET batch of one changes the counters only, and its response points to the value the lookup
  finds; no read leaves the log.
\<close>

lemma batch_get:
  assumes inv: "mica_inv kv" and op: "opcode op = MICA_OP_GET"
  shows "(case mica_get kv (op_key op) of
     None \<Rightarrow> mica_batch_op kv [op] =
        Inr (kv\<lparr>num_get_fail := num_get_fail kv + 1\<rparr>, [fail_resp MICA_RESP_GET_FAIL])
   | Some v \<Rightarrow> (\<exists>p. mica_batch_op kv [op] =
        Inr (kv\<lparr>num_get_op := num_get_op kv + 1\<rparr>,
          [\<lparr>resp_type = MICA_RESP_GET_SUCCESS, resp_val_len = of_nat (length v), resp_val_ptr = Some p\<rparr>])
        \<and> read_bytes (ht_log kv) p (length v) = v \<and> p + length v \<le> cap_n kv))"
proof (cases rule: exec_one_cases [OF inv, of op, case_names miss hit])
  case miss
  then show ?thesis using op by (simp add: batch_one exec_miss_def)
next
  case (hit j x)
  have "entry_ok kv x" using mica_invD(6) [OF inv lookup_used [OF inv hit(1)]] hit(2,3) by simp
  then have "x mod cap_n kv + 18 + unat (ht_log kv (x mod cap_n kv + 17)) \<le> cap_n kv"
    by (simp add: entry_ok_def entry_len_def)
  then show ?thesis using op hit by (simp add: batch_one exec_hit_def read_log_def read_bytes_def)
qed

lemma batch_put_cases:
  assumes inv: "mica_inv kv" and wf: "op_wf op" and op: "opcode op \<noteq> MICA_OP_GET"
    and run: "mica_batch_op kv [op] = Inr (kv', rs)"
  shows "rs = [fail_resp MICA_RESP_PUT_SUCCESS] \<and> (mica_insert_one kv op = Inr kv'
    \<or> (\<exists>j. lookup_slot kv (op_key op) = Some j \<and>
        (let x = off_n (ht_index kv (key_bucket kv (op_key op)) j) in
         live kv x \<and> read_bytes (ht_log kv) (x mod cap_n kv) 16 = key_bytes (op_key op)
         \<and> unat (val_len op) = unat (ht_log kv (x mod cap_n kv + 17))
         \<and> unat (val_len op) \<le> length (op_value op)
         \<and> updated kv x (take (unat (val_len op)) (op_value op)) kv')))"
proof (cases rule: exec_one_cases [OF inv, of op, case_names miss hit])
  case miss
  then show ?thesis using op run by (auto simp: batch_one exec_miss_def res_simps)
next
  case (hit j x)
  then show ?thesis using op run
    by (auto simp: batch_one exec_hit_def res_simps read_log_def read_bytes_def updated_def Let_def
        split: if_splits)
qed

lemma batch_put:
  assumes inv: "mica_inv kv" and wf: "op_wf op" and op: "opcode op \<noteq> MICA_OP_GET"
    and run: "mica_batch_op kv [op] = Inr (kv', rs)"
  shows "mica_inv kv'"
    and "mica_get kv' (op_key op) = Some (take (unat (val_len op)) (op_value op))"
    and "k \<noteq> op_key op \<Longrightarrow> mica_get kv' k = Some v \<Longrightarrow> mica_get kv k = Some v"
proof -
  have *: "mica_inv kv' \<and> mica_get kv' (op_key op) = Some (take (unat (val_len op)) (op_value op))
    \<and> (k \<noteq> op_key op \<longrightarrow> mica_get kv' k = Some v \<longrightarrow> mica_get kv k = Some v)"
  proof (cases "mica_insert_one kv op = Inr kv'")
    case True
    then show ?thesis
      using insert_inv [OF inv wf] get_insert_same [OF inv wf] get_insert_other [OF inv wf] by blast
  next
    case False
    with batch_put_cases [OF inv wf op run] obtain j where j: "lookup_slot kv (op_key op) = Some j"
      and c: "let x = off_n (ht_index kv (key_bucket kv (op_key op)) j) in
         live kv x \<and> read_bytes (ht_log kv) (x mod cap_n kv) 16 = key_bytes (op_key op)
         \<and> unat (val_len op) = unat (ht_log kv (x mod cap_n kv + 17))
         \<and> unat (val_len op) \<le> length (op_value op)
         \<and> updated kv x (take (unat (val_len op)) (op_value op)) kv'"
      by blast
    let ?s = "ht_index kv (key_bucket kv (op_key op)) j"
    note u = lookup_used [OF inv j]
    from c have lv: "live kv (off_n ?s)"
      and key: "read_bytes (ht_log kv) (off_n ?s mod cap_n kv) 16 = key_bytes (op_key op)"
      and up: "updated kv (off_n ?s) (take (unat (val_len op)) (op_value op)) kv'"
      and len: "length (take (unat (val_len op)) (op_value op)) = unat (ht_log kv (off_n ?s mod cap_n kv + 17))"
      by (auto simp: Let_def)
    have el: "18 + length (take (unat (val_len op)) (op_value op)) \<le> entry_len kv (off_n ?s)"
      using len by (simp add: entry_len_def)
    show ?thesis
      using updated_inv [OF inv up u lv el] updated_get_same [OF inv j lv up key len]
        updated_get_other [OF inv up u lv el key] by metis
  qed
  then show "mica_inv kv'"
    and "mica_get kv' (op_key op) = Some (take (unat (val_len op)) (op_value op))"
    and "k \<noteq> op_key op \<Longrightarrow> mica_get kv' k = Some v \<Longrightarrow> mica_get kv k = Some v" by auto
qed

subsection \<open>Initial state\<close>

lemma is_power_of_2_iff: "is_power_of_2 x \<longleftrightarrow> (\<exists>k\<in>{0..30}. x = 2 ^ k)"
proof -
  have "is_power_of_2 x \<longleftrightarrow> x \<in> set (map (\<lambda>k. 2 ^ k) [0..<31])"
    unfolding is_power_of_2_def by (simp add: upt_rec)
  also have "\<dots> \<longleftrightarrow> (\<exists>k\<in>{0..30}. x = 2 ^ k)"
    by (auto simp: image_iff)
  finally show ?thesis .
qed

lemma mica_init_Inr:
  assumes init: "mica_init mi ml inst node nb cap = Inr kv"
  obtains k m where "21 \<le> k" "k \<le> 30" "cap = 2 ^ k" "m \<le> 24" "nb = 2 ^ m"
    "log_cap kv = 2 ^ k" "log_mask kv = 2 ^ k - 1" "num_bkts kv = 2 ^ m" "bkt_mask kv = 2 ^ m - 1"
    "log_head kv = 0" "\<And>b j. valid_bkt kv b \<Longrightarrow> j < 8 \<Longrightarrow> \<not> in_use (ht_index kv b j)"
    "num_put_op kv = 0" "num_index_evictions kv = 0"
proof -
  from init have a: "is_power_of_2 nb" "nb \<le> 2 ^ 24" "is_power_of_2 cap" "cap mod 2 ^ 21 = 0" "0 < cap"
    by (auto simp: mica_init_def res_simps)
  then obtain k m where k: "k \<le> 30" "cap = 2 ^ k" and m: "m \<le> 30" "nb = 2 ^ m"
    by (auto simp: is_power_of_2_iff)
  have "(2 :: int) ^ 21 \<le> 2 ^ k" using a(4,5) k(2) zdvd_imp_le by auto
  then have "21 \<le> k" by (subst (asm) power_increasing_iff) auto
  moreover have "m \<le> 24" using a(2) m(2) power_increasing_iff [of "2 :: int" m 24] by simp
  moreover from init have "log_cap kv = word_of_int cap" "log_mask kv = word_of_int (cap - 1)"
    "num_bkts kv = nb" "bkt_mask kv = word_of_int (nb - 1)" "log_head kv = 0"
    "num_put_op kv = 0" "num_index_evictions kv = 0"
    "\<And>b j. valid_bkt kv b \<Longrightarrow> j < 8 \<Longrightarrow> \<not> in_use (ht_index kv b j)"
    by (auto simp: mica_init_def res_simps valid_bkt_def)
  ultimately show ?thesis
    using that [of k m] k m by (simp add: word_of_int_2p wi_hom_sub [symmetric])
qed

lemma mica_init_inv:
  assumes "mica_init mi ml inst node nb cap = Inr kv"
  shows "mica_inv kv" "mica_get kv key = None"
proof -
  obtain k m where km: "21 \<le> k" "k \<le> 30" "m \<le> 24"
    "log_cap kv = 2 ^ k" "log_mask kv = 2 ^ k - 1" "num_bkts kv = 2 ^ m" "bkt_mask kv = 2 ^ m - 1"
    "log_head kv = 0" and unused: "\<And>b j. valid_bkt kv b \<Longrightarrow> j < 8 \<Longrightarrow> \<not> in_use (ht_index kv b j)"
    using mica_init_Inr [OF assms] by metis
  have cfg: "mica_cfg kv" using km by (auto simp: mica_cfg_def)
  have "\<not> used_slot kv s" for s using unused by (auto simp: used_slot_def)
  moreover have "bkt_wf (ht_index kv b)" if "valid_bkt kv b" for b
    using unused [OF that] by (auto simp: bkt_wf_def)
  ultimately show "mica_inv kv"
    using cfg cap_bounds [OF cfg] km(8) by (simp add: mica_inv_def)
  have "lookup_slot kv key = None"
    using unused [OF key_bucket_valid [OF cfg]] lookup_slot_SomeD [of kv key]
    by (cases "lookup_slot kv key") auto
  then show "mica_get kv key = None" by (simp add: mica_get_def)
qed

subsection \<open>MICA is a lossy store\<close>

definition mica_put :: "mica_kv \<Rightarrow> mica_key \<Rightarrow> u8 list \<Rightarrow> mica_kv res" where
  "mica_put kv k v = bind_res (mica_batch_op kv [put_op k v]) (\<lambda>(kv', rs). Inr kv')"

lemma put_op_facts:
  assumes "length v \<le> MICA_MAX_VALUE"
  shows "op_wf (put_op k v)" "opcode (put_op k v) \<noteq> MICA_OP_GET"
    "take (unat (val_len (put_op k v))) (op_value (put_op k v)) = v"
  using assms unat_of_nat [where 'a = 8, of "length v"]
  by (simp_all add: op_wf_def put_op_def MICA_OP_GET_def MICA_OP_PUT_def MICA_MAX_VALUE_def sizeof_mica_key_def)

lemma op_key_put_op [simp]: "op_key (put_op k v) = k" by (simp add: put_op_def)

interpretation mica: lossy_store mica_inv "\<lambda>v. length v \<le> MICA_MAX_VALUE" mica_get mica_put
proof
  fix s v k s'
  assume inv: "mica_inv s" and v: "length v \<le> MICA_MAX_VALUE" and put: "mica_put s k v = Inr s'"
  from put obtain rs where run: "mica_batch_op s [put_op k v] = Inr (s', rs)"
    by (auto simp: mica_put_def res_simps)
  note bp = batch_put [OF inv put_op_facts(1,2) [OF v] run, unfolded op_key_put_op put_op_facts(3) [OF v]]
  show "mica_inv s'" "mica_get s' k = Some v" by (rule bp)+
  show "k' \<noteq> k \<Longrightarrow> mica_get s' k' = Some w \<Longrightarrow> mica_get s k' = Some w" for k' w by (rule bp)
qed

end
