(* ===== verification/City_Proofs.thy ===== *)
theory City_Proofs
  imports City
begin

text \<open>
  CityHash: the rotations are the word rotations, the mixing steps are injective, and on every
  string the hash functions end with a value: no fetch leaves the string and no loop runs on.
\<close>

subsection \<open>Fetches\<close>

lemma returns_Fetch64 [returns_intros]: "0 \<le> i \<Longrightarrow> i + 8 \<le> int (length s) \<Longrightarrow> returns (Fetch64 s i)"
  by (simp add: Fetch64_def)

lemma returns_Fetch32 [returns_intros]: "0 \<le> i \<Longrightarrow> i + 4 \<le> int (length s) \<Longrightarrow> returns (Fetch32 s i)"
  by (simp add: Fetch32_def)

lemma returns_Fetch8 [returns_intros]: "0 \<le> i \<Longrightarrow> i < int (length s) \<Longrightarrow> returns (Fetch8 s i)"
  by (simp add: Fetch8_def)

lemma returns_Weak [returns_intros]:
  "0 \<le> p \<Longrightarrow> p + 32 \<le> int (length s) \<Longrightarrow> returns (WeakHashLen32WithSeeds s p a b)"
  unfolding WeakHashLen32WithSeeds_def by (intro returns_intros) auto

lemma returns_HashLen0to16 [returns_intros]: "length s \<le> 16 \<Longrightarrow> returns (HashLen0to16 s)"
  unfolding HashLen0to16_def Let_def by (intro returns_intros) (auto simp: int_div_less_self)

lemma returns_HashLen17to32:
  "16 < length s \<Longrightarrow> length s \<le> 32 \<Longrightarrow> returns (HashLen17to32 s)"
  unfolding HashLen17to32_def Let_def by (intro returns_intros) auto

lemma returns_HashLen33to64:
  "32 < length s \<Longrightarrow> length s \<le> 64 \<Longrightarrow> returns (HashLen33to64 s)"
  unfolding HashLen33to64_def Let_def by (intro returns_intros) auto

lemma returns_city_chunk [returns_intros]:
  "0 \<le> p \<Longrightarrow> p + 64 \<le> int (length s) \<Longrightarrow> returns (city_chunk s p st)"
  unfolding city_chunk_def Let_def by (intro returns_intros) auto

lemma returns_city64_loop:
  "0 \<le> p \<Longrightarrow> 0 < len \<Longrightarrow> 64 dvd len \<Longrightarrow> p + int len \<le> int (length s) \<Longrightarrow>
     returns (city64_loop s p len st)"
proof (induction s p len st rule: city64_loop.induct)
  case (1 s p len st)
  have "64 \<le> len" using 1 by (simp add: dvd_imp_le)
  show ?case
    by (subst city64_loop.simps, intro returns_intros, use 1 \<open>64 \<le> len\<close> in \<open>auto intro!: 1(1)\<close>)
qed

lemma returns_murmur_loop:
  "0 \<le> p \<Longrightarrow> 0 < l \<Longrightarrow> p + l + 16 = int (length s) \<Longrightarrow> returns (murmur_loop s p l st)"
proof (induction s p l st rule: murmur_loop.induct)
  case (1 s p l a b c d)
  show ?case
    by (subst murmur_loop.simps, unfold Let_def, intro returns_intros, use 1 in auto)
qed

lemma returns_CityMurmur: "returns (CityMurmur s seed)"
  unfolding CityMurmur_def Let_def
  by (intro returns_intros) (auto intro!: returns_intros returns_murmur_loop split: prod.split)

lemma city128_loop_returns:
  "0 \<le> p \<Longrightarrow> 128 \<le> len \<Longrightarrow> p + int len = int (length s) \<Longrightarrow>
     \<exists>p' len' st'. city128_loop s p len st = Inr (p', len', st')
       \<and> 128 \<le> p' \<and> len' < 128 \<and> p' + int len' = int (length s)"
proof (induction s p len st rule: city128_loop.induct)
  case (1 s p len st)
  obtain st1 where st1: "city_chunk s p st = Inr st1"
    using returns_city_chunk [of p s st] 1 by (auto simp: returns_def)
  obtain st2 where st2: "city_chunk s (p + 64) st1 = Inr st2"
    using returns_city_chunk [of "p + 64" s st1] 1 by (auto simp: returns_def)
  show ?case
    using 1(1) [OF st1 st2] 1(2-) st1 st2 by (subst city128_loop.simps) auto
qed

lemma returns_city128_tail:
  "128 \<le> p \<Longrightarrow> len < 128 \<Longrightarrow> p + len = int (length s) \<Longrightarrow> 0 \<le> t \<Longrightarrow> 32 dvd t \<Longrightarrow>
     returns (city128_tail s p len t st)"
proof (induction s p len t st rule: city128_tail.induct)
  case (1 s p len t st)
  show ?case
  proof (cases "t < len")
    case True
    then have "t + 32 \<le> 128" using 1 by (auto simp: dvd_def)
    then show ?thesis
      using True 1(2-)
      by (subst city128_tail.simps) (auto simp: Let_def intro!: returns_intros 1(1) [OF True refl refl refl refl refl refl refl])
  qed (subst city128_tail.simps, simp)
qed

lemma returns_CityHash128WithSeed [returns_intros]: "returns (CityHash128WithSeed s seed)"
proof (cases "length s < 128")
  case True
  then show ?thesis by (simp add: CityHash128WithSeed_def returns_CityMurmur)
next
  case False
  have loop: "\<exists>p len st'. city128_loop s 0 (length s) st = Inr (p, len, st')
      \<and> 128 \<le> p \<and> len < 128 \<and> p + int len = int (length s)" for st
    using city128_loop_returns [of 0 "length s" s st] False by simp
  then have "returns (city128_loop s 0 (length s) st)" for st
    by (auto simp: returns_def) (metis)
  moreover have "returns (city128_tail s p (int len) 0 st')"
    if "city128_loop s 0 (length s) st = Inr (p, len, st'')" for st st' st'' p len
    using loop [of st] that by (auto intro!: returns_city128_tail)
  ultimately show ?thesis
    using False unfolding CityHash128WithSeed_def Let_def if_not_P [OF False]
    by (intro returns_intros) (auto split: prod.split intro!: returns_intros)
qed

lemma returns_CityHash128: "returns (CityHash128 s)"
  unfolding CityHash128_def Let_def by (intro returns_intros) auto

lemma returns_CityHash64: "returns (CityHash64 s)"
proof -
  have "returns (city64_loop s 0 ((length s - 1) div 64 * 64) st)" if "64 < length s" for st
    using that by (intro returns_city64_loop) (auto simp: div_greater_zero_iff)
  then show ?thesis
    unfolding CityHash64_def Let_def
    by (intro returns_intros) (auto intro!: returns_intros returns_HashLen17to32 returns_HashLen33to64)
qed

subsection \<open>Mixing\<close>

lemma Rotate_word_rotr:
  assumes "n < 64"
  shows "Rotate w n = word_rotr n w"
proof (rule bit_word_eqI)
  fix m assume "m < LENGTH(64)"
  then have m: "m < 64" by simp
  have "(m + n) mod 64 = (if m + n < 64 then m + n else m + n - 64)"
    using m assms le_mod_geq [of 64 "m + n"] by simp
  moreover have "bit (Rotate w n) m \<longleftrightarrow> bit w (m + n) \<or> n \<noteq> 0 \<and> 64 \<le> m + n \<and> bit w (m + n - 64)"
    using m assms by (auto simp: Rotate_def bit_or_iff bit_drop_bit_eq bit_push_bit_iff ac_simps)
  moreover have "bit w (m + n) \<Longrightarrow> m + n < 64" using bit_imp_le_length [of w "m + n"] by simp
  ultimately show "bit (Rotate w n) m = bit (word_rotr n w) m"
    using m by (auto simp: bit_word_rotr_iff add.commute)
qed

lemma RotateByAtLeast1_Rotate: "0 < n \<Longrightarrow> RotateByAtLeast1 w n = Rotate w n"
  by (simp add: Rotate_def RotateByAtLeast1_def)

lemma ShiftMix_involution: "ShiftMix (ShiftMix w) = w"
  by (rule bit_word_eqI)
    (auto simp: ShiftMix_def bit_xor_iff bit_drop_bit_eq dest: bit_imp_le_length)

lemma kMul_cancel: "a * kMul = b * kMul \<longleftrightarrow> a = b"
proof
  have inv: "kMul * (15877131476434367193 :: u64) = 1" by (simp add: kMul_def)
  assume "a * kMul = b * kMul"
  then have "a * (kMul * (15877131476434367193 :: u64)) = b * (kMul * (15877131476434367193 :: u64))" by (simp only: mult.assoc [symmetric])
  then show "a = b" by (simp only: inv mult_1_right)
qed simp

lemma xor_right_cancel: "a XOR c = b XOR c \<longleftrightarrow> a = (b :: 'a::len word)"
  by (metis xor.assoc xor_self_eq xor.right_neutral)

lemma xor_left_cancel: "c XOR a = c XOR b \<longleftrightarrow> a = (b :: 'a::len word)"
  by (metis xor_right_cancel xor.commute)

lemma ShiftMix_cancel: "ShiftMix a = ShiftMix b \<longleftrightarrow> a = b"
  by (metis ShiftMix_involution)

lemma HashLen16_cancel: "HashLen16 u v = HashLen16 u' v \<longleftrightarrow> u = u'"
  unfolding HashLen16_def Hash128to64_def Let_def ShiftMix_def [symmetric]
  by (simp add: kMul_cancel ShiftMix_cancel xor_right_cancel xor_left_cancel)

subsection \<open>Properties of CityHash\<close>

text \<open>
  C31: On every byte string, whatever its length, CityHash64 (plain and seeded) and CityHash128
  (plain and with any seed) end with a value: every fetch lies inside the string and every loop
  ends.
\<close>

theorem city_total:
  "returns (CityHash64 s) \<and> returns (CityHash64WithSeed s seed) \<and> returns (CityHash64WithSeeds s seed0 seed1)
    \<and> returns (CityHash128 s) \<and> returns (CityHash128WithSeed s seed128)"
  using returns_CityHash64 [of s] returns_CityHash128 [of s] returns_CityHash128WithSeed [of s seed128]
  by (auto simp: CityHash64WithSeed_def CityHash64WithSeeds_def returns_bind)

text \<open>
  C40: Seeding adds no collision: two strings have the same seeded hash exactly when they have
  the same plain CityHash64.
\<close>

theorem city_seeds_no_new_collision:
  "CityHash64WithSeeds s seed0 seed1 = CityHash64WithSeeds s' seed0 seed1 \<longleftrightarrow> CityHash64 s = CityHash64 s'"
proof -
  obtain h h' where "CityHash64 s = Inr h" "CityHash64 s' = Inr h'"
    using returns_CityHash64 [of s] returns_CityHash64 [of s'] by (auto simp: returns_def)
  then show ?thesis by (simp add: CityHash64WithSeeds_def HashLen16_cancel)
qed

end
