(* ===== verification/Mica_Log.thy ===== *)
theory Mica_Log
  imports Mica_Proofs City_Proofs
begin

text \<open>
  When an insertion succeeds: always on the first lap of the log, where the wrap-around test of
  \<open>mica_insert_one\<close> keeps room for one more entry; but not on the second lap, where that test
  compares the virtual head with the capacity and the physical end of the log is overrun.
\<close>

subsection \<open>One insertion\<close>

definition op_full :: "mica_op \<Rightarrow> bool" where
  "op_full op \<longleftrightarrow> op_wf op \<and> unat (val_len op) \<le> length (op_value op)"

definition next_head :: "nat \<Rightarrow> nat \<Rightarrow> nat" where
  "next_head cap H = (if H \<le> cap \<and> cap - H \<le> 78 then cap else H)"

lemma op_full_len: "op_full op \<Longrightarrow> 18 \<le> op_len op \<and> op_len op \<le> 64 \<and> op_len op \<le> length (op_bytes op)"
  by (simp add: op_full_def op_wf_def op_len_def MICA_MAX_VALUE_def sizeof_mica_key_def)

lemma insert_result:
  assumes inv: "mica_inv kv" and op: "op_full op" and room: "head_n kv + op_len op + 8 < 2 ^ 40"
  shows "if head_n kv mod cap_n kv + op_len op \<le> cap_n kv
    then \<exists>kv'. mica_insert_one kv op = Inr kv' \<and> mica_inv kv'
      \<and> head_n kv' = next_head (cap_n kv) (round8 (head_n kv + op_len op))
      \<and> log_cap kv' = log_cap kv \<and> num_put_op kv' = num_put_op kv + 1
      \<and> num_index_evictions kv' \<le> num_index_evictions kv + 1
    else mica_insert_one kv op = Inl OutOfBounds"
proof -
  note cfg = mica_invD(1) [OF inv] and len = op_full_len [OF op]
  have r: "head_n kv < cap_n kv \<longrightarrow> round8 (head_n kv + op_len op) < cap_n kv"
    using mica_invD(4) [OF inv] len round8_bounds(2) [of "head_n kv + op_len op"] by linarith
  have hd: "unat (advance_head kv (of_nat (op_len op))) = next_head (cap_n kv) (round8 (head_n kv + op_len op))"
    using advance_head_nat [OF cfg mica_invD(2) [OF inv] _ _ r] len by (simp add: next_head_def)
  have "unat ((2 ^ MICA_LOG_BITS :: u64) - log_head kv) = 2 ^ 40 - head_n kv"
    using mica_invD(2) [OF inv] by (simp add: MICA_LOG_BITS_def unat_minus_le)
  moreover have "unat (of_nat (op_len op + 8) :: u64) = op_len op + 8"
    using len unat_of_nat [where 'a = 64, of "op_len op + 8"] by (simp del: of_nat_add)
  ultimately have a: "of_nat (op_len op + 8) < (2 ^ MICA_LOG_BITS :: u64) - log_head kv"
    using room by (simp only: word_less_nat_alt)
  have pos: "unat (log_head kv AND log_mask kv) = head_n kv mod cap_n kv" by (rule log_pos [OF cfg])
  obtain i ev where i: "slot_to_use (ht_index kv (key_bucket kv (op_key op))) (ucast (key_tag (op_key op))) = (i, ev)"
    by fastforce
  have ol: "sizeof_mica_key + 1 + 1 + unat (val_len op) = op_len op"
    by (simp add: op_len_def sizeof_mica_key_def)
  note ins = mica_insert_one_def Let_def i case_prod_conv ol pos check_def if_P [OF a] bind_res_Inr
  show ?thesis
  proof (cases "head_n kv mod cap_n kv + op_len op \<le> cap_n kv")
    case True
    then obtain kv' where kv': "mica_insert_one kv op = Inr kv'"
      "log_head kv' = advance_head kv (of_nat (op_len op))"
      "log_cap kv' = log_cap kv" "num_put_op kv' = num_put_op kv + 1"
      "num_index_evictions kv' \<le> num_index_evictions kv + 1"
      using len unfolding ins by (simp add: memcpy_bytes_def)
    with True hd insert_inv [OF inv _ kv'(1)] op show ?thesis by (simp add: op_full_def)
  next
    case False
    then show ?thesis
      unfolding ins by (simp add: memcpy_bytes_def)
  qed
qed

subsection \<open>The first lap\<close>

lemma round8_add: "8 dvd h \<Longrightarrow> round8 (h + n) = h + round8 n"
  by (auto simp: round8_def dvd_def add.assoc)

lemma dvd_round8 [simp]: "8 dvd round8 n"
  by (simp add: round8_def)

lemma insert_first_lap:
  assumes "mica_inv kv" "8 dvd head_n kv" "op_full op" "head_n kv + round8 (op_len op) + 78 < cap_n kv"
  obtains kv' where "mica_insert_one kv op = Inr kv'" "mica_inv kv'"
    "head_n kv' = head_n kv + round8 (op_len op)" "log_cap kv' = log_cap kv"
    "num_put_op kv' = num_put_op kv + 1" "num_index_evictions kv' \<le> num_index_evictions kv + 1"
proof -
  have b: "op_len op \<le> round8 (op_len op)" by (rule round8_bounds)
  have c: "cap_n kv \<le> 2 ^ 30" using cap_bounds [OF mica_invD(1) [OF assms(1)]] by simp
  have "head_n kv mod cap_n kv = head_n kv" using assms(4) by simp
  with insert_result [OF assms(1,3)] b c assms(2,4) that show ?thesis
    by (auto simp: round8_add next_head_def)
qed

lemma insert_all_first_lap:
  assumes "mica_inv kv" "8 dvd head_n kv" "\<forall>op\<in>set ops. op_full op \<and> round8 (op_len op) \<le> s"
    and "head_n kv + length ops * s + 78 < cap_n kv"
  shows "\<exists>kv'. insert_all kv ops = Inr kv' \<and> mica_inv kv' \<and> num_put_op kv' = num_put_op kv + int (length ops)
    \<and> num_index_evictions kv' \<le> num_index_evictions kv + int (length ops)"
  using assms
proof (induction ops arbitrary: kv)
  case Nil
  then show ?case by simp
next
  case (Cons op ops)
  have op: "op_full op" "round8 (op_len op) \<le> s" using Cons.prems(3) by simp_all
  obtain kv1 where kv1: "mica_insert_one kv op = Inr kv1" "mica_inv kv1"
    "head_n kv1 = head_n kv + round8 (op_len op)" "log_cap kv1 = log_cap kv"
    "num_put_op kv1 = num_put_op kv + 1" "num_index_evictions kv1 \<le> num_index_evictions kv + 1"
    using op Cons.prems(4) by (auto intro: insert_first_lap [OF Cons.prems(1,2) op(1)])
  with Cons.IH [OF kv1(2)] Cons.prems op show ?case by fastforce
qed

subsection \<open>The second lap\<close>

text \<open>
  With the value length 32 every entry takes 56 bytes of log, and 56 does not divide a power of
  two: the entry that reaches the end of the second lap does not fit.
\<close>

lemma cap_mod_56:
  assumes "mica_cfg kv"
  shows "0 < cap_n kv mod 56" "cap_n kv mod 56 < 50"
proof -
  obtain k where k: "21 \<le> k" "k \<le> 30" "cap_n kv = 2 ^ k" using assms by (rule mica_cfgE)
  have "k \<in> {21, 22, 23, 24, 25, 26, 27, 28, 29, 30}"
    using k(1,2) unfolding insert_iff empty_iff by presburger
  then show "0 < cap_n kv mod 56" "cap_n kv mod 56 < 50" unfolding k(3) by auto
qed

lemma second_lap:
  assumes "mica_inv kv" "\<forall>op\<in>set ops. op_full op \<and> op_len op = 50"
    and "head_n kv = cap_n kv + 56 * j" "j \<le> cap_n kv div 56" "cap_n kv div 56 < j + length ops"
  shows "insert_all kv ops = Inl OutOfBounds"
  using assms
proof (induction ops arbitrary: kv j)
  case Nil
  then show ?case by simp
next
  case (Cons op ops)
  note cfg = mica_invD(1) [OF Cons.prems(1)]
  have op: "op_full op" "op_len op = 50" using Cons.prems(2) by simp_all
  have c: "cap_n kv \<le> 2 ^ 30" "2 ^ 21 \<le> cap_n kv" using cap_bounds [OF cfg] by simp_all
  have cd: "cap_n kv = 56 * (cap_n kv div 56) + cap_n kv mod 56" by simp
  have j: "56 * j < cap_n kv" using Cons.prems(4) cd cap_mod_56(1) [OF cfg] by linarith
  then have m: "head_n kv mod cap_n kv = 56 * j" using Cons.prems(3) by simp
  have "head_n kv + op_len op + 8 < 2 ^ 40" using c j Cons.prems(3) op by simp
  note res = insert_result [OF Cons.prems(1) op(1) this, unfolded m op(2)]
  have "8 dvd cap_n kv"
  proof -
    obtain k where k: "21 \<le> k" "cap_n kv = 2 ^ k" using cfg by (rule mica_cfgE)
    then show ?thesis using le_imp_power_dvd [of 3 k "2 :: nat"] by simp
  qed
  then have r8: "round8 (head_n kv + 50) = cap_n kv + 56 * (j + 1)"
    using round8_add [of "cap_n kv + 56 * j" 50] by (simp add: Cons.prems(3) round8_def)
  show ?case
  proof (cases "j = cap_n kv div 56")
    case True
    then have "\<not> 56 * j + 50 \<le> cap_n kv" using cd cap_mod_56(2) [OF cfg] by linarith
    with res show ?thesis by simp
  next
    case False
    then have j1: "j + 1 \<le> cap_n kv div 56" using Cons.prems(4) by simp
    then have "56 * j + 50 \<le> cap_n kv" using cd by linarith
    with res obtain kv1 where kv1: "mica_insert_one kv op = Inr kv1" "mica_inv kv1"
      "head_n kv1 = cap_n kv + 56 * (j + 1)" "log_cap kv1 = log_cap kv"
      by (auto simp: r8 next_head_def)
    have "insert_all kv1 ops = Inl OutOfBounds"
      using Cons.prems kv1(3,4) j1 by (intro Cons.IH [OF kv1(2), of "j + 1"]) auto
    with kv1(1) show ?thesis by simp
  qed
qed

lemma first_then_second_lap:
  assumes "mica_inv kv" "\<forall>op\<in>set ops. op_full op \<and> op_len op = 50"
    and "head_n kv = 56 * i" "56 * i < cap_n kv" "2 * (cap_n kv div 56) + 1 \<le> i + length ops"
  shows "insert_all kv ops = Inl OutOfBounds"
  using assms
proof (induction ops arbitrary: kv i)
  case Nil
  then show ?case
    using div_le_mono [of "56 * i" "cap_n kv" 56] cap_bounds [OF mica_invD(1) [OF Nil(1)]]
      div_le_mono [of "2 ^ 21" "cap_n kv" 56] by simp
next
  case (Cons op ops)
  note cfg = mica_invD(1) [OF Cons.prems(1)]
  have op: "op_full op" "op_len op = 50" using Cons.prems(2) by simp_all
  have c: "cap_n kv \<le> 2 ^ 30" using cap_bounds [OF cfg] by simp
  have far: "56 * i + 78 < cap_n kv" using mica_invD(4) [OF Cons.prems(1)] Cons.prems(3,4) by linarith
  have "head_n kv + op_len op + 8 < 2 ^ 40" "head_n kv mod cap_n kv + op_len op \<le> cap_n kv"
    using c far Cons.prems(3) op by simp_all
  moreover have "round8 (head_n kv + op_len op) = 56 * (i + 1)"
    using round8_add [of "56 * i" 50] by (simp add: Cons.prems(3) op round8_def)
  ultimately obtain kv1 where kv1: "mica_insert_one kv op = Inr kv1" "mica_inv kv1"
    "head_n kv1 = next_head (cap_n kv) (56 * (i + 1))" "log_cap kv1 = log_cap kv"
    using insert_result [OF Cons.prems(1) op(1)] by auto
  have i: "i < cap_n kv div 56" using far by (simp add: less_eq_div_iff_mult_less_eq Suc_le_eq [symmetric])
  have "insert_all kv1 ops = Inl OutOfBounds"
  proof (cases "cap_n kv - 56 * (i + 1) \<le> 78")
    case True
    then have "head_n kv1 = cap_n kv" using kv1(3) far by (simp add: next_head_def)
    then show ?thesis using Cons.prems kv1(4) i by (intro second_lap [OF kv1(2), of _ 0]) auto
  next
    case False
    then have "head_n kv1 = 56 * (i + 1)" "56 * (i + 1) < cap_n kv" using kv1(3) by (simp_all add: next_head_def)
    then show ?thesis
      using Cons.prems kv1(4) by (intro Cons.IH [OF kv1(2), of "i + 1"]) auto
  qed
  with kv1(1) show ?case by simp
qed

end
