(* ===== verification/Mica_Props.thy ===== *)
theory Mica_Props
  imports Mica_Log
begin

text \<open>
  The properties of the MICA store: what a history of PUTs and GETs shows, what initialisation
  and population establish, and where the store stops with an error.
\<close>

subsection \<open>Shared lemmas\<close>

lemma put_op_full: "length v \<le> MICA_MAX_VALUE \<Longrightarrow> op_full (put_op k v)"
  using unat_of_nat [where 'a = 8, of "length v"]
  by (simp add: op_full_def op_wf_def put_op_def MICA_MAX_VALUE_def sizeof_mica_key_def)

lemma op_len_put_op: "length v \<le> MICA_MAX_VALUE \<Longrightarrow> op_len (put_op k v) = 18 + length v"
  using unat_of_nat [where 'a = 8, of "length v"]
  by (simp add: op_len_def put_op_def MICA_MAX_VALUE_def sizeof_mica_key_def)

text \<open>A PUT on the first lap inserts, updates in place, or stops when the lengths differ.\<close>

lemma put_first_lap:
  assumes inv: "mica_inv kv" and v: "length v \<le> MICA_MAX_VALUE" and lap: "head_n kv < cap_n kv"
  shows "if \<exists>w. mica_get kv k = Some w \<and> length w \<noteq> length v
    then mica_batch_op kv [put_op k v] = Inl AssertFail
    else \<exists>kv'. mica_batch_op kv [put_op k v] = Inr (kv', [fail_resp MICA_RESP_PUT_SUCCESS])
      \<and> mica_inv kv' \<and> mica_get kv' k = Some v"
proof -
  let ?op = "put_op k v"
  note f = put_op_facts [OF v, of k] and full = put_op_full [OF v, of k]
  have len: "op_len ?op \<le> 64" using op_full_len [OF full] by simp
  note c = cap_bounds [OF mica_invD(1) [OF inv]]
  have room: "head_n kv + op_len ?op + 8 < 2 ^ 40" "head_n kv mod cap_n kv + op_len ?op \<le> cap_n kv"
    using len c lap mica_invD(4) [OF inv] by simp_all
  obtain kvi where ins: "mica_insert_one kv ?op = Inr kvi"
    using insert_result [OF inv full room(1)] room(2) by auto
  have vl: "unat (val_len ?op) = length v" "op_value ?op = v" using f(3) op_len_put_op [OF v, of k]
    by (simp_all add: op_len_def sizeof_mica_key_def put_op_def)
  have fin: "mica_inv kv' \<and> mica_get kv' k = Some v" if "mica_batch_op kv [?op] = Inr (kv', rs)" for kv' rs
    using batch_put(1,2) [OF inv f(1,2) that] by (simp add: f(3))
  show ?thesis
  proof (cases rule: exec_one_cases [OF inv, of ?op, case_names miss hit])
    case miss
    then have "mica_batch_op kv [?op] = Inr (kvi, [fail_resp MICA_RESP_PUT_SUCCESS])"
      using ins f(2) by (simp add: batch_one exec_miss_def)
    then show ?thesis using fin miss(1) by auto
  next
    case (hit j x)
    define p where "p = x mod cap_n kv"
    have "entry_ok kv x" using mica_invD(6) [OF inv lookup_used [OF inv hit(1)]] hit(2,3) by simp
    then have ok: "p + 18 + unat (ht_log kv (p + 17)) \<le> cap_n kv"
      by (simp add: entry_ok_def entry_len_def p_def)
    have w: "mica_get kv k = Some w \<longleftrightarrow> w = read_bytes (ht_log kv) (p + 18) (unat (ht_log kv (p + 17)))" for w
      using hit(5) by (auto simp: p_def)
    have eq: "val_len ?op = ht_log kv (p + 17) \<longleftrightarrow> length v = unat (ht_log kv (p + 17))"
      by (simp add: vl(1) [symmetric] word_unat_eq_iff)
    have run: "mica_batch_op kv [?op] = bind_res (exec_hit kv ?op p) (\<lambda>(kv', r). Inr (kv', [r]))"
      using hit(6) by (simp add: batch_one p_def)
    show ?thesis
    proof (cases "length v = unat (ht_log kv (p + 17))")
      case True
      then obtain kv' where "mica_batch_op kv [?op] = Inr (kv', [fail_resp MICA_RESP_PUT_SUCCESS])"
        using ok eq f(2) vl(2) by (simp add: run exec_hit_def read_log_def read_bytes_def memcpy_bytes_def)
      then show ?thesis using True fin w by auto
    next
      case False
      then have "mica_batch_op kv [?op] = Inl AssertFail"
        using ok eq f(2) by (simp add: run exec_hit_def read_log_def read_bytes_def)
      then show ?thesis using False w by auto
    qed
  qed
qed

text \<open>An insertion of a pair is a store operation of its own; population is a run of them.\<close>

interpretation mica_ins: lossy_store mica_inv "\<lambda>v. length v \<le> MICA_MAX_VALUE" mica_get
  "\<lambda>kv k v. mica_insert_one kv (put_op k v)"
proof
  fix s v k s'
  assume inv: "mica_inv s" and v: "length v \<le> MICA_MAX_VALUE" and put: "mica_insert_one s (put_op k v) = Inr s'"
  note f = put_op_facts [OF v, of k]
  show "mica_inv s'" by (rule insert_inv [OF inv f(1) put])
  show "mica_get s' k = Some v" using get_insert_same [OF inv f(1) put] by (simp add: f(3))
  show "k' \<noteq> k \<Longrightarrow> mica_get s' k' = Some w \<Longrightarrow> mica_get s k' = Some w" for k' w
    using get_insert_other [OF inv f(1) put] by simp
qed

lemma insert_all_run_puts:
  "insert_all kv (map (\<lambda>(k, v). put_op k v) kvs) = run_puts (\<lambda>kv k v. mica_insert_one kv (put_op k v)) kv kvs"
  by (induction kvs arbitrary: kv) (auto intro: bind_res_cong)

definition populate_pair :: "nat \<Rightarrow> uint128 \<Rightarrow> mica_key \<times> u8 list" where
  "populate_pair vlen p = (key_of_u128 p, replicate vlen (ucast (snd p AND 255)))"

lemma populate_op_put_op: "populate_op n p = (\<lambda>(k, v). put_op k v) (populate_pair n p)"
  by (simp add: populate_op_def populate_pair_def put_op_def)

lemma populate_ops:
  "map (populate_op n) ps = map (\<lambda>(k, v). put_op k v) (map (populate_pair n) ps)"
  by (simp add: populate_op_put_op)

lemma gen_keys_length: "mica_gen_keys n = Inr keys \<Longrightarrow> length keys = nat n"
  by (auto simp: mica_gen_keys_def res_simps map_res_Inr_iff dest: map_eq_imp_length_eq)

lemma gen_keys_ok:
  assumes "0 < n" "n \<le> 67108864"
  obtains keys where "mica_gen_keys n = Inr keys" "length keys = nat n"
proof -
  have "returns (mica_gen_keys n)"
    unfolding mica_gen_keys_def using assms by (intro returns_intros returns_CityHash128) simp
  then show ?thesis using that gen_keys_length by (auto elim: returnsE)
qed

lemma populate_guards:
  assumes "mica_gen_keys n = Inr keys" "0 < n" "0 < vlen" "vlen \<le> 46" "num_put_op kv = 0" "num_index_evictions kv = 0"
  shows "mica_populate_fixed_len kv n vlen =
    bind_res (insert_all kv (map (populate_op (nat vlen)) keys)) (\<lambda>kv'.
    bind_res (check (num_put_op kv' = n) AssertFail) (\<lambda>_. Inr kv'))"
  using assms by (simp add: mica_populate_fixed_len_def MICA_MAX_VALUE_def sizeof_mica_key_def)

lemma populate_op_facts:
  assumes "0 < vlen" "vlen \<le> 46"
  shows "op_full (populate_op (nat vlen) p)" "op_len (populate_op (nat vlen) p) = 18 + nat vlen"
  using put_op_full [of "replicate (nat vlen) (ucast (snd p AND 255))" "key_of_u128 p"]
    op_len_put_op [of "replicate (nat vlen) (ucast (snd p AND 255))" "key_of_u128 p"] assms
  by (simp_all add: populate_op_put_op populate_pair_def MICA_MAX_VALUE_def sizeof_mica_key_def)

lemma bkts_iff: "is_power_of_2 nb \<and> nb \<le> 16777216 \<longleftrightarrow> (\<exists>m\<in>{0..24}. nb = 2 ^ m)"
proof
  assume "is_power_of_2 nb \<and> nb \<le> 16777216"
  then obtain m :: nat where m: "nb = 2 ^ m" "(2 :: int) ^ m \<le> 2 ^ 24" by (auto simp: is_power_of_2_iff)
  from m(2) have "m \<le> 24" by (subst (asm) power_increasing_iff) auto
  with m(1) show "\<exists>m\<in>{0..24}. nb = 2 ^ m" by auto
next
  assume "\<exists>m\<in>{0..24}. nb = 2 ^ m"
  then obtain m :: nat where m: "m \<le> 24" "nb = 2 ^ m" by auto
  then have "m \<in> {0..30}" "nb \<le> 2 ^ 24" using power_increasing [OF m(1), of "2 :: int"] by simp_all
  with m show "is_power_of_2 nb \<and> nb \<le> 16777216" unfolding is_power_of_2_iff by (intro conjI bexI) auto
qed

lemma cap_iff:
  "cap > 0 \<and> cap \<le> 1073741824 \<and> cap mod 2097152 = 0 \<and> is_power_of_2 cap \<longleftrightarrow> (\<exists>k\<in>{21..30}. cap = 2 ^ k)"
    (is "?l \<longleftrightarrow> ?r")
proof
  assume l: ?l
  then obtain k where k: "k \<le> 30" "cap = 2 ^ k" by (auto simp: is_power_of_2_iff)
  have "(2 :: int) ^ 21 dvd 2 ^ k" using l k(2) by (simp add: dvd_eq_mod_eq_0)
  then have "(2 :: int) ^ 21 \<le> 2 ^ k" by (rule zdvd_imp_le) simp
  then have "21 \<le> k" by (subst (asm) power_increasing_iff) auto
  with k show ?r by auto
next
  assume ?r
  then obtain k :: nat where k: "21 \<le> k" "k \<le> 30" "cap = 2 ^ k" by auto
  then have "(2 :: int) ^ 21 dvd cap" "cap \<le> 2 ^ 30"
    using le_imp_power_dvd [OF k(1), of "2 :: int"] power_increasing [OF k(2), of "2 :: int"] by simp_all
  moreover have "k \<in> {0..30}" "0 < cap" using k by simp_all
  ultimately show ?l using k(3) unfolding is_power_of_2_iff by (intro conjI bexI) (auto simp: dvd_eq_mod_eq_0)
qed

text \<open>Population on the first lap of the log.\<close>

lemma populate_first_lap:
  assumes init: "mica_init mi ml inst node nb cap = Inr kv"
    and n: "0 < n" "n \<le> 67108864" and vlen: "0 < vlen" "vlen \<le> int MICA_MAX_VALUE"
    and fits: "n * int (round8 (18 + nat vlen)) + 78 < cap"
  shows "\<exists>keys kv'. mica_gen_keys n = Inr keys \<and> insert_all kv (map (populate_op (nat vlen)) keys) = Inr kv'
    \<and> mica_populate_fixed_len kv n vlen = Inr kv' \<and> mica_inv kv' \<and> num_put_op kv' = n \<and> num_index_evictions kv' \<le> n"
proof -
  have vlen': "vlen \<le> 46" using vlen(2) by (simp add: MICA_MAX_VALUE_def sizeof_mica_key_def)
  note i0 = mica_init_inv [OF init]
  obtain k where k: "cap = 2 ^ k" "log_cap kv = 2 ^ k" "k \<le> 30" "log_head kv = 0" "num_put_op kv = 0" "num_index_evictions kv = 0"
    using mica_init_Inr [OF init] by metis
  have cap: "int (cap_n kv) = cap" using k by (simp add: unat_two_power)
  obtain keys where keys: "mica_gen_keys n = Inr keys" "length keys = nat n" using gen_keys_ok [OF n] .
  let ?ops = "map (populate_op (nat vlen)) keys"
  have ops: "\<forall>op\<in>set ?ops. op_full op \<and> round8 (op_len op) \<le> round8 (18 + nat vlen)"
    using populate_op_facts [OF vlen(1) vlen'] by auto
  have "int (length ?ops * round8 (18 + nat vlen) + 78) < int (cap_n kv)"
    unfolding cap using fits keys(2) n by simp
  then have "length ?ops * round8 (18 + nat vlen) + 78 < cap_n kv" by (simp only: of_nat_less_iff)
  then have "head_n kv + length ?ops * round8 (18 + nat vlen) + 78 < cap_n kv" using k(4) by simp
  then obtain kv' where kv': "insert_all kv ?ops = Inr kv'" "mica_inv kv'" "num_put_op kv' = n" "num_index_evictions kv' \<le> n"
    using insert_all_first_lap [OF i0(1) _ ops] k keys n by auto
  then show ?thesis
    using keys(1) populate_guards [OF keys(1) n(1) vlen(1) vlen' k(5,6)] by auto
qed

text \<open>A small store for concrete instances: one bucket, 2 MB of log, a zeroed segment.\<close>

definition zero_index :: "int \<Rightarrow> int \<Rightarrow> int \<Rightarrow> (nat \<Rightarrow> mica_bkt) res" where
  "zero_index shm_key sz nd = Inr (\<lambda>_ _. \<lparr>in_use = False, slot_tag = 0, offset = 0\<rparr>)"

definition zero_log :: "int \<Rightarrow> int \<Rightarrow> int \<Rightarrow> store res" where
  "zero_log shm_key sz nd = Inr (\<lambda>_. 0)"

definition small_kv :: mica_kv where
  "small_kv = \<lparr>ht_index = (\<lambda>_ _. \<lparr>in_use = False, slot_tag = 0, offset = 0\<rparr>), ht_log = (\<lambda>_. 0),
     instance_id = 0, node_id = 0, num_bkts = 1, bkt_mask = 0, log_cap = 2097152, log_mask = 2097151,
     log_head = 0, num_get_op = 0, num_get_fail = 0, num_put_op = 0, num_index_evictions = 0\<rparr>"

definition small_key :: mica_key where
  "small_key = \<lparr>key_unused = 1, key_bkt = 2, key_server = 3, key_tag = 4\<rparr>"

lemma small_init: "mica_init zero_index zero_log 0 0 1 2097152 = Inr small_kv"
  by (auto simp: mica_init_def zero_index_def zero_log_def small_kv_def is_power_of_2_def intro!: ext)

lemma small_inv: "mica_inv small_kv" "mica_get small_kv k = None"
  using mica_init_inv [OF small_init] by auto

lemma small_put:
  obtains kv where "mica_put small_kv small_key [7, 8] = Inr kv" "run_puts mica_put small_kv [(small_key, [7, 8])] = Inr kv"
proof -
  have "\<exists>kv'. mica_batch_op small_kv [put_op small_key [7, 8]] = Inr (kv', [fail_resp MICA_RESP_PUT_SUCCESS])"
    using put_first_lap [OF small_inv(1), of "[7, 8]" small_key] small_inv(2) [of small_key]
    by (auto simp: MICA_MAX_VALUE_def sizeof_mica_key_def small_kv_def)
  then show ?thesis using that by (auto simp: mica_put_def)
qed

subsection \<open>Histories\<close>

text \<open>
  C1: After initialisation and any sequence of PUTs that return, a GET returns too: it either
  fails, or succeeds with the length of the value that the last PUT of its key stored and a
  pointer to exactly these bytes in the log. Evictions and wrap-around can lose a pair but never
  produce a stale or foreign value.
\<close>

theorem mica_history_sound:
  assumes init: "mica_init mi ml inst node nb cap = Inr kv0"
    and vals: "\<forall>(k, v)\<in>set kvs. length v \<le> MICA_MAX_VALUE"
    and run: "run_puts mica_put kv0 kvs = Inr kv"
  shows "\<exists>kv' r. mica_batch_op kv [get_op k] = Inr (kv', [r]) \<and>
    (r = fail_resp MICA_RESP_GET_FAIL \<or>
     (\<exists>v p. map_of (rev kvs) k = Some v \<and> resp_type r = MICA_RESP_GET_SUCCESS
        \<and> unat (resp_val_len r) = length v \<and> resp_val_ptr r = Some p
        \<and> p + length v \<le> cap_n kv' \<and> read_bytes (ht_log kv') p (length v) = v))"
proof -
  note i0 = mica_init_inv [OF init]
  have inv: "mica_inv kv" using mica.run_puts_inv [OF i0(1) vals run] .
  have last: "map_of (rev kvs) k = Some v" if "mica_get kv k = Some v" for v
    using mica.run_puts_get [OF i0(1) vals run that] i0(2) by simp
  have len: "length v \<le> MICA_MAX_VALUE" if "map_of (rev kvs) k = Some v" for v
    using map_of_SomeD [OF that] vals by auto
  show ?thesis
  proof (cases "mica_get kv k")
    case None
    then show ?thesis using batch_get [OF inv, of "get_op k"] by (auto simp: get_op_def)
  next
    case (Some v)
    have "unat (word_of_nat (length v) :: u8) = length v"
      using len [OF last [OF Some]] by (simp add: unat_of_nat MICA_MAX_VALUE_def sizeof_mica_key_def)
    with Some last [OF Some] show ?thesis
      using batch_get [OF inv, of "get_op k"] by (auto simp: get_op_def)
  qed
qed

theorem mica_history_sound_witness:
  "\<exists>kv kv' r. run_puts mica_put small_kv [(small_key, [7, 8])] = Inr kv
    \<and> mica_batch_op kv [get_op small_key] = Inr (kv', [r])"
proof -
  obtain kv where kv: "run_puts mica_put small_kv [(small_key, [7, 8])] = Inr kv"
    by (rule small_put)
  with mica_history_sound [OF small_init _ kv, of small_key] show ?thesis
    by (auto simp: MICA_MAX_VALUE_def sizeof_mica_key_def)
qed

text \<open>
  C3: The value of the last PUT is found: after any sequence of PUTs from initialisation that
  ends with a PUT of key k and value v, a GET of k succeeds and its response denotes v.
\<close>

theorem mica_last_put_found:
  assumes init: "mica_init mi ml inst node nb cap = Inr kv0"
    and vals: "\<forall>(k, v)\<in>set (kvs @ [(k, v)]). length v \<le> MICA_MAX_VALUE"
    and run: "run_puts mica_put kv0 (kvs @ [(k, v)]) = Inr kv"
  shows "\<exists>p. mica_batch_op kv [get_op k] =
      Inr (kv\<lparr>num_get_op := num_get_op kv + 1\<rparr>, [\<lparr>resp_type = MICA_RESP_GET_SUCCESS,
        resp_val_len = of_nat (length v), resp_val_ptr = Some p\<rparr>])
    \<and> read_bytes (ht_log kv) p (length v) = v"
proof -
  note i0 = mica_init_inv(1) [OF init]
  have "mica_inv kv" using mica.run_puts_inv [OF i0 vals run] .
  moreover have "mica_get kv k = Some v" using mica.run_puts_last [OF i0 vals run] .
  ultimately show ?thesis using batch_get [of kv "get_op k"] by (auto simp: get_op_def)
qed

theorem mica_last_put_found_witness:
  "\<exists>kv p. run_puts mica_put small_kv ([] @ [(small_key, [7, 8])]) = Inr kv
    \<and> read_bytes (ht_log kv) p 2 = [7, 8]"
proof -
  obtain kv where kv: "run_puts mica_put small_kv ([] @ [(small_key, [7, 8])]) = Inr kv"
    by (rule small_put) simp
  with mica_last_put_found [OF small_init _ kv] show ?thesis
    by (auto simp: MICA_MAX_VALUE_def sizeof_mica_key_def numeral_2_eq_2)
qed

text \<open>
  C6: On the first lap of the log a PUT never fails unexpectedly: if the key is live with a
  value of another length the assertion of the update path stops the program; otherwise the PUT
  returns success, keeps the store invariant and the new value is the one a lookup finds.
\<close>

theorem mica_put_first_lap:
  assumes "mica_inv kv" "length v \<le> MICA_MAX_VALUE" "log_head kv < log_cap kv"
  shows "if \<exists>w. mica_get kv k = Some w \<and> length w \<noteq> length v
    then mica_batch_op kv [put_op k v] = Inl AssertFail
    else \<exists>kv'. mica_batch_op kv [put_op k v] = Inr (kv', [fail_resp MICA_RESP_PUT_SUCCESS])
      \<and> mica_inv kv' \<and> mica_get kv' k = Some v"
  using put_first_lap [OF assms(1,2)] assms(3) by (simp add: word_less_nat_alt)

theorem mica_put_first_lap_witness:
  "mica_inv small_kv \<and> log_head small_kv < log_cap small_kv \<and>
   (\<exists>kv'. mica_batch_op small_kv [put_op small_key [9]] = Inr (kv', [fail_resp MICA_RESP_PUT_SUCCESS])
      \<and> mica_get kv' small_key = Some [9])"
proof -
  have h: "log_head small_kv < log_cap small_kv" by (simp add: small_kv_def)
  show ?thesis
    using mica_put_first_lap [OF small_inv(1) _ h, of "[9]" small_key] h small_inv
    by (auto simp: MICA_MAX_VALUE_def sizeof_mica_key_def)
qed

text \<open>
  \<open>mica_init\<close> returns exactly when its assertions hold and both shared segments are
  allocated: the node is 0 or 1, the bucket count is a power of two up to 2^24, and the log
  capacity a power of two from 2^21 to 2^30 bytes.
\<close>

theorem mica_init_accepts:
  "returns (mica_init mi ml inst node nb cap) \<longleftrightarrow>
     (node = 0 \<or> node = 1) \<and> (\<exists>m\<in>{0..24}. nb = 2 ^ m) \<and> (\<exists>k\<in>{21..30}. cap = 2 ^ k)
     \<and> returns (mi (MICA_INDEX_SHM_KEY + inst) (nb * 64) node) \<and> returns (ml (MICA_LOG_SHM_KEY + inst) cap node)"
proof -
  have "returns (mica_init mi ml inst node nb cap) \<longleftrightarrow> (node = 0 \<or> node = 1)
      \<and> (is_power_of_2 nb \<and> nb \<le> 16777216)
      \<and> (cap > 0 \<and> cap \<le> 1073741824 \<and> cap mod 2097152 = 0 \<and> is_power_of_2 cap)
      \<and> returns (mi (MICA_INDEX_SHM_KEY + inst) (nb * 64) node) \<and> returns (ml (MICA_LOG_SHM_KEY + inst) cap node)"
    by (auto simp: returns_def mica_init_def res_simps)
  then show ?thesis unfolding bkts_iff cap_iff .
qed

text \<open>
  C17: Populating a fresh store with n keys of one value length, when their entries fit on the
  first lap of the log, returns: the counters say n PUTs, every pair a lookup finds is one of
  the generated keys with the least significant byte of its second half (byte 8 of the key) repeated, and the last key generated is found. That
  byte is not the least significant one of the key, which the comment at the function names.
\<close>

theorem mica_populate_ok:
  assumes init: "mica_init mi ml inst node nb cap = Inr kv"
    and n: "0 < n" "n \<le> 67108864" and vlen: "0 < vlen" "vlen \<le> int MICA_MAX_VALUE"
    and fits: "n * int (round8 (18 + nat vlen)) + 78 < cap"
  shows "\<exists>keys kv'. mica_gen_keys n = Inr keys \<and> mica_populate_fixed_len kv n vlen = Inr kv' \<and> mica_inv kv'
    \<and> num_put_op kv' = n \<and> num_index_evictions kv' \<le> n
    \<and> (\<forall>k v. mica_get kv' k = Some v \<longrightarrow>
         (\<exists>p\<in>set keys. k = key_of_u128 p \<and> v = replicate (nat vlen) (ucast (snd p AND 255))))
    \<and> mica_get kv' (key_of_u128 (last keys)) = Some (replicate (nat vlen) (ucast (snd (last keys) AND 255)))"
proof -
  note i0 = mica_init_inv [OF init]
  obtain keys kv' where keys: "mica_gen_keys n = Inr keys" and kv': "insert_all kv (map (populate_op (nat vlen)) keys) = Inr kv'"
    "mica_populate_fixed_len kv n vlen = Inr kv'" "mica_inv kv'" "num_put_op kv' = n" "num_index_evictions kv' \<le> n"
    using populate_first_lap [OF init n vlen fits] by blast
  let ?kvs = "map (populate_pair (nat vlen)) keys"
  have run: "run_puts (\<lambda>kv k v. mica_insert_one kv (put_op k v)) kv ?kvs = Inr kv'"
    using kv'(1) by (simp only: populate_ops insert_all_run_puts)
  have vals: "\<forall>(k, v)\<in>set ?kvs. length v \<le> MICA_MAX_VALUE" using vlen by (auto simp: populate_pair_def)
  have ne: "keys \<noteq> []" using gen_keys_length [OF keys] n by auto
  then have split: "?kvs = map (populate_pair (nat vlen)) (butlast keys) @ [populate_pair (nat vlen) (last keys)]"
    by (metis append_butlast_last_id list.simps(8,9) map_append)
  have "mica_get kv' (key_of_u128 (last keys)) = Some (replicate (nat vlen) (ucast (snd (last keys) AND 255)))"
    using mica_ins.run_puts_last [OF i0(1) vals [unfolded split populate_pair_def [of _ "last keys"]]
        run [unfolded split populate_pair_def [of _ "last keys"]]] .
  moreover have "\<exists>p\<in>set keys. k = key_of_u128 p \<and> v = replicate (nat vlen) (ucast (snd p AND 255))"
    if "mica_get kv' k = Some v" for k v
    using mica_ins.run_puts_get [OF i0(1) vals run that] i0(2) by (auto simp: populate_pair_def dest!: map_of_SomeD)
  ultimately show ?thesis using keys kv' by auto
qed

theorem mica_populate_ok_witness:
  "\<exists>kv'. mica_populate_fixed_len small_kv 3 32 = Inr kv' \<and> num_put_op kv' = 3"
  using mica_populate_ok [OF small_init, of 3 32]
  by (auto simp: MICA_MAX_VALUE_def sizeof_mica_key_def round8_def)

text \<open>
  C11: The log overruns its buffer on the second lap: populating a fresh store with at least
  2 (cap / 56) + 1 keys of value length 32 ends in a copy outside the log, whatever the capacity.
\<close>

theorem mica_populate_overflow:
  assumes init: "mica_init mi ml inst node nb cap = Inr kv"
    and n: "2 * (cap div 56) + 1 \<le> n" "n \<le> 67108864"
  shows "mica_populate_fixed_len kv n 32 = Inl OutOfBounds"
proof -
  note i0 = mica_init_inv(1) [OF init]
  obtain k where k: "cap = 2 ^ k" "log_cap kv = 2 ^ k" "k \<le> 30" "log_head kv = 0" "num_put_op kv = 0" "num_index_evictions kv = 0"
    using mica_init_Inr [OF init] by metis
  have cap: "int (cap_n kv) = cap" using k by (simp add: unat_two_power)
  have "0 \<le> cap div 56" by (simp add: k(1) pos_imp_zdiv_nonneg_iff)
  then have "0 < n" using n by linarith
  obtain keys where keys: "mica_gen_keys n = Inr keys" "length keys = nat n" using gen_keys_ok [OF \<open>0 < n\<close> n(2)] .
  have "int (2 * (cap_n kv div 56) + 1) \<le> int (length keys)" using n cap keys(2) \<open>0 < n\<close> by (simp add: zdiv_int)
  then have "insert_all kv (map (populate_op 32) keys) = Inl OutOfBounds"
    using populate_op_facts [of 32] k cap_bounds [OF mica_invD(1) [OF i0]]
    by (intro first_then_second_lap [OF i0, of _ 0]) auto
  then show ?thesis using populate_guards [OF keys(1) \<open>0 < n\<close> _ _ k(5,6), of 32] by simp
qed

theorem mica_populate_overflow_witness:
  "mica_populate_fixed_len small_kv 74899 32 = Inl OutOfBounds"
  using mica_populate_overflow [OF small_init, of 74899] by simp

text \<open>
  C38: In every bucket of a store reached by PUTs the used slots are at the end of the slot
  array, not at its beginning, and no two used slots carry the same tag.
\<close>

theorem mica_slots_suffix:
  assumes "mica_init mi ml inst node nb cap = Inr kv0"
    and "\<forall>(k, v)\<in>set kvs. length v \<le> MICA_MAX_VALUE"
    and "run_puts mica_put kv0 kvs = Inr kv"
    and "int b < num_bkts kv" "i < 8" "j < 8" "in_use (ht_index kv b i)"
  shows "(i \<le> j \<longrightarrow> in_use (ht_index kv b j))
    \<and> (in_use (ht_index kv b j) \<and> slot_tag (ht_index kv b j) = slot_tag (ht_index kv b i) \<longrightarrow> i = j)"
proof -
  have "mica_inv kv" using mica.run_puts_inv [OF mica_init_inv(1) [OF assms(1)] assms(2,3)] .
  then have "bkt_wf (ht_index kv b)" using assms(4) by (simp add: mica_inv_def valid_bkt_def)
  then show ?thesis using assms(5-7) unfolding bkt_wf_def by metis
qed

theorem mica_slots_suffix_witness:
  "\<exists>kv b i. run_puts mica_put small_kv [(small_key, [7, 8])] = Inr kv \<and> in_use (ht_index kv b i)
    \<and> in_use (ht_index kv b 7)"
proof -
  obtain kv where kv: "run_puts mica_put small_kv [(small_key, [7, 8])] = Inr kv" by (rule small_put)
  have vals: "\<forall>(k, v)\<in>set [(small_key, [7 :: u8, 8])]. length v \<le> MICA_MAX_VALUE"
    by (simp add: MICA_MAX_VALUE_def sizeof_mica_key_def)
  have "mica_get kv small_key = Some [7, 8]"
    using mica.run_puts_last [of small_kv "[]"] small_inv(1) vals kv by auto
  then obtain i where "lookup_slot kv small_key = Some i"
    by (auto simp: mica_get_def split: option.splits)
  then have i: "i < 8" "in_use (ht_index kv (key_bucket kv small_key) i)"
    using lookup_slot_SomeD by blast+
  have "mica_cfg kv" using mica.run_puts_inv [OF small_inv(1) vals kv] by (rule mica_invD(1))
  then have "int (key_bucket kv small_key) < num_bkts kv"
    using key_bucket_valid by (simp add: valid_bkt_def)
  then show ?thesis using mica_slots_suffix [OF small_init vals kv _ i(1) _ i(2), of 7] kv i by auto
qed

end
