(* ===== verification/Mica_Alloc.thy ===== *)
theory Mica_Alloc
  imports Prelude
begin

text \<open>
  The segregated-fit allocator of mica/alloc/alloc.h and alloc.c. The reserved memory is a map
  from byte addresses to 64-bit cells, read and written 8 bytes at a time at 8-byte aligned
  addresses between \<open>data\<close> and \<open>data + size\<close>; any other access is an error result. A cell holds
  a tag (status in bit 63, size below) or a pointer; the null pointer is 0. Cell values, sizes
  and addresses are natural numbers below 2^64, and the places where the C arithmetic on them
  could wrap are written out.
\<close>

definition MICA_ALLOC_NUM_CLASSES :: nat where "MICA_ALLOC_NUM_CLASSES = 32"
definition MICA_ALLOC_CLASS_INCREMENT :: nat where "MICA_ALLOC_CLASS_INCREMENT = 8"
definition MICA_ALLOC_FREE :: nat where "MICA_ALLOC_FREE = 0"
definition MICA_ALLOC_OCCUPIED :: nat where "MICA_ALLOC_OCCUPIED = 1"
definition MICA_ALLOC_OVERHEAD :: nat where "MICA_ALLOC_OVERHEAD = 16"
definition MICA_ALLOC_MIN_SIZE :: nat where "MICA_ALLOC_MIN_SIZE = 32"
definition MICA_ALLOC_MAX_SIZE :: nat where "MICA_ALLOC_MAX_SIZE = 2 ^ 40 - 1"

definition MICA_ALLOC_TAG_SIZE :: "nat \<Rightarrow> nat" where
  "MICA_ALLOC_TAG_SIZE vec = vec AND (2 ^ 63 - 1)"

definition MICA_ALLOC_TAG_STATUS :: "nat \<Rightarrow> nat" where
  "MICA_ALLOC_TAG_STATUS vec = drop_bit 63 vec"

definition MICA_ALLOC_TAG_VEC :: "nat \<Rightarrow> nat \<Rightarrow> nat" where
  "MICA_ALLOC_TAG_VEC sz status = sz OR push_bit 63 status"

text \<open>The two rounding macros, on values whose sum does not reach 2^64.\<close>

definition MICA_ROUNDUP8 :: "nat \<Rightarrow> nat" where
  "MICA_ROUNDUP8 x = (x + 7) div 8 * 8"

definition MICA_ROUNDUP2M :: "nat \<Rightarrow> nat" where
  "MICA_ROUNDUP2M x = (x + 2097151) div 2097152 * 2097152"

record mica_alloc =
  al_lock :: nat
  al_size :: nat
  al_data :: nat
  free_head :: "nat \<Rightarrow> nat"
  al_mem :: "nat \<Rightarrow> nat"

definition in_heap :: "mica_alloc \<Rightarrow> nat \<Rightarrow> bool" where
  "in_heap al a \<longleftrightarrow> al_data al \<le> a \<and> a + 8 \<le> al_data al + al_size al \<and> (a - al_data al) mod 8 = 0"

definition ld :: "mica_alloc \<Rightarrow> nat \<Rightarrow> nat res" where
  "ld al a = (if in_heap al a then Inr (al_mem al a) else Inl OutOfBounds)"

definition st :: "mica_alloc \<Rightarrow> nat \<Rightarrow> nat \<Rightarrow> mica_alloc res" where
  "st al a v = (if in_heap al a then Inr (al\<lparr>al_mem := (al_mem al)(a := v)\<rparr>) else Inl OutOfBounds)"

subsection \<open>Size classes\<close>

definition mica_alloc_size_to_class_roundup :: "nat \<Rightarrow> nat res" where
  "mica_alloc_size_to_class_roundup sz =
     bind_res (check (sz \<le> MICA_ALLOC_MAX_SIZE) AssertFail) (\<lambda>_.
     if sz \<le> MICA_ALLOC_MIN_SIZE + (MICA_ALLOC_NUM_CLASSES - 1) * MICA_ALLOC_CLASS_INCREMENT
     then Inr ((sz + 2 ^ 64 - MICA_ALLOC_MIN_SIZE + MICA_ALLOC_CLASS_INCREMENT - 1) mod 2 ^ 64
               div MICA_ALLOC_CLASS_INCREMENT)
     else Inr (MICA_ALLOC_NUM_CLASSES - 1))"

definition mica_alloc_size_to_class_rounddown :: "nat \<Rightarrow> nat res" where
  "mica_alloc_size_to_class_rounddown sz =
     bind_res (check (sz \<le> MICA_ALLOC_MAX_SIZE) AssertFail) (\<lambda>_.
     bind_res (check (sz \<ge> MICA_ALLOC_MIN_SIZE) AssertFail) (\<lambda>_.
     if sz < MICA_ALLOC_MIN_SIZE + MICA_ALLOC_NUM_CLASSES * MICA_ALLOC_CLASS_INCREMENT
     then Inr ((sz - MICA_ALLOC_MIN_SIZE) div MICA_ALLOC_CLASS_INCREMENT)
     else Inr (MICA_ALLOC_NUM_CLASSES - 1)))"

subsection \<open>Free lists\<close>

definition mica_alloc_insert_free_chunk :: "mica_alloc \<Rightarrow> nat \<Rightarrow> nat \<Rightarrow> mica_alloc res" where
  "mica_alloc_insert_free_chunk al chunk_start chunk_size =
     bind_res (mica_alloc_size_to_class_rounddown chunk_size) (\<lambda>chunk_class.
     let tag = MICA_ALLOC_TAG_VEC chunk_size MICA_ALLOC_FREE; old = free_head al chunk_class in
     bind_res (st al (chunk_start + chunk_size - 8) tag) (\<lambda>al.
     bind_res (st al chunk_start tag) (\<lambda>al.
     bind_res (st al (chunk_start + 8) 0) (\<lambda>al.
     bind_res (st al (chunk_start + 16) old) (\<lambda>al.
     bind_res
       (if old \<noteq> 0 then
          bind_res (ld al (old + 8)) (\<lambda>p.
          bind_res (check (p = 0) AssertFail) (\<lambda>_.
          st al (old + 8) chunk_start))
        else Inr al) (\<lambda>al.
     Inr (al\<lparr>free_head := (free_head al)(chunk_class := chunk_start)\<rparr>)))))))"

definition mica_alloc_remove_free_chunk_from_free_list :: "mica_alloc \<Rightarrow> nat \<Rightarrow> nat \<Rightarrow> mica_alloc res" where
  "mica_alloc_remove_free_chunk_from_free_list al chunk_start chunk_size =
     bind_res (ld al (chunk_start + 8)) (\<lambda>prev_chunk_start.
     bind_res (ld al (chunk_start + 16)) (\<lambda>next_chunk_start.
     bind_res
       (if prev_chunk_start \<noteq> 0 then st al (prev_chunk_start + 16) next_chunk_start
        else
          bind_res (mica_alloc_size_to_class_rounddown chunk_size) (\<lambda>chunk_class.
          bind_res (check (free_head al chunk_class = chunk_start) AssertFail) (\<lambda>_.
          Inr (al\<lparr>free_head := (free_head al)(chunk_class := next_chunk_start)\<rparr>)))) (\<lambda>al.
     if next_chunk_start \<noteq> 0 then st al (next_chunk_start + 8) prev_chunk_start else Inr al)))"

text \<open>The scan for a class with a chunk, from \<open>c\<close> up; \<open>n\<close> classes are left.\<close>

fun find_class :: "mica_alloc \<Rightarrow> nat \<Rightarrow> nat \<Rightarrow> nat option" where
  "find_class al c 0 = None"
| "find_class al c (Suc n) = (if free_head al c \<noteq> 0 then Some c else find_class al (c + 1) n)"

definition mica_alloc_remove_free_chunk_from_head ::
  "mica_alloc \<Rightarrow> nat \<Rightarrow> (mica_alloc \<times> (nat \<times> nat) option) res" where
  "mica_alloc_remove_free_chunk_from_head al minimum_chunk_size =
     bind_res (mica_alloc_size_to_class_roundup minimum_chunk_size) (\<lambda>c.
     bind_res (check (c \<le> MICA_ALLOC_NUM_CLASSES) OutOfBounds) (\<lambda>_.
     case find_class al c (MICA_ALLOC_NUM_CLASSES - c) of
       None \<Rightarrow> Inr (al, None)
     | Some chunk_class \<Rightarrow>
         let chunk_start = free_head al chunk_class in
         bind_res (ld al chunk_start) (\<lambda>tag.
         bind_res (check (MICA_ALLOC_TAG_STATUS tag = MICA_ALLOC_FREE) AssertFail) (\<lambda>_.
         let chunk_size = MICA_ALLOC_TAG_SIZE tag in
         bind_res (check (chunk_size \<ge> minimum_chunk_size) AssertFail) (\<lambda>_.
         bind_res (ld al (chunk_start + chunk_size - 8)) (\<lambda>tag'.
         bind_res (check (tag = tag') AssertFail) (\<lambda>_.
         bind_res (mica_alloc_remove_free_chunk_from_free_list al chunk_start chunk_size) (\<lambda>al'.
         Inr (al', Some (chunk_start, chunk_size))))))))))"

subsection \<open>Initialisation\<close>

definition mica_alloc_reset :: "mica_alloc \<Rightarrow> mica_alloc res" where
  "mica_alloc_reset al =
     mica_alloc_insert_free_chunk (al\<lparr>free_head := (\<lambda>_. 0)\<rparr>) (al_data al) (al_size al)"

text \<open>\<open>malloc\<close> is a parameter: the address of the block of the given size, 0 when it fails.\<close>

definition mica_alloc_init :: "(nat \<Rightarrow> nat) \<Rightarrow> nat \<Rightarrow> nat \<Rightarrow> mica_alloc res" where
  "mica_alloc_init malloc size0 numa_node =
     bind_res (check (size0 \<le> MICA_ALLOC_MAX_SIZE) AssertFail) (\<lambda>_.
     bind_res (check (numa_node \<le> 7) AssertFail) (\<lambda>_.
     let sz = MICA_ROUNDUP2M size0 in
     bind_res (check (sz \<le> MICA_ALLOC_MAX_SIZE) AssertFail) (\<lambda>_.
     bind_res (check (malloc sz \<noteq> 0) AssertFail) (\<lambda>_.
     mica_alloc_reset \<lparr>al_lock = 0, al_size = sz, al_data = malloc sz,
       free_head = (\<lambda>_. 0), al_mem = (\<lambda>_. 0)\<rparr>))))"

definition mica_alloc_get_item :: "mica_alloc \<Rightarrow> nat \<Rightarrow> nat" where
  "mica_alloc_get_item al alloc_offset = al_data al + alloc_offset"

subsection \<open>Coalescing\<close>

definition mica_alloc_coalese_free_chunk_left ::
  "mica_alloc \<Rightarrow> nat \<Rightarrow> nat \<Rightarrow> (mica_alloc \<times> nat \<times> nat) res" where
  "mica_alloc_coalese_free_chunk_left al chunk_start chunk_size =
     (if chunk_start = al_data al then Inr (al, chunk_start, chunk_size)
      else
        bind_res (check (chunk_start > al_data al) AssertFail) (\<lambda>_.
        bind_res (ld al (chunk_start - 8)) (\<lambda>tag.
        if MICA_ALLOC_TAG_STATUS tag = MICA_ALLOC_OCCUPIED then Inr (al, chunk_start, chunk_size)
        else
          let adj_chunk_size = MICA_ALLOC_TAG_SIZE tag;
              adj_chunk_start = chunk_start - adj_chunk_size
          in
          bind_res (ld al adj_chunk_start) (\<lambda>t1.
          bind_res (ld al (adj_chunk_start + adj_chunk_size - 8)) (\<lambda>t2.
          bind_res (check (t1 = t2) AssertFail) (\<lambda>_.
          bind_res (mica_alloc_remove_free_chunk_from_free_list al adj_chunk_start adj_chunk_size) (\<lambda>al'.
          Inr (al', adj_chunk_start, chunk_size + adj_chunk_size))))))))"

definition mica_alloc_coalese_free_chunk_right ::
  "mica_alloc \<Rightarrow> nat \<Rightarrow> nat \<Rightarrow> (mica_alloc \<times> nat \<times> nat) res" where
  "mica_alloc_coalese_free_chunk_right al chunk_start chunk_size =
     (if chunk_start + chunk_size = al_data al + al_size al then Inr (al, chunk_start, chunk_size)
      else
        bind_res (check (chunk_start + chunk_size < al_data al + al_size al) AssertFail) (\<lambda>_.
        bind_res (ld al (chunk_start + chunk_size)) (\<lambda>tag.
        if MICA_ALLOC_TAG_STATUS tag = MICA_ALLOC_OCCUPIED then Inr (al, chunk_start, chunk_size)
        else
          let adj_chunk_start = chunk_start + chunk_size;
              adj_chunk_size = MICA_ALLOC_TAG_SIZE tag
          in
          bind_res (ld al adj_chunk_start) (\<lambda>t1.
          bind_res (ld al (adj_chunk_start + adj_chunk_size - 8)) (\<lambda>t2.
          bind_res (check (t1 = t2) AssertFail) (\<lambda>_.
          bind_res (mica_alloc_remove_free_chunk_from_free_list al adj_chunk_start adj_chunk_size) (\<lambda>al'.
          Inr (al', chunk_start, chunk_size + adj_chunk_size))))))))"

subsection \<open>Allocation and deallocation\<close>

text \<open>\<open>None\<close> is the result \<open>MICA_ALLOC_INSUFFICIENT_SPACE\<close>.\<close>

definition mica_alloc_allocate :: "mica_alloc \<Rightarrow> nat \<Rightarrow> (mica_alloc \<times> nat option) res" where
  "mica_alloc_allocate al item_size =
     bind_res (check (item_size > 8) AssertFail) (\<lambda>_.
     let minimum_chunk_size = MICA_ROUNDUP8 item_size + MICA_ALLOC_OVERHEAD in
     bind_res (mica_alloc_remove_free_chunk_from_head al minimum_chunk_size) (\<lambda>(al, r).
     case r of
       None \<Rightarrow> Inr (al, None)
     | Some (chunk_start, chunk_size0) \<Rightarrow>
         let leftover_chunk_size = chunk_size0 - minimum_chunk_size in
         bind_res
           (if leftover_chunk_size \<ge> MICA_ALLOC_MIN_SIZE then
              bind_res (mica_alloc_insert_free_chunk al (chunk_start + minimum_chunk_size) leftover_chunk_size) (\<lambda>al'.
              Inr (al', minimum_chunk_size))
            else Inr (al, chunk_size0)) (\<lambda>(al, chunk_size).
         let tag = MICA_ALLOC_TAG_VEC chunk_size MICA_ALLOC_OCCUPIED in
         bind_res (st al (chunk_start + chunk_size - 8) tag) (\<lambda>al.
         bind_res (st al chunk_start tag) (\<lambda>al.
         let alloc_item = chunk_start + 8 in
         bind_res (st al alloc_item item_size) (\<lambda>al.
         Inr (al, Some (alloc_item - al_data al))))))))"

definition mica_alloc_deallocate :: "mica_alloc \<Rightarrow> nat \<Rightarrow> mica_alloc res" where
  "mica_alloc_deallocate al alloc_offset =
     (let alloc_item = mica_alloc_get_item al alloc_offset; chunk_start = alloc_item - 8 in
      bind_res (ld al chunk_start) (\<lambda>tag.
      bind_res (check (MICA_ALLOC_TAG_STATUS tag = MICA_ALLOC_OCCUPIED) AssertFail) (\<lambda>_.
      let chunk_size = MICA_ALLOC_TAG_SIZE tag in
      bind_res (mica_alloc_coalese_free_chunk_left al chunk_start chunk_size) (\<lambda>(al, chunk_start, chunk_size).
      bind_res (mica_alloc_coalese_free_chunk_right al chunk_start chunk_size) (\<lambda>(al, chunk_start, chunk_size).
      mica_alloc_insert_free_chunk al chunk_start chunk_size)))))"

end
