(* ===== verification/Alloc_Proofs.thy ===== *)
theory Alloc_Proofs
  imports Mica_Alloc
begin

text \<open>
  Correctness of the allocator. The memory is a sequence of chunks, each free, occupied or (in
  the middle of an operation) detached; the invariant says that the boundary tags and the doubly
  linked free lists describe exactly this sequence. Every operation is a composition of six
  steps on the sequence: detach a free chunk, release an occupied chunk, merge or split detached
  chunks, put a detached chunk on its free list, and mark a detached chunk occupied.
\<close>

subsection \<open>Chunk sequences and the invariant\<close>

datatype cstat = Free | Occ | Hole

type_synonym chunk = "nat \<times> nat \<times> cstat"

primrec layout :: "nat \<Rightarrow> (nat \<times> cstat) list \<Rightarrow> chunk list" where
  "layout b [] = []"
| "layout b (c # cs) = (b, fst c, snd c) # layout (b + fst c) cs"

definition csum :: "(nat \<times> cstat) list \<Rightarrow> nat" where
  "csum cs = sum_list (map fst cs)"

definition chunks_wf :: "(nat \<times> cstat) list \<Rightarrow> bool" where
  "chunks_wf cs \<longleftrightarrow> (\<forall>c\<in>set cs. 32 \<le> fst c \<and> 8 dvd fst c)"

definition hd0 :: "nat list \<Rightarrow> nat" where
  "hd0 xs = (case xs of [] \<Rightarrow> 0 | x # _ \<Rightarrow> x)"

primrec dll :: "(nat \<Rightarrow> nat) \<Rightarrow> nat \<Rightarrow> nat list \<Rightarrow> bool" where
  "dll m p [] = True"
| "dll m p (x # xs) = (m (x + 8) = p \<and> m (x + 16) = hd0 xs \<and> dll m x xs)"

definition tag :: "nat \<Rightarrow> cstat \<Rightarrow> nat" where
  "tag n s = MICA_ALLOC_TAG_VEC n (if s = Occ then MICA_ALLOC_OCCUPIED else MICA_ALLOC_FREE)"

definition class_of :: "nat \<Rightarrow> nat" where
  "class_of n = min 31 ((n - 32) div 8)"

definition tags_ok :: "(nat \<Rightarrow> nat) \<Rightarrow> chunk set \<Rightarrow> bool" where
  "tags_ok m C \<longleftrightarrow> (\<forall>a n s. (a, n, s) \<in> C \<longrightarrow> s \<noteq> Hole \<longrightarrow> m a = tag n s \<and> m (a + n - 8) = tag n s)"

definition lists_ok :: "(nat \<Rightarrow> nat) \<Rightarrow> (nat \<Rightarrow> nat) \<Rightarrow> chunk set \<Rightarrow> (nat \<Rightarrow> nat list) \<Rightarrow> bool" where
  "lists_ok m h C fl \<longleftrightarrow> (\<forall>c<32. distinct (fl c)
     \<and> set (fl c) = {a. \<exists>n. (a, n, Free) \<in> C \<and> class_of n = c}
     \<and> h c = hd0 (fl c) \<and> dll m 0 (fl c))"

definition heap_inv :: "mica_alloc \<Rightarrow> (nat \<times> cstat) list \<Rightarrow> (nat \<Rightarrow> nat list) \<Rightarrow> bool" where
  "heap_inv al cs fl \<longleftrightarrow> 0 < al_data al \<and> csum cs = al_size al \<and> al_size al < 2 ^ 40 \<and> chunks_wf cs
     \<and> tags_ok (al_mem al) (set (layout (al_data al) cs))
     \<and> lists_ok (al_mem al) (free_head al) (set (layout (al_data al) cs)) fl"

subsection \<open>Chunk geometry\<close>

lemma csum_simps [simp]: "csum [] = 0" "csum (c # cs) = fst c + csum cs" "csum (xs @ ys) = csum xs + csum ys"
  by (simp_all add: csum_def)

lemma chunks_wf_simps [simp]:
  "chunks_wf []" "chunks_wf (c # cs) \<longleftrightarrow> 32 \<le> fst c \<and> 8 dvd fst c \<and> chunks_wf cs"
  "chunks_wf (xs @ ys) \<longleftrightarrow> chunks_wf xs \<and> chunks_wf ys"
  by (auto simp: chunks_wf_def)

lemma layout_append [simp]: "layout b (xs @ ys) = layout b xs @ layout (b + csum xs) ys"
  by (induction xs arbitrary: b) (simp_all add: add.assoc)

lemma layout_bounds: "(a, n, s) \<in> set (layout b cs) \<Longrightarrow> b \<le> a \<and> a + n \<le> b + csum cs"
  by (induction cs arbitrary: b) fastforce+

lemma layout_wf: "chunks_wf cs \<Longrightarrow> (a, n, s) \<in> set (layout b cs) \<Longrightarrow> 32 \<le> n \<and> 8 dvd n"
  by (induction cs arbitrary: b) auto

lemma layout_aligned: "chunks_wf cs \<Longrightarrow> (a, n, s) \<in> set (layout b cs) \<Longrightarrow> 8 dvd a - b"
proof (induction cs arbitrary: b)
  case (Cons c cs)
  show ?case
  proof (cases "(a, n, s) = (b, fst c, snd c)")
    case False
    then have a: "(a, n, s) \<in> set (layout (b + fst c) cs)" using Cons.prems(2) by auto
    then have "8 dvd a - (b + fst c)" "b + fst c \<le> a" using Cons layout_bounds by auto
    moreover have "a - b = (a - (b + fst c)) + fst c" using calculation(2) by simp
    ultimately show ?thesis using Cons.prems(1) by (metis chunks_wf_simps(2) dvd_add)
  qed simp
qed simp

lemma layout_split:
  "(a, n, s) \<in> set (layout b cs) \<Longrightarrow> \<exists>xs ys. cs = xs @ (n, s) # ys \<and> a = b + csum xs"
proof (induction cs arbitrary: b)
  case (Cons c cs)
  show ?case
  proof (cases "(a, n, s) = (b, fst c, snd c)")
    case True
    then show ?thesis by (intro exI [of _ "[]"] exI [of _ cs]) auto
  next
    case False
    then obtain xs ys where "cs = xs @ (n, s) # ys" "a = b + fst c + csum xs"
      using Cons by fastforce
    then show ?thesis by (intro exI [of _ "c # xs"] exI [of _ ys]) simp
  qed
qed simp

text \<open>A cell belongs to one chunk only.\<close>

lemma chunk_inj:
  "chunks_wf cs \<Longrightarrow> (a, n, s) \<in> set (layout b cs) \<Longrightarrow> (a', n', s') \<in> set (layout b cs) \<Longrightarrow>
     i < n \<Longrightarrow> j < n' \<Longrightarrow> a + i = a' + j \<Longrightarrow> a = a' \<and> n = n' \<and> s = s' \<and> i = j"
proof (induction cs arbitrary: b)
  case (Cons c cs)
  note b = layout_bounds [of a n s "b + fst c" cs] layout_bounds [of a' n' s' "b + fst c" cs]
  consider "(a, n, s) = (b, fst c, snd c)" "(a', n', s') = (b, fst c, snd c)"
    | "(a, n, s) = (b, fst c, snd c)" "(a', n', s') \<in> set (layout (b + fst c) cs)"
    | "(a, n, s) \<in> set (layout (b + fst c) cs)" "(a', n', s') = (b, fst c, snd c)"
    | "(a, n, s) \<in> set (layout (b + fst c) cs)" "(a', n', s') \<in> set (layout (b + fst c) cs)"
    using Cons.prems by auto
  then show ?case
  proof cases
    case 4
    then show ?thesis using Cons by auto
  qed (use Cons.prems b in auto)
qed simp

lemma layout_hole_cells:
  "set (layout b (xs @ (n, s) # ys)) = insert (b + csum xs, n, s) (set (layout b xs) \<union> set (layout (b + csum xs + n) ys))"
  by auto

subsection \<open>Tags\<close>

lemma tag_vec_nat: "n < 2 ^ 63 \<Longrightarrow> MICA_ALLOC_TAG_VEC n s = n + s * 2 ^ 63"
proof -
  assume n: "n < 2 ^ 63"
  have nb: "\<not> bit n k" if "63 \<le> k" for k
  proof -
    have "n < 2 ^ k" using n power_increasing [OF that, of "2 :: nat"] by linarith
    then show ?thesis by (simp add: bit_iff_odd)
  qed
  have "n AND push_bit 63 s = 0"
  proof (rule bit_eqI)
    fix k
    show "bit (n AND push_bit 63 s) k = bit 0 k"
      by (cases "63 \<le> k") (simp_all add: bit_and_iff bit_push_bit_iff_nat nb)
  qed
  then have "n + push_bit 63 s = n OR push_bit 63 s" by (rule disjunctive_add_eq_or)
  then show ?thesis unfolding MICA_ALLOC_TAG_VEC_def by (simp only: push_bit_eq_mult)
qed

lemma tag_size_status:
  assumes "n < 2 ^ 40"
  shows "MICA_ALLOC_TAG_SIZE (tag n s) = n"
    "MICA_ALLOC_TAG_STATUS (tag n s) = (if s = Occ then MICA_ALLOC_OCCUPIED else MICA_ALLOC_FREE)"
proof -
  have n: "n < 2 ^ 63" using assms by simp
  have m: "v AND (2 ^ 63 - 1) = v mod 2 ^ 63" for v :: nat
    unfolding mask_eq_exp_minus_1 [symmetric] take_bit_eq_mask [symmetric] take_bit_eq_mod ..
  show "MICA_ALLOC_TAG_SIZE (tag n s) = n"
    unfolding MICA_ALLOC_TAG_SIZE_def tag_def tag_vec_nat [OF n] m mod_mult_self1 using n by (rule mod_less)
  show "MICA_ALLOC_TAG_STATUS (tag n s) = (if s = Occ then MICA_ALLOC_OCCUPIED else MICA_ALLOC_FREE)"
    unfolding MICA_ALLOC_TAG_STATUS_def tag_def tag_vec_nat [OF n] drop_bit_eq_div using n by simp
qed

lemma tag_Occ: "tag n Occ = MICA_ALLOC_TAG_VEC n MICA_ALLOC_OCCUPIED"
  by (simp add: tag_def)

lemma rounddown_class:
  "32 \<le> n \<Longrightarrow> n < 2 ^ 40 \<Longrightarrow> mica_alloc_size_to_class_rounddown n = Inr (class_of n)"
  by (auto simp: mica_alloc_size_to_class_rounddown_def class_of_def MICA_ALLOC_MAX_SIZE_def
      MICA_ALLOC_MIN_SIZE_def MICA_ALLOC_NUM_CLASSES_def MICA_ALLOC_CLASS_INCREMENT_def)

subsection \<open>Memory access\<close>

lemma in_heap_chunk:
  assumes "chunks_wf cs" "csum cs = al_size al" "(a, n, s) \<in> set (layout (al_data al) cs)" "8 dvd i" "i + 8 \<le> n"
  shows "in_heap al (a + i)"
proof -
  have b: "al_data al \<le> a" "a + n \<le> al_data al + al_size al" using layout_bounds [OF assms(3)] assms(2) by auto
  have "a + i - al_data al = (a - al_data al) + i" using b(1) by simp
  then have "8 dvd a + i - al_data al"
    using dvd_add [OF layout_aligned [OF assms(1,3)] assms(4)] by (simp only:)
  moreover have "al_data al \<le> a + i" "a + i + 8 \<le> al_data al + al_size al" using b assms(5) by linarith+
  ultimately show ?thesis unfolding in_heap_def by (simp only: dvd_imp_mod_0)
qed

lemma heap_access:
  assumes "heap_inv al cs fl" "(a, n, s) \<in> set (layout (al_data al) cs)"
  shows "in_heap al a" "in_heap al (a + 8)" "in_heap al (a + 16)" "in_heap al (a + n - 8)"
proof -
  have wf: "chunks_wf cs" "csum cs = al_size al" using assms(1) by (simp_all add: heap_inv_def)
  have n: "32 \<le> n" "8 dvd n" using layout_wf [OF wf(1) assms(2)] by auto
  have e: "a + n - 8 = a + (n - 8)" "8 dvd n - 8" using n by auto
  show "in_heap al a" "in_heap al (a + 8)" "in_heap al (a + 16)" "in_heap al (a + n - 8)"
    unfolding e(1) using in_heap_chunk [OF wf assms(2), of 0] in_heap_chunk [OF wf assms(2), of 8]
      in_heap_chunk [OF wf assms(2), of 16] in_heap_chunk [OF wf assms(2), of "n - 8"] n e(2) by auto
qed

lemma in_heap_upd [simp]:
  "in_heap (al\<lparr>al_mem := m\<rparr>) a = in_heap al a" "in_heap (al\<lparr>free_head := h\<rparr>) a = in_heap al a"
  by (simp_all add: in_heap_def)

subsection \<open>Frames\<close>

lemma tags_ok_cong:
  assumes "tags_ok m C" "\<And>a n s. (a, n, s) \<in> C \<Longrightarrow> s \<noteq> Hole \<Longrightarrow> m' a = m a \<and> m' (a + n - 8) = m (a + n - 8)"
  shows "tags_ok m' C"
  using assms unfolding tags_ok_def by metis

lemma dll_cong:
  "(\<And>x. x \<in> set xs \<Longrightarrow> m' (x + 8) = m (x + 8) \<and> m' (x + 16) = m (x + 16)) \<Longrightarrow> dll m' p xs = dll m p xs"
  by (induction xs arbitrary: p) auto

lemma hd0_simps [simp]: "hd0 [] = 0" "hd0 (x # xs) = x"
  by (simp_all add: hd0_def)

lemma hd0_append: "hd0 (xs @ ys) = (if xs = [] then hd0 ys else hd xs)"
  by (cases xs) auto

text \<open>Unlinking one element, with the pointer fields of the list at separate addresses.\<close>

lemma dll_at:
  "dll m p (us @ a # vs) \<Longrightarrow> m (a + 8) = (if us = [] then p else last us) \<and> m (a + 16) = hd0 vs"
  by (induction us arbitrary: p) auto

lemma dll_remove:
  fixes us vs :: "nat list"
  assumes "dll m p (us @ a # vs)" "distinct (us @ a # vs)"
    and "\<And>x y. x \<in> set (us @ a # vs) \<Longrightarrow> y \<in> set (us @ a # vs) \<Longrightarrow> x + 8 \<noteq> y + 16"
    and "us \<noteq> [] \<Longrightarrow> m' (last us + 16) = hd0 vs" and "vs \<noteq> [] \<Longrightarrow> m' (hd vs + 8) = (if us = [] then p else last us)"
    and "\<And>x. x \<in> set (us @ vs) \<Longrightarrow> us = [] \<or> x \<noteq> last us \<Longrightarrow> m' (x + 16) = m (x + 16)"
    and "\<And>x. x \<in> set (us @ vs) \<Longrightarrow> vs = [] \<or> x \<noteq> hd vs \<Longrightarrow> m' (x + 8) = m (x + 8)"
  shows "dll m' p (us @ vs)"
  using assms
proof (induction us arbitrary: p)
  case Nil
  show ?case
  proof (cases vs)
    case (Cons v vs')
    have "dll m' v vs' = dll m v vs'"
    proof (rule dll_cong)
      fix x assume "x \<in> set vs'"
      then show "m' (x + 8) = m (x + 8) \<and> m' (x + 16) = m (x + 16)"
        using Nil(2) Nil(6) [of x] Nil(7) [of x] Cons by auto
    qed
    then show ?thesis using Nil(1,5) Nil(6) [of v] Cons by simp
  qed simp
next
  case (Cons u us)
  show ?case
  proof (cases "us = []")
    case True
    have "dll m' u vs"
    proof (cases vs)
      case (Cons v vs')
      have "dll m' v vs' = dll m v vs'"
      proof (rule dll_cong)
        fix x assume "x \<in> set vs'"
        then show "m' (x + 8) = m (x + 8) \<and> m' (x + 16) = m (x + 16)"
          using Cons.prems(2) Cons.prems(6) [of x] Cons.prems(7) [of x] Cons True by auto
      qed
      then show ?thesis using Cons.prems(1,2,5) Cons.prems(6) [of v] Cons True by auto
    qed simp
    moreover have "m' (u + 8) = p"
      using Cons.prems(1,2) Cons.prems(7) [of u] by (cases vs) auto
    ultimately show ?thesis using Cons.prems(4) True by simp
  next
    case False
    then have l: "last (u # us) = last us" by simp
    have "dll m' u (us @ vs)"
      using Cons.prems False by (intro Cons.IH) auto
    moreover have "m' (u + 8) = p" using Cons.prems(1,2) Cons.prems(7) [of u] by (cases vs) auto
    moreover have "u \<noteq> last us" using Cons.prems(2) False by (metis append_Cons distinct.simps(2) last_in_set Un_iff set_append)
    then have "m' (u + 16) = hd0 (us @ vs)"
      using Cons.prems(1) Cons.prems(6) [of u] False by (simp add: hd0_append)
    ultimately show ?thesis by simp
  qed
qed

subsection \<open>Relabelling and stores into a detached chunk\<close>

text \<open>The free chunks are those of the lists, and their list fields are apart from each other.\<close>

lemma heap_invD:
  assumes "heap_inv al cs fl"
  shows "0 < al_data al" "csum cs = al_size al" "al_size al < 2 ^ 40" "chunks_wf cs"
    "tags_ok (al_mem al) (set (layout (al_data al) cs))"
    "lists_ok (al_mem al) (free_head al) (set (layout (al_data al) cs)) fl"
  using assms by (simp_all add: heap_inv_def)

lemma free_listD:
  assumes "heap_inv al cs fl" "x \<in> set (fl c)" "c < 32"
  obtains n where "(x, n, Free) \<in> set (layout (al_data al) cs)" "class_of n = c" "32 \<le> n" "0 < x"
proof -
  obtain n where n: "(x, n, Free) \<in> set (layout (al_data al) cs)" "class_of n = c"
    using heap_invD(6) [OF assms(1)] assms(2,3) unfolding lists_ok_def by blast
  then show ?thesis
    using that layout_wf [OF heap_invD(4) [OF assms(1)] n(1)] layout_bounds [OF n(1)] heap_invD(1) [OF assms(1)] by auto
qed

lemma heap_cell_inj:
  assumes "heap_inv al cs fl" "(a, n, s) \<in> set (layout (al_data al) cs)" "(a', n', s') \<in> set (layout (al_data al) cs)"
    and "i < n" "j < n'" "a + i = a' + j"
  shows "a = a' \<and> n = n' \<and> s = s' \<and> i = j"
  using chunk_inj [OF heap_invD(4) [OF assms(1)] assms(2-6)] .

lemma chunk_size_bound:
  assumes "heap_inv al cs fl" "(a, n, s) \<in> set (layout (al_data al) cs)"
  shows "32 \<le> n" "8 dvd n" "n < 2 ^ 40" "0 < a"
  using layout_wf [OF heap_invD(4) [OF assms(1)] assms(2)] layout_bounds [OF assms(2)] heap_invD(1-3) [OF assms(1)]
  by auto

lemma heap_inv_relabel:
  assumes inv: "heap_inv al cs fl" and cs': "csum cs' = csum cs" "chunks_wf cs'"
    and sub: "\<And>a n s. (a, n, s) \<in> set (layout (al_data al) cs') \<Longrightarrow> s \<noteq> Hole \<Longrightarrow> (a, n, s) \<in> set (layout (al_data al) cs)"
    and free: "\<And>a n. (a, n, Free) \<in> set (layout (al_data al) cs) \<Longrightarrow> (a, n, Free) \<in> set (layout (al_data al) cs')"
  shows "heap_inv al cs' fl"
proof -
  have "{a. \<exists>n. (a, n, Free) \<in> set (layout (al_data al) cs') \<and> class_of n = c}
      = {a. \<exists>n. (a, n, Free) \<in> set (layout (al_data al) cs) \<and> class_of n = c}" for c
    using sub free by blast
  then have "lists_ok (al_mem al) (free_head al) (set (layout (al_data al) cs')) fl"
    using heap_invD(6) [OF inv] by (simp add: lists_ok_def)
  moreover have "tags_ok (al_mem al) (set (layout (al_data al) cs'))"
    using heap_invD(5) [OF inv] sub unfolding tags_ok_def by blast
  ultimately show ?thesis using heap_invD(1-3) [OF inv] cs' by (simp add: heap_inv_def)
qed

lemma release_chunk: "heap_inv al (xs @ (n, Occ) # ys) fl \<Longrightarrow> heap_inv al (xs @ (n, Hole) # ys) fl"
  by (rule heap_inv_relabel) (auto dest: heap_invD(4))

lemma merge_holes:
  "heap_inv al (xs @ (n1, Hole) # (n2, Hole) # ys) fl \<Longrightarrow> heap_inv al (xs @ (n1 + n2, Hole) # ys) fl"
  by (rule heap_inv_relabel) (auto dest: heap_invD(4) simp: add.assoc)

lemma split_hole:
  "heap_inv al (xs @ (n1 + n2, Hole) # ys) fl \<Longrightarrow> 32 \<le> n1 \<Longrightarrow> 8 dvd n1 \<Longrightarrow> 32 \<le> n2 \<Longrightarrow> 8 dvd n2 \<Longrightarrow>
     heap_inv al (xs @ (n1, Hole) # (n2, Hole) # ys) fl"
  by (rule heap_inv_relabel) (auto dest: heap_invD(4) simp: add.assoc)

lemma dll_upd:
  assumes "heap_inv al cs fl" "c < 32" "(a, n, Hole) \<in> set (layout (al_data al) cs)" "i < n"
  shows "dll ((al_mem al)(a + i := v)) p (fl c) = dll (al_mem al) p (fl c)"
proof (rule dll_cong)
  fix x assume "x \<in> set (fl c)"
  then obtain k where k: "(x, k, Free) \<in> set (layout (al_data al) cs)" "32 \<le> k"
    using free_listD [OF assms(1) _ assms(2)] by metis
  have "x + 8 \<noteq> a + i" "x + 16 \<noteq> a + i"
    using heap_cell_inj [OF assms(1) k(1) assms(3) _ assms(4)] k(2) by fastforce+
  then show "((al_mem al)(a + i := v)) (x + 8) = al_mem al (x + 8) \<and> ((al_mem al)(a + i := v)) (x + 16) = al_mem al (x + 16)"
    by simp
qed

lemma hole_store:
  assumes inv: "heap_inv al cs fl" and h: "(a, n, Hole) \<in> set (layout (al_data al) cs)" and i: "i < n"
  shows "heap_inv (al\<lparr>al_mem := (al_mem al)(a + i := v)\<rparr>) cs fl"
proof -
  have "tags_ok ((al_mem al)(a + i := v)) (set (layout (al_data al) cs))"
  proof (rule tags_ok_cong [OF heap_invD(5) [OF inv]])
    fix a' n' s' assume c: "(a', n', s') \<in> set (layout (al_data al) cs)" "s' \<noteq> Hole"
    have n': "32 \<le> n'" using chunk_size_bound [OF inv c(1)] by simp
    have "a' + 0 \<noteq> a + i" "a' + (n' - 8) \<noteq> a + i"
      using heap_cell_inj [OF inv c(1) h _ i, of 0] heap_cell_inj [OF inv c(1) h _ i, of "n' - 8"] c(2) n' by auto
    then show "((al_mem al)(a + i := v)) a' = al_mem al a' \<and> ((al_mem al)(a + i := v)) (a' + n' - 8) = al_mem al (a' + n' - 8)"
      using n' by auto
  qed
  moreover have "lists_ok ((al_mem al)(a + i := v)) (free_head al) (set (layout (al_data al) cs)) fl"
    using heap_invD(6) [OF inv] dll_upd [OF inv _ h i] by (simp add: lists_ok_def)
  ultimately show ?thesis using heap_invD(1-4) [OF inv] by (simp add: heap_inv_def)
qed

lemma hole_in_layout: "(b + csum xs, n, s) \<in> set (layout b (xs @ (n, s) # ys))"
  by simp

lemma mark_occupied:
  assumes inv: "heap_inv al (xs @ (n, Hole) # ys) fl"
    and t: "al_mem al (al_data al + csum xs) = tag n Occ" "al_mem al (al_data al + csum xs + n - 8) = tag n Occ"
  shows "heap_inv al (xs @ (n, Occ) # ys) fl"
proof -
  have "tags_ok (al_mem al) (set (layout (al_data al) (xs @ (n, Occ) # ys)))"
    using heap_invD(5) [OF inv] t unfolding tags_ok_def layout_hole_cells by blast
  moreover have "lists_ok (al_mem al) (free_head al) (set (layout (al_data al) (xs @ (n, Occ) # ys))) fl"
    using heap_invD(6) [OF inv] unfolding lists_ok_def layout_hole_cells by simp
  ultimately show ?thesis using heap_invD(1-4) [OF inv] by (simp add: heap_inv_def)
qed

subsection \<open>Linking and unlinking\<close>

text \<open>A list field of a free chunk is not a boundary tag.\<close>

lemma field_not_tag:
  assumes "heap_inv al cs fl" "(x, k, Free) \<in> set (layout (al_data al) cs)" "(a, n, s) \<in> set (layout (al_data al) cs)"
    and "i = 8 \<or> i = 16"
  shows "x + i \<noteq> a" "x + i \<noteq> a + n - 8"
proof -
  note kn = chunk_size_bound(1) [OF assms(1,2)] chunk_size_bound(1) [OF assms(1,3)]
  show "x + i \<noteq> a" using heap_cell_inj [OF assms(1-3), of i 0] kn assms(4) by auto
  show "x + i \<noteq> a + n - 8" using heap_cell_inj [OF assms(1-3), of i "n - 8"] kn assms(4) by auto
qed

lemma field_apart:
  assumes "heap_inv al cs fl" "(x, k, s) \<in> set (layout (al_data al) cs)" "(y, l, s') \<in> set (layout (al_data al) cs)"
  shows "x + 8 \<noteq> y + 16" "x \<noteq> y \<Longrightarrow> x + 8 \<noteq> y + 8 \<and> x + 16 \<noteq> y + 16" "x = y \<Longrightarrow> k = l"
proof -
  note kn = chunk_size_bound(1) [OF assms(1,2)] chunk_size_bound(1) [OF assms(1,3)]
  show "x + 8 \<noteq> y + 16" using heap_cell_inj [OF assms(1-3), of 8 16] kn by auto
  show "x \<noteq> y \<Longrightarrow> x + 8 \<noteq> y + 8 \<and> x + 16 \<noteq> y + 16" by simp
  show "x = y \<Longrightarrow> k = l" using heap_cell_inj [OF assms(1-3), of 0 0] kn by auto
qed

lemma tags_frame:
  assumes inv: "heap_inv al cs fl" and x: "(x, k, Free) \<in> set (layout (al_data al) cs)" and i: "i = 8 \<or> i = 16"
    and m: "tags_ok m C" "C \<subseteq> set (layout (al_data al) cs)"
  shows "tags_ok (m(x + i := v)) C"
proof (rule tags_ok_cong [OF m(1)])
  fix a n s assume "(a, n, s) \<in> C"
  then have "(a, n, s) \<in> set (layout (al_data al) cs)" using m(2) by blast
  from field_not_tag [OF inv x this i] show "(m(x + i := v)) a = m a \<and> (m(x + i := v)) (a + n - 8) = m (a + n - 8)"
    by auto
qed

lemma class_of_less: "class_of n < 32"
  by (simp add: class_of_def)

lemma link_free:
  assumes inv: "heap_inv al (xs @ (n, Hole) # ys) fl"
  defines "a \<equiv> al_data al + csum xs" and "c \<equiv> class_of n" and "m \<equiv> al_mem al"
  assumes t: "m a = tag n Free" "m (a + n - 8) = tag n Free" and p: "m (a + 8) = 0" "m (a + 16) = hd0 (fl c)"
  shows "heap_inv (al\<lparr>al_mem := (if fl c = [] then m else m(hd (fl c) + 8 := a)),
      free_head := (free_head al)(c := a)\<rparr>) (xs @ (n, Free) # ys) (fl(c := a # fl c))"
proof -
  let ?cs = "xs @ (n, Hole) # ys" and ?cs' = "xs @ (n, Free) # ys" and ?b = "al_data al"
  define m' where "m' = (if fl c = [] then m else m(hd (fl c) + 8 := a))"
  define R where "R = set (layout ?b xs) \<union> set (layout (a + n) ys)"
  have C: "set (layout ?b ?cs) = insert (a, n, Hole) R" "set (layout ?b ?cs') = insert (a, n, Free) R"
    unfolding R_def a_def layout_hole_cells by (rule refl)+
  have c: "c < 32" by (simp add: c_def class_of_less)
  have aC: "(a, n, Hole) \<in> set (layout ?b ?cs)" "R \<subseteq> set (layout ?b ?cs)" unfolding C by auto
  have hdC: "\<exists>k. (x, k, Free) \<in> set (layout ?b ?cs) \<and> class_of k = d \<and> x \<noteq> a" if xd: "x \<in> set (fl d)" "d < 32" for x d
  proof -
    obtain k where k: "(x, k, Free) \<in> set (layout ?b ?cs)" "class_of k = d" using free_listD [OF inv xd] .
    then have "x \<noteq> a"
      using heap_cell_inj [OF inv k(1) aC(1), of 0 0] chunk_size_bound(1) [OF inv k(1)] chunk_size_bound(1) [OF inv aC(1)] by auto
    with k show ?thesis by blast
  qed
  have tR: "tags_ok m R" using heap_invD(5) [OF inv] unfolding C m_def tags_ok_def by blast
  have hdk: "\<exists>k. (hd (fl c), k, Free) \<in> set (layout ?b ?cs) \<and> class_of k = c \<and> hd (fl c) \<noteq> a" if "fl c \<noteq> []"
    using that by (intro hdC c) simp
  have hd': "hd (fl c) + 8 \<noteq> a \<and> hd (fl c) + 8 \<noteq> a + n - 8 \<and> hd (fl c) + 8 \<noteq> a + 16 \<and> hd (fl c) \<noteq> a" if "fl c \<noteq> []"
    using hdk [OF that] field_not_tag [OF inv _ aC(1), of "hd (fl c)" _ 8] field_apart(1) [OF inv _ aC(1), of "hd (fl c)"]
    by blast
  have "tags_ok m' R"
  proof (cases "fl c = []")
    case False
    then show ?thesis using hdk tags_frame [OF inv _ _ tR aC(2), of "hd (fl c)" _ 8 a] by (auto simp: m'_def)
  qed (simp add: m'_def tR)
  moreover have "m' a = tag n Free" "m' (a + n - 8) = tag n Free" using t hd' by (auto simp: m'_def)
  ultimately have tags: "tags_ok m' (set (layout ?b ?cs'))" unfolding C tags_ok_def by blast
  have old: "distinct (fl d)" "set (fl d) = {x. \<exists>k. (x, k, Free) \<in> R \<and> class_of k = d}" "free_head al d = hd0 (fl d)" "dll m 0 (fl d)"
    if "d < 32" for d
    using heap_invD(6) [OF inv] that unfolding lists_ok_def C m_def by auto
  have other: "dll m' 0 (fl d)" if "d < 32" "d \<noteq> c" for d
  proof -
    have "dll m' 0 (fl d) = dll m 0 (fl d)"
    proof (rule dll_cong)
      fix x assume x: "x \<in> set (fl d)"
      have "hd (fl c) \<noteq> x \<and> hd (fl c) + 8 \<noteq> x + 16" if ne: "fl c \<noteq> []"
      proof -
        obtain k l where kl: "(x, k, Free) \<in> set (layout ?b ?cs)" "class_of k = d"
          "(hd (fl c), l, Free) \<in> set (layout ?b ?cs)" "class_of l = c"
          using hdC [OF x \<open>d < 32\<close>] hdk [OF ne] by blast
        show ?thesis using field_apart(1,3) [OF inv kl(3,1)] kl(2,4) \<open>d \<noteq> c\<close> by auto
      qed
      then show "m' (x + 8) = m (x + 8) \<and> m' (x + 16) = m (x + 16)" by (auto simp: m'_def)
    qed
    then show ?thesis using old(4) [OF that(1)] by simp
  qed
  have own: "dll m' 0 (a # fl c)"
  proof (cases "fl c")
    case Nil
    then show ?thesis using p by (simp add: m'_def)
  next
    case (Cons x zs)
    have "dll m' x zs = dll m x zs"
    proof (rule dll_cong)
      fix z assume z: "z \<in> set zs"
      then have "z \<noteq> x" "z \<in> set (fl c)" using old(1) [OF c] Cons by auto
      then show "m' (z + 8) = m (z + 8) \<and> m' (z + 16) = m (z + 16)"
        using hdC [of z c] hdk c Cons field_apart(1) [OF inv, of x _ Free z] by (auto simp: m'_def)
    qed
    moreover have "m' (x + 16) = m (x + 16)" by (simp add: m'_def Cons)
    ultimately show ?thesis using p old(4) [OF c] hd' Cons by (simp add: m'_def)
  qed
  have "lists_ok m' ((free_head al)(c := a)) (set (layout ?b ?cs')) (fl(c := a # fl c))"
    unfolding lists_ok_def
  proof (intro allI impI)
    fix d :: nat assume d: "d < 32"
    have "a \<notin> set (fl c)" using hdC c by blast
    then show "distinct ((fl(c := a # fl c)) d)
      \<and> set ((fl(c := a # fl c)) d) = {x. \<exists>k. (x, k, Free) \<in> set (layout ?b ?cs') \<and> class_of k = d}
      \<and> ((free_head al)(c := a)) d = hd0 ((fl(c := a # fl c)) d) \<and> dll m' 0 ((fl(c := a # fl c)) d)"
      using old [OF d] other [OF d] own unfolding C by (cases "d = c") (auto simp: c_def)
  qed
  with tags show ?thesis
    using heap_invD(1-4) [OF inv] unfolding m'_def [symmetric] by (simp add: heap_inv_def)
qed

text \<open>The memory after unlinking an element between \<open>us\<close> and \<open>vs\<close>.\<close>

definition unlinked :: "(nat \<Rightarrow> nat) \<Rightarrow> nat list \<Rightarrow> nat list \<Rightarrow> nat \<Rightarrow> nat" where
  "unlinked m us vs =
     (let m1 = (if us = [] then m else m(last us + 16 := hd0 vs))
      in if vs = [] then m1 else m1(hd vs + 8 := (if us = [] then 0 else last us)))"

lemma unlink_inv:
  assumes inv: "heap_inv al (xs @ (n, Free) # ys) fl"
  defines "a \<equiv> al_data al + csum xs" and "c \<equiv> class_of n"
  assumes uv: "fl c = us @ a # vs"
  shows "heap_inv (al\<lparr>al_mem := unlinked (al_mem al) us vs, free_head := (free_head al)(c := hd0 (us @ vs))\<rparr>)
    (xs @ (n, Hole) # ys) (fl(c := us @ vs))"
proof -
  let ?cs = "xs @ (n, Free) # ys" and ?cs' = "xs @ (n, Hole) # ys" and ?b = "al_data al"
  define m where "m = al_mem al"
  define m' where "m' = unlinked m us vs"
  define R where "R = set (layout ?b xs) \<union> set (layout (a + n) ys)"
  have C: "set (layout ?b ?cs) = insert (a, n, Free) R" "set (layout ?b ?cs') = insert (a, n, Hole) R"
    unfolding R_def a_def layout_hole_cells by (rule refl)+
  have RC: "R \<subseteq> set (layout ?b ?cs)" "(a, n, Free) \<in> set (layout ?b ?cs)" unfolding C by auto
  have c: "c < 32" by (simp add: c_def class_of_less)
  have el: "\<exists>k. (x, k, Free) \<in> set (layout ?b ?cs) \<and> class_of k = d" if xd: "x \<in> set (fl d)" "d < 32" for x d
    using free_listD [OF inv xd] by blast
  have old: "distinct (fl d)" "set (fl d) = {x. \<exists>k. (x, k, Free) \<in> insert (a, n, Free) R \<and> class_of k = d}"
    "free_head al d = hd0 (fl d)" "dll m 0 (fl d)" if "d < 32" for d
    using heap_invD(6) [OF inv] that unfolding lists_ok_def C m_def by auto
  have aR: "(a, k, s) \<notin> R" for k s
  proof
    assume "(a, k, s) \<in> R"
    then have "(a, k, s) \<in> set (layout ?b xs) \<or> (a, k, s) \<in> set (layout (a + n) ys)" by (simp add: R_def)
    moreover have "32 \<le> k" using chunk_size_bound(1) [OF inv] RC(1) \<open>(a, k, s) \<in> R\<close> by blast
    moreover have "32 \<le> n" using chunk_size_bound(1) [OF inv RC(2)] .
    ultimately show False using layout_bounds [of a k s] by (fastforce simp: a_def)
  qed
  have apart: "x + 8 \<noteq> y + 16" "x = y \<Longrightarrow> d = e" if "x \<in> set (fl d)" "y \<in> set (fl e)" "d < 32" "e < 32" for x y d e
    using el [OF that(1,3)] el [OF that(2,4)] field_apart(1,3) [OF inv] by blast+
  have frame: "m' (x + 8) = m (x + 8)" if "x \<in> set (fl d)" "d < 32" "d \<noteq> c \<or> vs = [] \<or> x \<noteq> hd vs" for x d
    using that c uv apart [of x d "last us" c] apart [of x d "hd vs" c]
    by (auto simp: m'_def unlinked_def Let_def)
  have frame': "m' (x + 16) = m (x + 16)" if "x \<in> set (fl d)" "d < 32" "d \<noteq> c \<or> us = [] \<or> x \<noteq> last us" for x d
    using that c uv apart(2) [of x d "last us" c] apart(1) [of "hd vs" c x d]
    by (auto simp: m'_def unlinked_def Let_def)
  have ends: "us \<noteq> [] \<Longrightarrow> m' (last us + 16) = hd0 vs" "vs \<noteq> [] \<Longrightarrow> m' (hd vs + 8) = (if us = [] then 0 else last us)"
    using c uv apart(1) [of "hd vs" c "last us" c] by (auto simp: m'_def unlinked_def Let_def)
  have tf: "tags_ok (mm(x + i := v)) R" if "x \<in> set (fl c)" "i = 8 \<or> i = 16" "tags_ok mm R" for x i v mm
    using el [OF that(1) c] tags_frame [OF inv _ that(2,3) RC(1)] by blast
  have "dll m' 0 (us @ vs)"
    using old(1,4) [OF c] uv apart(1) [OF _ _ c c] frame [OF _ c] frame' [OF _ c] ends
    by (intro dll_remove [of m 0 us a vs]) auto
  moreover have "dll m' 0 (fl d)" if "d < 32" "d \<noteq> c" for d
    using old(4) [OF that(1)] dll_cong [of "fl d" m' m 0] frame [OF _ that(1)] frame' [OF _ that(1)] that(2) by simp
  moreover have "set (us @ vs) = {x. \<exists>k. (x, k, Free) \<in> R \<and> class_of k = c}"
  proof -
    have "set (us @ vs) = set (fl c) - {a}" using old(1) [OF c] uv by auto
    also have "\<dots> = {x. \<exists>k. (x, k, Free) \<in> R \<and> class_of k = c}" unfolding old(2) [OF c] using aR by blast
    finally show ?thesis .
  qed
  moreover have "set (fl d) = {x. \<exists>k. (x, k, Free) \<in> R \<and> class_of k = d}" if "d < 32" "d \<noteq> c" for d
    using old(2) [OF that(1)] that(2) by (auto simp: c_def)
  moreover have "distinct (us @ vs)" using old(1) [OF c] uv by simp
  ultimately have "lists_ok m' ((free_head al)(c := hd0 (us @ vs))) (set (layout ?b ?cs')) (fl(c := us @ vs))"
    using old(1,3) uv c unfolding C lists_ok_def by auto
  moreover have "tags_ok m R" using heap_invD(5) [OF inv] unfolding C m_def tags_ok_def by blast
  then have "tags_ok m' R"
    using tf [of "last us" 16 m] tf [of "hd vs" 8] uv by (auto simp: m'_def unlinked_def Let_def)
  then have "tags_ok m' (set (layout ?b ?cs'))" unfolding C tags_ok_def by blast
  ultimately show ?thesis
    using heap_invD(1-4) [OF inv] by (simp add: heap_inv_def m'_def m_def)
qed

lemma remove_free_chunk:
  assumes inv: "heap_inv al (xs @ (n, Free) # ys) fl"
  defines "a \<equiv> al_data al + csum xs" and "c \<equiv> class_of n"
  obtains al' fl' where "mica_alloc_remove_free_chunk_from_free_list al a n = Inr al'"
    "heap_inv al' (xs @ (n, Hole) # ys) fl'" "al_data al' = al_data al" "al_size al' = al_size al"
proof -
  have aC: "(a, n, Free) \<in> set (layout (al_data al) (xs @ (n, Free) # ys))" unfolding a_def by simp
  have c: "c < 32" by (simp add: c_def class_of_less)
  note L = heap_invD(6) [OF inv, unfolded lists_ok_def, rule_format, OF c]
  have "a \<in> set (fl c)" using L aC c_def by blast
  then obtain us vs where uv: "fl c = us @ a # vs" by (auto simp: in_set_conv_decomp)
  have at: "al_mem al (a + 8) = (if us = [] then 0 else last us)" "al_mem al (a + 16) = hd0 vs"
    "free_head al c = hd0 (us @ a # vs)"
    using dll_at [of "al_mem al" 0 us a vs] L [unfolded uv] by auto
  have ah: "in_heap al (a + 8)" "in_heap al (a + 16)" by (rule heap_access [OF inv aC])+
  have pos: "x \<in> set (fl c) \<Longrightarrow> 0 < x \<and> in_heap al (x + 8) \<and> in_heap al (x + 16)" for x
    using free_listD [OF inv _ c, of x] heap_access(2,3) [OF inv, of x] by metis
  have n: "32 \<le> n" "n < 2 ^ 40" using chunk_size_bound [OF inv aC] by auto
  have us: "us \<noteq> [] \<Longrightarrow> 0 < last us \<and> in_heap al (last us + 16)" using pos [of "last us"] uv by simp
  have vs: "vs \<noteq> [] \<Longrightarrow> 0 < hd vs \<and> in_heap al (hd vs + 8)" using pos [of "hd vs"] uv by simp
  have hv: "hd0 vs = 0 \<longleftrightarrow> vs = []" "vs \<noteq> [] \<Longrightarrow> hd0 vs = hd vs" using vs by (cases vs; simp)+
  let ?al' = "al\<lparr>al_mem := unlinked (al_mem al) us vs, free_head := (free_head al)(c := hd0 (us @ vs))\<rparr>"
  have h: "us \<noteq> [] \<Longrightarrow> (free_head al)(c := hd0 (us @ vs)) = free_head al" using at(3) by (auto simp: hd0_append fun_upd_idem)
  have "mica_alloc_remove_free_chunk_from_free_list al a n = Inr ?al'"
  proof (cases "us = []")
    case True
    then show ?thesis
      using at ah vs hv rounddown_class [OF n]
      by (cases "vs = []") (simp_all add: mica_alloc_remove_free_chunk_from_free_list_def ld_def st_def unlinked_def c_def)
  next
    case False
    then show ?thesis
      using at ah us vs hv h
      by (cases "vs = []") (simp_all add: mica_alloc_remove_free_chunk_from_free_list_def ld_def st_def unlinked_def Let_def)
  qed
  moreover have "heap_inv ?al' (xs @ (n, Hole) # ys) (fl(c := us @ vs))"
    unfolding c_def by (rule unlink_inv [OF inv]) (use uv in \<open>simp add: c_def a_def\<close>)
  ultimately show ?thesis using that by simp
qed

lemma insert_free_chunk:
  assumes inv: "heap_inv al (xs @ (n, Hole) # ys) fl"
  defines "a \<equiv> al_data al + csum xs"
  obtains al' fl' where "mica_alloc_insert_free_chunk al a n = Inr al'"
    "heap_inv al' (xs @ (n, Free) # ys) fl'" "al_data al' = al_data al" "al_size al' = al_size al"
proof -
  let ?cs = "xs @ (n, Hole) # ys"
  define c where "c = class_of n"
  have aC: "(a, n, Hole) \<in> set (layout (al_data al) ?cs)" unfolding a_def by simp
  have n: "32 \<le> n" "n < 2 ^ 40" using chunk_size_bound [OF inv aC] by auto
  have c: "c < 32" by (simp add: c_def class_of_less)
  have old: "free_head al c = hd0 (fl c)" using heap_invD(6) [OF inv] c by (simp add: lists_ok_def)
  define m where "m = (al_mem al)(a + (n - 8) := tag n Free, a + 0 := tag n Free, a + 8 := 0, a + 16 := hd0 (fl c))"
  define al4 where "al4 = al\<lparr>al_mem := m\<rparr>"
  have inv4: "heap_inv al4 ?cs fl"
  proof -
    have s: "heap_inv (al\<lparr>al_mem := mm(a + i := v)\<rparr>) ?cs fl" if "heap_inv (al\<lparr>al_mem := mm\<rparr>) ?cs fl" "i < n" for mm i v
      using hole_store [OF that(1) _ that(2), of a v] aC by simp
    show ?thesis unfolding al4_def m_def using n inv by (intro s) simp_all
  qed
  have m4: "m a = tag n Free" "m (a + n - 8) = tag n Free" "m (a + 8) = 0" "m (a + 16) = hd0 (fl c)"
    using n by (auto simp: m_def)
  have hd: "hd (fl c) \<noteq> 0 \<and> in_heap al (hd (fl c) + 8) \<and> m (hd (fl c) + 8) = 0" if ne: "fl c \<noteq> []"
  proof -
    have h: "hd (fl c) \<in> set (fl c)" using ne by simp
    then obtain k where "(hd (fl c), k, Free) \<in> set (layout (al_data al) ?cs)" "0 < hd (fl c)"
      by (rule free_listD [OF inv _ c])
    moreover have "dll m 0 (fl c)" using heap_invD(6) [OF inv4] c by (simp add: lists_ok_def al4_def)
    ultimately show ?thesis using heap_access(2) [OF inv] ne by (cases "fl c") auto
  qed
  have d4: "al_data al4 = al_data al" "al_mem al4 = m" by (simp_all add: al4_def)
  let ?al' = "al4\<lparr>al_mem := (if fl c = [] then m else m(hd (fl c) + 8 := a)), free_head := (free_head al4)(c := a)\<rparr>"
  have e: "a + n - 8 = a + (n - 8)" using n by simp
  have "mica_alloc_insert_free_chunk al a n = Inr ?al'"
  proof (cases "fl c = []")
    case True
    then show ?thesis
      using heap_access [OF inv aC] old
      by (simp add: mica_alloc_insert_free_chunk_def rounddown_class [OF n] Let_def st_def c_def [symmetric] al4_def m_def tag_def e)
  next
    case False
    then have h0: "hd0 (fl c) = hd (fl c)" by (cases "fl c") auto
    have mm: "((al_mem al)(a + (n - 8) := tag n Free, a := tag n Free, a + 8 := 0, a + 16 := hd (fl c))) = m"
      by (simp add: m_def h0)
    show ?thesis
      using heap_access [OF inv aC] old hd [OF False] False
      by (simp add: mica_alloc_insert_free_chunk_def rounddown_class [OF n] Let_def st_def ld_def c_def [symmetric] al4_def
          tag_def [of _ Free, simplified, symmetric] e h0 mm)
  qed
  moreover have "heap_inv ?al' (xs @ (n, Free) # ys) (fl(c := a # fl c))"
    by (rule link_free [OF inv4, unfolded d4, folded a_def c_def, OF m4])
  ultimately show ?thesis using that by (simp add: al4_def)
qed

subsection \<open>Initialisation\<close>

lemma init_heap:
  assumes "mica_alloc_init malloc size0 numa = Inr al"
  obtains fl where "heap_inv al [(al_size al, Free)] fl" "al_size al = MICA_ROUNDUP2M size0" "al_data al = malloc (al_size al)"
proof -
  define al0 where "al0 = \<lparr>al_lock = 0, al_size = MICA_ROUNDUP2M size0, al_data = malloc (MICA_ROUNDUP2M size0),
    free_head = (\<lambda>_. 0), al_mem = (\<lambda>_. 0)\<rparr>"
  let ?n = "MICA_ROUNDUP2M size0"
  have g: "?n \<le> MICA_ALLOC_MAX_SIZE" "0 < malloc ?n" and ins: "mica_alloc_insert_free_chunk al0 (malloc ?n) ?n = Inr al"
    using assms by (auto simp: mica_alloc_init_def mica_alloc_reset_def res_simps Let_def al0_def)
  have "32 \<le> ?n"
    using ins by (auto simp: mica_alloc_insert_free_chunk_def mica_alloc_size_to_class_rounddown_def res_simps MICA_ALLOC_MIN_SIZE_def)
  moreover have "8 dvd ?n" unfolding MICA_ROUNDUP2M_def by (simp add: dvd_mult)
  ultimately have "heap_inv al0 ([] @ (?n, Hole) # []) (\<lambda>_. [])"
    using g by (auto simp: heap_inv_def al0_def tags_ok_def lists_ok_def MICA_ALLOC_MAX_SIZE_def)
  from insert_free_chunk [OF this] ins that show ?thesis by (auto simp: al0_def)
qed

lemma alloc_init_ok:
  assumes "0 < size0" "size0 \<le> 2 ^ 40 - 2097152" "numa \<le> 7" "malloc (MICA_ROUNDUP2M size0) \<noteq> 0"
  shows "returns (mica_alloc_init malloc size0 numa)"
proof -
  let ?n = "MICA_ROUNDUP2M size0"
  define al0 where "al0 = \<lparr>al_lock = 0, al_size = ?n, al_data = malloc ?n,
    free_head = (\<lambda>_. 0), al_mem = (\<lambda>_. 0)\<rparr>"
  have "1 \<le> (size0 + 2097151) div 2097152" using assms(1) by (simp add: Suc_leI div_greater_zero_iff)
  moreover have "?n \<le> size0 + 2097151" unfolding MICA_ROUNDUP2M_def by (rule div_times_less_eq_dividend)
  ultimately have n: "2097152 \<le> ?n" "?n < 2 ^ 40" using assms(2) by (simp_all add: MICA_ROUNDUP2M_def)
  have "8 dvd ?n" unfolding MICA_ROUNDUP2M_def by (simp add: dvd_mult)
  then have "heap_inv al0 ([] @ (?n, Hole) # []) (\<lambda>_. [])"
    using n assms(4) by (auto simp: heap_inv_def al0_def tags_ok_def lists_ok_def)
  then obtain al' where "mica_alloc_insert_free_chunk al0 (al_data al0 + csum []) ?n = Inr al'"
    by (rule insert_free_chunk)
  then show ?thesis
    using assms n by (simp add: mica_alloc_init_def mica_alloc_reset_def al0_def Let_def MICA_ALLOC_MAX_SIZE_def)
qed

subsection \<open>Deallocation\<close>

definition no_hole :: "(nat \<times> cstat) list \<Rightarrow> bool" where
  "no_hole cs \<longleftrightarrow> (\<forall>c\<in>set cs. snd c \<noteq> Hole)"

lemma no_hole_simps [simp]:
  "no_hole []" "no_hole (c # cs) \<longleftrightarrow> snd c \<noteq> Hole \<and> no_hole cs" "no_hole (xs @ ys) \<longleftrightarrow> no_hole xs \<and> no_hole ys"
  by (auto simp: no_hole_def)

text \<open>What freeing the chunk between \<open>xs\<close> and \<open>ys\<close> makes of the sequence.\<close>

definition left_free :: "(nat \<times> cstat) list \<Rightarrow> (nat \<times> cstat) list \<times> nat" where
  "left_free xs = (if xs \<noteq> [] \<and> snd (last xs) = Free then (butlast xs, fst (last xs)) else (xs, 0))"

definition right_free :: "(nat \<times> cstat) list \<Rightarrow> (nat \<times> cstat) list \<times> nat" where
  "right_free ys = (if ys \<noteq> [] \<and> snd (hd ys) = Free then (tl ys, fst (hd ys)) else (ys, 0))"

definition freed :: "(nat \<times> cstat) list \<Rightarrow> nat \<Rightarrow> (nat \<times> cstat) list \<Rightarrow> (nat \<times> cstat) list" where
  "freed xs n ys = fst (left_free xs) @ (snd (left_free xs) + n + snd (right_free ys), Free) # fst (right_free ys)"

lemma coalese_left:
  assumes inv: "heap_inv al (xs @ (n, Hole) # ys) fl" and nh: "no_hole xs"
  defines "xs' \<equiv> fst (left_free xs)" and "k \<equiv> snd (left_free xs)"
  obtains al' fl' where
    "mica_alloc_coalese_free_chunk_left al (al_data al + csum xs) n = Inr (al', al_data al + csum xs', k + n)"
    "heap_inv al' (xs' @ (k + n, Hole) # ys) fl'" "al_data al' = al_data al" "al_size al' = al_size al"
proof (cases "xs = []")
  case True
  then show ?thesis using that inv by (simp add: mica_alloc_coalese_free_chunk_left_def xs'_def k_def left_free_def)
next
  case False
  then obtain zs j s where xs: "xs = zs @ [(j, s)]" by (metis prod.exhaust rev_exhaust)
  let ?a = "al_data al + csum xs" and ?z = "al_data al + csum zs"
  have az: "?a = ?z + j" by (simp add: xs)
  have jC: "(?z, j, s) \<in> set (layout (al_data al) (xs @ (n, Hole) # ys))" by (simp add: xs)
  have j: "32 \<le> j" "j < 2 ^ 40" using chunk_size_bound [OF inv jC] by auto
  have s: "s \<noteq> Hole" using nh xs by simp
  have t: "al_mem al ?z = tag j s" "al_mem al (?z + j - 8) = tag j s" using heap_invD(5) [OF inv] jC s unfolding tags_ok_def by blast+
  have h: "in_heap al ?z" "in_heap al (?z + j - 8)" using heap_access [OF inv jC] by auto
  show ?thesis
  proof (cases "s = Free")
    case True
    have "heap_inv al (zs @ (j, Free) # (n, Hole) # ys) fl" using inv by (simp add: xs True)
    then obtain al' fl' where r: "mica_alloc_remove_free_chunk_from_free_list al ?z j = Inr al'"
      "heap_inv al' (zs @ (j, Hole) # (n, Hole) # ys) fl'" "al_data al' = al_data al" "al_size al' = al_size al"
      by (rule remove_free_chunk)
    have "xs' = zs" "k = j" by (simp_all add: xs'_def k_def left_free_def xs True)
    moreover have "mica_alloc_coalese_free_chunk_left al ?a n = Inr (al', ?z, n + j)"
      using t h r(1) j True unfolding az
      by (simp add: mica_alloc_coalese_free_chunk_left_def ld_def tag_size_status MICA_ALLOC_FREE_def MICA_ALLOC_OCCUPIED_def)
    ultimately show ?thesis using that merge_holes [OF r(2)] r(3,4) by (simp add: add.commute)
  next
    case False
    then have "s = Occ" using s by (cases s) auto
    then have "mica_alloc_coalese_free_chunk_left al ?a n = Inr (al, ?a, n)"
      using t h j unfolding az by (simp add: mica_alloc_coalese_free_chunk_left_def ld_def tag_size_status)
    moreover have "xs' = xs" "k = 0" using False by (simp_all add: xs'_def k_def left_free_def xs)
    ultimately show ?thesis using that inv by simp
  qed
qed

lemma coalese_right:
  assumes inv: "heap_inv al (xs @ (n, Hole) # ys) fl" and nh: "no_hole ys"
  defines "ys' \<equiv> fst (right_free ys)" and "k \<equiv> snd (right_free ys)"
  obtains al' fl' where
    "mica_alloc_coalese_free_chunk_right al (al_data al + csum xs) n = Inr (al', al_data al + csum xs, n + k)"
    "heap_inv al' (xs @ (n + k, Hole) # ys') fl'" "al_data al' = al_data al" "al_size al' = al_size al"
proof (cases ys)
  case Nil
  then show ?thesis using that inv heap_invD(2) [OF inv]
    by (simp add: mica_alloc_coalese_free_chunk_right_def ys'_def k_def right_free_def)
next
  case (Cons y zs)
  obtain j s where y: "y = (j, s)" by (cases y)
  let ?a = "al_data al + csum xs" and ?z = "al_data al + csum xs + n"
  have jC: "(?z, j, s) \<in> set (layout (al_data al) (xs @ (n, Hole) # ys))" by (simp add: Cons y)
  have j: "32 \<le> j" "j < 2 ^ 40" using chunk_size_bound [OF inv jC] by auto
  have s: "s \<noteq> Hole" using nh Cons y by simp
  have lt: "?z < al_data al + al_size al" using heap_invD(2) [OF inv] j by (simp add: Cons y)
  have t: "al_mem al ?z = tag j s" "al_mem al (?z + j - 8) = tag j s" using heap_invD(5) [OF inv] jC s unfolding tags_ok_def by blast+
  have h: "in_heap al ?z" "in_heap al (?z + j - 8)" using heap_access [OF inv jC] by auto
  show ?thesis
  proof (cases "s = Free")
    case True
    have "heap_inv al ((xs @ [(n, Hole)]) @ (j, Free) # zs) fl" using inv by (simp add: Cons y True)
    then obtain al' fl' where r: "mica_alloc_remove_free_chunk_from_free_list al (al_data al + csum (xs @ [(n, Hole)])) j = Inr al'"
      "heap_inv al' ((xs @ [(n, Hole)]) @ (j, Hole) # zs) fl'" "al_data al' = al_data al" "al_size al' = al_size al"
      by (rule remove_free_chunk)
    have "ys' = zs" "k = j" by (simp_all add: ys'_def k_def right_free_def Cons y True)
    moreover have "mica_alloc_coalese_free_chunk_right al ?a n = Inr (al', ?a, n + j)"
      using t h r(1) j lt True
      by (simp add: mica_alloc_coalese_free_chunk_right_def ld_def tag_size_status MICA_ALLOC_FREE_def MICA_ALLOC_OCCUPIED_def add.assoc)
    moreover have "heap_inv al' (xs @ (n + j, Hole) # zs) fl'" using merge_holes [of al' xs n j zs fl'] r(2) by simp
    ultimately show ?thesis using that r(3,4) by simp
  next
    case False
    then have "s = Occ" using s by (cases s) auto
    then have "mica_alloc_coalese_free_chunk_right al ?a n = Inr (al, ?a, n)"
      using t h j lt by (simp add: mica_alloc_coalese_free_chunk_right_def ld_def tag_size_status)
    moreover have "ys' = ys" "k = 0" using False by (simp_all add: ys'_def k_def right_free_def Cons y)
    ultimately show ?thesis using that inv by simp
  qed
qed

lemma deallocate_heap:
  assumes inv: "heap_inv al (xs @ (n, Occ) # ys) fl" and nh: "no_hole xs" "no_hole ys"
  obtains al' fl' where "mica_alloc_deallocate al (csum xs + 8) = Inr al'" "heap_inv al' (freed xs n ys) fl'"
    "al_data al' = al_data al" "al_size al' = al_size al"
proof -
  let ?a = "al_data al + csum xs"
  have aC: "(?a, n, Occ) \<in> set (layout (al_data al) (xs @ (n, Occ) # ys))" by simp
  have n: "n < 2 ^ 40" using chunk_size_bound [OF inv aC] by simp
  have t: "al_mem al ?a = tag n Occ" using heap_invD(5) [OF inv] aC unfolding tags_ok_def by blast
  obtain al1 fl1 where l: "mica_alloc_coalese_free_chunk_left al ?a n
      = Inr (al1, al_data al + csum (fst (left_free xs)), snd (left_free xs) + n)"
    "heap_inv al1 (fst (left_free xs) @ (snd (left_free xs) + n, Hole) # ys) fl1" "al_data al1 = al_data al" "al_size al1 = al_size al"
    by (rule coalese_left [OF release_chunk [OF inv] nh(1)])
  obtain al2 fl2 where r: "mica_alloc_coalese_free_chunk_right al1 (al_data al1 + csum (fst (left_free xs))) (snd (left_free xs) + n)
      = Inr (al2, al_data al1 + csum (fst (left_free xs)), snd (left_free xs) + n + snd (right_free ys))"
    "heap_inv al2 (fst (left_free xs) @ (snd (left_free xs) + n + snd (right_free ys), Hole) # fst (right_free ys)) fl2"
    "al_data al2 = al_data al1" "al_size al2 = al_size al1"
    by (rule coalese_right [OF l(2) nh(2)])
  obtain al' fl' where i: "mica_alloc_insert_free_chunk al2 (al_data al2 + csum (fst (left_free xs))) (snd (left_free xs) + n + snd (right_free ys)) = Inr al'"
    "heap_inv al' (freed xs n ys) fl'" "al_data al' = al_data al2" "al_size al' = al_size al2"
    unfolding freed_def by (rule insert_free_chunk [OF r(2)])
  have "mica_alloc_deallocate al (csum xs + 8) = Inr al'"
    using heap_access(1) [OF inv aC] t l(1,3) r(1,3) i(1)
    by (simp add: mica_alloc_deallocate_def mica_alloc_get_item_def ld_def tag_size_status [OF n] Let_def)
  then show ?thesis using that i l r by simp
qed

subsection \<open>Allocation\<close>

text \<open>The size of the chunk an item of the given size needs.\<close>

definition need :: "nat \<Rightarrow> nat" where
  "need item_size = MICA_ROUNDUP8 item_size + MICA_ALLOC_OVERHEAD"

lemma need_bounds: "8 < i \<Longrightarrow> 32 \<le> need i \<and> 8 dvd need i \<and> i + 16 \<le> need i \<and> need i \<le> i + 23"
  unfolding need_def MICA_ROUNDUP8_def MICA_ALLOC_OVERHEAD_def by auto

lemma class_div: "(32 + 8 * q - 25) div 8 = (q :: nat)" "(32 + 8 * q - 32) div 8 = q"
  by simp_all

lemma roundup_class:
  assumes "32 \<le> n" "8 dvd n" "n < 2 ^ 40"
  shows "mica_alloc_size_to_class_roundup n = Inr (class_of n)"
proof -
  have "n + 2 ^ 64 - 32 + 8 - 1 = (n - 25) + 2 ^ 64" using assms(1) by simp
  then have "(n + 2 ^ 64 - 32 + 8 - 1) mod 2 ^ 64 = (n - 25) mod (2 ^ 64)"
    by (simp only: mod_add_self2)
  also have "\<dots> = n - 25" using assms(3) by simp
  finally have w: "(n + 2 ^ 64 - 32 + 8 - 1) mod 2 ^ 64 div 8 = (n - 25) div 8" by (simp only:)
  obtain r where "n = 8 * r" using assms(2) by (rule dvdE)
  then have "n = 32 + 8 * (r - 4)" using assms(1) by simp
  then have "(n - 25) div 8 = (n - 32) div 8" by (metis class_div)
  moreover have "(n - 32) div 8 \<le> 31" if "n \<le> 280"
    using div_le_mono [of "n - 32" 248 8] that by simp
  moreover have "31 \<le> (n - 32) div 8" if "\<not> n \<le> 280"
    using div_le_mono [of 248 "n - 32" 8] that by simp
  ultimately show ?thesis
    unfolding mica_alloc_size_to_class_roundup_def class_of_def MICA_ALLOC_MAX_SIZE_def
      MICA_ALLOC_MIN_SIZE_def MICA_ALLOC_NUM_CLASSES_def MICA_ALLOC_CLASS_INCREMENT_def w
    using assms(3) by (cases "n \<le> 280") (simp_all add: check_def min_def)
qed

lemma find_class_Some: "find_class al c n = Some d \<Longrightarrow> c \<le> d \<and> d < c + n \<and> free_head al d \<noteq> 0"
  by (induction n arbitrary: c) (auto split: if_splits, fastforce+)

lemma find_class_None: "find_class al c n = None \<Longrightarrow> c \<le> d \<Longrightarrow> d < c + n \<Longrightarrow> free_head al d = 0"
proof (induction n arbitrary: c)
  case (Suc n)
  then have "free_head al c = 0" "find_class al (c + 1) n = None" by (auto split: if_splits)
  with Suc.IH [of "c + 1"] Suc.prems show ?case by (cases "d = c") auto
qed simp

lemma class_of_ge: "class_of m \<le> class_of k \<Longrightarrow> m \<le> 280 \<Longrightarrow> 8 dvd m \<Longrightarrow> 8 dvd k \<Longrightarrow> 32 \<le> k \<Longrightarrow> m \<le> k"
  unfolding class_of_def by (auto elim!: dvdE)

lemma mark_chunk:
  assumes inv: "heap_inv al (xs @ (n, Hole) # ys) fl"
  defines "a \<equiv> al_data al + csum xs"
  shows "heap_inv (al\<lparr>al_mem := (al_mem al)(a + n - 8 := tag n Occ, a := tag n Occ, a + 8 := v)\<rparr>) (xs @ (n, Occ) # ys) fl"
proof -
  let ?cs = "xs @ (n, Hole) # ys"
  have aC: "(a, n, Hole) \<in> set (layout (al_data al) ?cs)" unfolding a_def by simp
  have n: "32 \<le> n" using chunk_size_bound [OF inv aC] by auto
  define m where "m = (al_mem al)(a + (n - 8) := tag n Occ, a + 0 := tag n Occ, a + 8 := v)"
  have s: "heap_inv (al\<lparr>al_mem := mm(a + i := w)\<rparr>) ?cs fl" if "heap_inv (al\<lparr>al_mem := mm\<rparr>) ?cs fl" "i < n" for mm i w
    using hole_store [OF that(1) _ that(2), of a w] aC by simp
  have "heap_inv (al\<lparr>al_mem := m\<rparr>) ?cs fl" unfolding m_def using n inv by (intro s) simp_all
  moreover have "m a = tag n Occ" "m (a + n - 8) = tag n Occ" using n by (auto simp: m_def)
  ultimately have "heap_inv (al\<lparr>al_mem := m\<rparr>) (xs @ (n, Occ) # ys) fl" by (intro mark_occupied) (simp_all add: a_def)
  moreover have "m = (al_mem al)(a + n - 8 := tag n Occ, a := tag n Occ, a + 8 := v)" using n by (simp add: m_def)
  ultimately show ?thesis by (simp only:)
qed

text \<open>The sequence after taking \<open>m\<close> bytes of the free chunk between \<open>xs\<close> and \<open>ys\<close>.\<close>

definition taken :: "(nat \<times> cstat) list \<Rightarrow> nat \<Rightarrow> nat \<Rightarrow> (nat \<times> cstat) list \<Rightarrow> (nat \<times> cstat) list" where
  "taken xs k m ys = (if k - m \<ge> 32 then xs @ (m, Occ) # (k - m, Free) # ys else xs @ (k, Occ) # ys)"

lemma take_chunk:
  assumes inv: "heap_inv al (xs @ (k, Hole) # ys) fl" and m: "32 \<le> m" "8 dvd m" "m \<le> k"
  defines "a \<equiv> al_data al + csum xs"
  obtains al1 al2 n fl' where
    "(if k - m \<ge> MICA_ALLOC_MIN_SIZE then bind_res (mica_alloc_insert_free_chunk al (a + m) (k - m)) (\<lambda>al'. Inr (al', m))
      else Inr (al, k)) = Inr (al1, n)"
    "bind_res (st al1 (a + n - 8) (tag n Occ)) (\<lambda>al. bind_res (st al a (tag n Occ)) (\<lambda>al. st al (a + 8) v)) = Inr al2"
    "heap_inv al2 (taken xs k m ys) fl'" "al_data al2 = al_data al" "al_size al2 = al_size al"
proof (cases "k - m \<ge> 32")
  case True
  have "heap_inv al (xs @ (m + (k - m), Hole) # ys) fl" using inv m(3) by simp
  moreover have "8 dvd k - m" using m(2,3) heap_invD(4) [OF inv] by (auto intro: dvd_diff_nat)
  ultimately have "heap_inv al ((xs @ [(m, Hole)]) @ (k - m, Hole) # ys) fl" using split_hole m True by simp
  then obtain al1 fl1 where i: "mica_alloc_insert_free_chunk al (al_data al + csum (xs @ [(m, Hole)])) (k - m) = Inr al1"
    "heap_inv al1 ((xs @ [(m, Hole)]) @ (k - m, Free) # ys) fl1" "al_data al1 = al_data al" "al_size al1 = al_size al"
    by (rule insert_free_chunk)
  have inv1: "heap_inv al1 (xs @ (m, Hole) # (k - m, Free) # ys) fl1" using i(2) by simp
  have aC: "(a, m, Hole) \<in> set (layout (al_data al1) (xs @ (m, Hole) # (k - m, Free) # ys))" by (simp add: a_def i(3))
  have tk: "xs @ (m, Occ) # (k - m, Free) # ys = taken xs k m ys" using True by (simp add: taken_def)
  show ?thesis
    using that [OF _ _ mark_chunk [OF inv1, of v, unfolded i(3), folded a_def, unfolded tk]] True i heap_access [OF inv1 aC]
    by (simp add: MICA_ALLOC_MIN_SIZE_def a_def add.assoc st_def)
next
  case False
  have aC: "(a, k, Hole) \<in> set (layout (al_data al) (xs @ (k, Hole) # ys))" by (simp add: a_def)
  have tk: "xs @ (k, Occ) # ys = taken xs k m ys" using False by (simp add: taken_def)
  show ?thesis
    using that [OF _ _ mark_chunk [OF inv, of v, folded a_def, unfolded tk]] False heap_access [OF inv aC]
    by (simp add: MICA_ALLOC_MIN_SIZE_def st_def)
qed

text \<open>
  The three outcomes of an allocation: no free chunk in the classes searched; the first chunk
  of the last class is too small, which only items over 264 bytes can meet; or a chunk is taken.
\<close>

lemma allocate_cases:
  assumes inv: "heap_inv al cs fl" and i: "8 < i" "i < 2 ^ 32"
  obtains (full) "mica_alloc_allocate al i = Inr (al, None)"
      "\<And>a k. (a, k, Free) \<in> set (layout (al_data al) cs) \<Longrightarrow> class_of k < class_of (need i)"
  | (small) xs k ys where "cs = xs @ (k, Free) # ys" "k < need i" "280 < need i" "mica_alloc_allocate al i = Inl AssertFail"
  | (ok) xs k ys al' fl' where "cs = xs @ (k, Free) # ys" "need i \<le> k" "class_of (need i) \<le> class_of k"
      "mica_alloc_allocate al i = Inr (al', Some (csum xs + 8))" "heap_inv al' (taken xs k (need i) ys) fl'"
      "al_data al' = al_data al" "al_size al' = al_size al" "al_mem al' (al_data al + csum xs + 8) = i"
proof -
  have nb: "32 \<le> need i" "8 dvd need i" "need i < 2 ^ 40" using need_bounds [OF i(1)] i(2) by auto
  define c where "c = class_of (need i)"
  have c: "c \<le> 31" by (simp add: c_def class_of_def)
  note head = mica_alloc_remove_free_chunk_from_head_def roundup_class [OF nb] MICA_ALLOC_NUM_CLASSES_def
  have hd: "free_head al d = hd0 (fl d)" "set (fl d) = {a. \<exists>n. (a, n, Free) \<in> set (layout (al_data al) cs) \<and> class_of n = d}"
    if "d < 32" for d
    using heap_invD(6) [OF inv] that by (auto simp: lists_ok_def)
  have al: "mica_alloc_allocate al i = bind_res (mica_alloc_remove_free_chunk_from_head al (need i)) (\<lambda>(al, r).
     case r of None \<Rightarrow> Inr (al, None)
     | Some (cst, k) \<Rightarrow> bind_res (if k - need i \<ge> MICA_ALLOC_MIN_SIZE then
          bind_res (mica_alloc_insert_free_chunk al (cst + need i) (k - need i)) (\<lambda>al'. Inr (al', need i)) else Inr (al, k)) (\<lambda>(al, n).
         bind_res (bind_res (st al (cst + n - 8) (tag n Occ)) (\<lambda>al. bind_res (st al cst (tag n Occ)) (\<lambda>al. st al (cst + 8) i)))
          (\<lambda>al. Inr (al, Some (cst + 8 - al_data al)))))"
    unfolding mica_alloc_allocate_def need_def [symmetric] tag_Occ Let_def bind_res_assoc using i(1) by simp
  show ?thesis
  proof (cases "find_class al c (32 - c)")
    case None
    have "class_of k < c" if "(a, k, Free) \<in> set (layout (al_data al) cs)" for a k
    proof (rule ccontr)
      assume "\<not> class_of k < c"
      then have "free_head al (class_of k) = 0" using find_class_None [OF None, of "class_of k"] class_of_less [of k] by simp
      then have "hd0 (fl (class_of k)) = 0" using hd(1) [OF class_of_less] by simp
      moreover have "a \<in> set (fl (class_of k))" using hd(2) [OF class_of_less [of k]] that by blast
      ultimately show False using free_listD [OF inv _ class_of_less, of "hd (fl (class_of k))" k]
        by (cases "fl (class_of k)") auto
    qed
    then show ?thesis using full None c by (simp add: al head c_def)
  next
    case (Some d)
    then have d: "c \<le> d" "d < 32" "free_head al d \<noteq> 0" using find_class_Some [OF Some] c by auto
    then obtain a where a: "free_head al d = a" "a \<in> set (fl d)" using hd(1) [OF d(2)] by (cases "fl d") auto
    obtain k where k: "(a, k, Free) \<in> set (layout (al_data al) cs)" "class_of k = d" "32 \<le> k" using free_listD [OF inv a(2) d(2)] .
    have kb: "8 dvd k" "k < 2 ^ 40" using chunk_size_bound [OF inv k(1)] by auto
    obtain xs ys where xy: "cs = xs @ (k, Free) # ys" "a = al_data al + csum xs" using layout_split [OF k(1)] by blast
    have t: "al_mem al a = tag k Free" "al_mem al (a + k - 8) = tag k Free" using heap_invD(5) [OF inv] k(1) unfolding tags_ok_def by blast+
    have h: "in_heap al a" "in_heap al (a + k - 8)" using heap_access [OF inv k(1)] by auto
    have c32: "class_of (need i) \<le> 32" by (simp add: class_of_def)
    note rm = head Some [unfolded c_def] c32 a(1) ld_def t h Let_def tag_size_status [OF kb(2)]
    show ?thesis
    proof (cases "need i \<le> k")
      case False
      then have "\<not> need i \<le> 280" using class_of_ge [of "need i" k] d(1) k nb kb by (auto simp: c_def)
      moreover have "mica_alloc_allocate al i = Inl AssertFail"
        using False by (simp add: al rm)
      ultimately show ?thesis using small [OF xy(1)] False by simp
    next
      case True
      obtain al1 fl1 where r: "mica_alloc_remove_free_chunk_from_free_list al (al_data al + csum xs) k = Inr al1"
        "heap_inv al1 (xs @ (k, Hole) # ys) fl1" "al_data al1 = al_data al" "al_size al1 = al_size al"
        using remove_free_chunk [OF inv [unfolded xy(1)]] .
      have hd1: "mica_alloc_remove_free_chunk_from_head al (need i) = Inr (al1, Some (a, k))"
        using r(1) [folded xy(2)] True by (simp add: rm)
      obtain al2 al3 n fl3 where s: "(if k - need i \<ge> MICA_ALLOC_MIN_SIZE then
          bind_res (mica_alloc_insert_free_chunk al1 (a + need i) (k - need i)) (\<lambda>al'. Inr (al', need i)) else Inr (al1, k)) = Inr (al2, n)"
        "bind_res (st al2 (a + n - 8) (tag n Occ)) (\<lambda>al. bind_res (st al a (tag n Occ)) (\<lambda>al. st al (a + 8) i)) = Inr al3"
        "heap_inv al3 (taken xs k (need i) ys) fl3" "al_data al3 = al_data al" "al_size al3 = al_size al"
        using take_chunk [OF r(2) nb(1,2) True, of i] unfolding r(3,4) xy(2) [symmetric] .
      have "mica_alloc_allocate al i = Inr (al3, Some (csum xs + 8))"
        unfolding al hd1 bind_res_Inr case_prod_conv option.case s(1) s(2) s(4) using xy(2) by simp
      moreover have "al_mem al3 (a + 8) = i" using s(2) by (auto simp: st_def res_simps split: if_splits)
      ultimately show ?thesis using ok [OF xy(1) True _ _ s(3-5)] d(1) k(2) xy(2) by (simp add: c_def)
    qed
  qed
qed

end
