(* ===== verification/Alloc_Props.thy ===== *)
theory Alloc_Props
  imports Alloc_Proofs
begin

text \<open>
  Properties of the allocator over whole histories: a run starts with \<open>mica_alloc_init\<close> and
  allocates, deallocates live items, and writes into the interior of live items. Live items keep
  disjoint chunks, deallocation of a live item and allocation of a small item always return, and
  a heap without live items is one free chunk again. Two runs show where the allocator stops.
\<close>

subsection \<open>Runs\<close>

text \<open>
  \<open>L\<close> holds the offset and the size of every live item. A client writes whole cells between
  the item header and the boundary tag of its chunk. So it leaves the last 8 bytes of the rounded item size alone: they are the end tag, because the
  code adds the 16 bytes of the two tags to the item size but not the 8 bytes of the header.
\<close>

inductive alloc_run :: "mica_alloc \<Rightarrow> (nat \<times> nat) set \<Rightarrow> bool" where
  run_init: "mica_alloc_init malloc size0 numa = Inr al \<Longrightarrow> alloc_run al {}"
| run_alloc: "alloc_run al L \<Longrightarrow> item_size < 2 ^ 32 \<Longrightarrow> mica_alloc_allocate al item_size = Inr (al', Some off) \<Longrightarrow>
    alloc_run al' (insert (off, item_size) L)"
| run_full: "alloc_run al L \<Longrightarrow> item_size < 2 ^ 32 \<Longrightarrow> mica_alloc_allocate al item_size = Inr (al', None) \<Longrightarrow>
    alloc_run al' L"
| run_free: "alloc_run al L \<Longrightarrow> (off, item_size) \<in> L \<Longrightarrow> mica_alloc_deallocate al off = Inr al' \<Longrightarrow>
    alloc_run al' (L - {(off, item_size)})"
| run_write: "alloc_run al L \<Longrightarrow> (off, item_size) \<in> L \<Longrightarrow> 8 dvd d \<Longrightarrow> d + 8 \<le> MICA_ROUNDUP8 item_size \<Longrightarrow>
    alloc_run (al\<lparr>al_mem := (al_mem al)(mica_alloc_get_item al off + d := v)\<rparr>) L"

definition no_adj :: "(nat \<times> cstat) list \<Rightarrow> bool" where
  "no_adj cs = successively (\<lambda>x y. \<not> (snd x = Free \<and> snd y = Free)) cs"

definition items_ok :: "(nat \<times> cstat) list \<Rightarrow> (nat \<times> nat) set \<Rightarrow> bool" where
  "items_ok cs L \<longleftrightarrow>
     (\<forall>off i. (off, i) \<in> L \<longrightarrow> 8 \<le> off \<and> (\<exists>n. (off - 8, n, Occ) \<in> set (layout 0 cs) \<and> need i \<le> n)) \<and>
     (\<forall>x n. (x, n, Occ) \<in> set (layout 0 cs) \<longrightarrow> (\<exists>i. (x + 8, i) \<in> L)) \<and>
     (\<forall>off i j. (off, i) \<in> L \<longrightarrow> (off, j) \<in> L \<longrightarrow> i = j)"

definition run_inv :: "mica_alloc \<Rightarrow> (nat \<times> nat) set \<Rightarrow> bool" where
  "run_inv al L \<longleftrightarrow> (\<exists>cs fl. heap_inv al cs fl \<and> cs \<noteq> [] \<and> no_hole cs \<and> no_adj cs \<and> items_ok cs L)"

subsection \<open>The operations on the occupied chunks\<close>

lemma layout_shift: "(b + a, n, s) \<in> set (layout (b + c) cs) \<longleftrightarrow> (a, n, s) \<in> set (layout c cs)"
  by (induction cs arbitrary: c) (simp_all add: add.assoc)

lemma left_free_cases:
  obtains (none) "left_free xs = (xs, 0)" "xs = [] \<or> snd (last xs) \<noteq> Free"
  | (some) zs k where "xs = zs @ [(k, Free)]" "left_free xs = (zs, k)"
proof (cases "xs \<noteq> [] \<and> snd (last xs) = Free")
  case True
  then have "xs = butlast xs @ [(fst (last xs), Free)]" by (metis append_butlast_last_id prod.collapse)
  then show ?thesis using some True by (simp add: left_free_def)
qed (use none in \<open>auto simp: left_free_def\<close>)

lemma right_free_cases:
  obtains (none) "right_free ys = (ys, 0)" "ys = [] \<or> snd (hd ys) \<noteq> Free"
  | (some) zs k where "ys = (k, Free) # zs" "right_free ys = (zs, k)"
proof (cases "ys \<noteq> [] \<and> snd (hd ys) = Free")
  case True
  then have "ys = (fst (hd ys), Free) # tl ys" by (metis list.collapse prod.collapse)
  then show ?thesis using some True by (simp add: right_free_def)
qed (use none in \<open>auto simp: right_free_def\<close>)

lemma occ_rest:
  "(x, k, Occ) \<in> set (layout 0 (freed xs n ys)) \<longleftrightarrow>
     (x, k, Occ) \<in> set (layout 0 xs) \<or> (x, k, Occ) \<in> set (layout (csum xs + n) ys)"
proof (cases xs rule: left_free_cases)
  case none
  then show ?thesis by (cases ys rule: right_free_cases) (auto simp: freed_def add.assoc)
next
  case some
  then show ?thesis by (cases ys rule: right_free_cases) (auto simp: freed_def ac_simps)
qed

lemma occ_freed:
  assumes "chunks_wf (xs @ (n, Occ) # ys)"
  shows "(x, k, Occ) \<in> set (layout 0 (freed xs n ys)) \<longleftrightarrow>
    (x, k, Occ) \<in> set (layout 0 (xs @ (n, Occ) # ys)) \<and> x \<noteq> csum xs"
  using assms layout_bounds [of x k Occ 0 xs] layout_bounds [of x k Occ "csum xs + n" ys]
    layout_wf [of xs x k Occ 0] layout_wf [of ys x k Occ "csum xs + n"]
  unfolding occ_rest by auto

lemma occ_taken:
  "(x, j, Occ) \<in> set (layout 0 (taken xs k m ys)) \<longleftrightarrow>
     x = csum xs \<and> j = (if k - m \<ge> 32 then m else k) \<or> (x, j, Occ) \<in> set (layout 0 (xs @ (k, Free) # ys))"
  if "m \<le> k"
  using that by (auto simp: taken_def add.assoc)

lemma freed_taken_ne: "freed xs n ys \<noteq> []" "taken xs k m ys \<noteq> []"
  by (simp_all add: freed_def taken_def)

lemma chunk_disjoint:
  assumes "chunks_wf cs" "(a, n, s) \<in> set (layout b cs)" "(a', n', s') \<in> set (layout b cs)" "a \<noteq> a'"
  shows "a + n \<le> a' \<or> a' + n' \<le> a"
proof (cases "a \<le> a'")
  case True
  then show ?thesis
    using chunk_inj [OF assms(1-3), of "a' - a" 0] layout_wf [OF assms(1,3)] assms(4) by (cases "a' - a < n") auto
next
  case False
  then show ?thesis
    using chunk_inj [OF assms(1-3), of 0 "a - a'"] layout_wf [OF assms(1,2)] assms(4) by (cases "a - a' < n'") auto
qed

lemma no_hole_freed: "no_hole xs \<Longrightarrow> no_hole ys \<Longrightarrow> no_hole (freed xs n ys)"
  by (cases xs rule: left_free_cases; cases ys rule: right_free_cases) (simp_all add: freed_def)

lemma no_adj_freed: "no_adj (xs @ (n, Occ) # ys) \<Longrightarrow> no_adj (freed xs n ys)"
  by (cases xs rule: left_free_cases; cases ys rule: right_free_cases)
    (auto simp: freed_def no_adj_def successively_append_iff successively_Cons)

lemma no_hole_taken: "no_hole (xs @ (k, Free) # ys) \<Longrightarrow> no_hole (taken xs k m ys)"
  by (simp add: taken_def)

lemma no_adj_taken: "no_adj (xs @ (k, Free) # ys) \<Longrightarrow> no_adj (taken xs k m ys)"
  by (auto simp: taken_def no_adj_def successively_append_iff successively_Cons)

lemma occ_store:
  assumes inv: "heap_inv al cs fl" and h: "(a, n, Occ) \<in> set (layout (al_data al) cs)" and i: "8 \<le> i" "i + 16 \<le> n"
  shows "heap_inv (al\<lparr>al_mem := (al_mem al)(a + i := v)\<rparr>) cs fl"
proof -
  have "tags_ok ((al_mem al)(a + i := v)) (set (layout (al_data al) cs))"
  proof (rule tags_ok_cong [OF heap_invD(5) [OF inv]])
    fix a' n' s' assume c: "(a', n', s') \<in> set (layout (al_data al) cs)"
    have n': "32 \<le> n'" using chunk_size_bound [OF inv c] by simp
    have "a' + 0 \<noteq> a + i" "a' + (n' - 8) \<noteq> a + i"
      using heap_cell_inj [OF inv c h, of 0 i] heap_cell_inj [OF inv c h, of "n' - 8" i] i n' by auto
    then show "((al_mem al)(a + i := v)) a' = al_mem al a' \<and> ((al_mem al)(a + i := v)) (a' + n' - 8) = al_mem al (a' + n' - 8)"
      using n' by auto
  qed
  moreover have "dll ((al_mem al)(a + i := v)) p (fl c) = dll (al_mem al) p (fl c)" if c: "c < 32" for c p
  proof (rule dll_cong)
    fix x assume "x \<in> set (fl c)"
    then obtain k where k: "(x, k, Free) \<in> set (layout (al_data al) cs)" "32 \<le> k"
      using free_listD [OF inv _ c] by metis
    have "x + 8 \<noteq> a + i" "x + 16 \<noteq> a + i"
      using heap_cell_inj [OF inv k(1) h, of 8 i] heap_cell_inj [OF inv k(1) h, of 16 i] k(2) i by auto
    then show "((al_mem al)(a + i := v)) (x + 8) = al_mem al (x + 8) \<and> ((al_mem al)(a + i := v)) (x + 16) = al_mem al (x + 16)"
      by simp
  qed
  ultimately show ?thesis using inv by (simp add: heap_inv_def lists_ok_def)
qed

lemma item_chunk:
  assumes "heap_inv al cs fl" "items_ok cs L" "(off, i) \<in> L"
  obtains xs n ys where "cs = xs @ (n, Occ) # ys" "off = csum xs + 8" "need i \<le> n"
    "(al_data al + csum xs, n, Occ) \<in> set (layout (al_data al) cs)"
proof -
  from assms(2,3) obtain n where n: "8 \<le> off" "(off - 8, n, Occ) \<in> set (layout 0 cs)" "need i \<le> n"
    unfolding items_ok_def by blast
  then obtain xs ys where xy: "cs = xs @ (n, Occ) # ys" "off - 8 = csum xs" using layout_split [OF n(2)] by auto
  then show ?thesis using that [OF xy(1)] n by simp
qed

lemma items_ok_freed:
  assumes "chunks_wf (xs @ (n, Occ) # ys)" "items_ok (xs @ (n, Occ) # ys) L" "(csum xs + 8, i) \<in> L"
  shows "items_ok (freed xs n ys) (L - {(csum xs + 8, i)})"
  unfolding items_ok_def
proof (intro conjI allI impI)
  fix off j assume a: "(off, j) \<in> L - {(csum xs + 8, i)}"
  then have ne: "off \<noteq> csum xs + 8" using assms(2,3) unfolding items_ok_def by blast
  obtain k where k: "8 \<le> off" "(off - 8, k, Occ) \<in> set (layout 0 (xs @ (n, Occ) # ys))" "need j \<le> k"
    using assms(2) a unfolding items_ok_def by blast
  then show "8 \<le> off" "\<exists>n'. (off - 8, n', Occ) \<in> set (layout 0 (freed xs n ys)) \<and> need j \<le> n'"
    using ne occ_freed [OF assms(1), of "off - 8" k] by auto
next
  fix x k assume "(x, k, Occ) \<in> set (layout 0 (freed xs n ys))"
  then have "(x, k, Occ) \<in> set (layout 0 (xs @ (n, Occ) # ys))" "x \<noteq> csum xs" using occ_freed [OF assms(1)] by auto
  then show "\<exists>j. (x + 8, j) \<in> L - {(csum xs + 8, i)}" using assms(2) unfolding items_ok_def by (metis DiffI add_right_cancel old.prod.inject singletonD)
next
  fix off j j' assume "(off, j) \<in> L - {(csum xs + 8, i)}" "(off, j') \<in> L - {(csum xs + 8, i)}"
  then show "j = j'" using assms(2) unfolding items_ok_def by blast
qed

lemma items_ok_taken:
  assumes wf: "chunks_wf (xs @ (k, Free) # ys)" and ok: "items_ok (xs @ (k, Free) # ys) L" and m: "need i \<le> k"
  shows "items_ok (taken xs k (need i) ys) (insert (csum xs + 8, i) L)"
proof -
  have fresh: "(csum xs, j, Occ) \<notin> set (layout 0 (xs @ (k, Free) # ys))" for j
    using chunk_inj [OF wf, of "csum xs" k Free 0 "csum xs" j Occ 0 0] layout_wf [OF wf, of "csum xs" j Occ 0] wf by auto
  have L: "off = csum xs + 8 \<Longrightarrow> (off, j) \<notin> L" for off j
    using ok fresh unfolding items_ok_def by (metis diff_add_inverse2)
  show ?thesis
    unfolding items_ok_def occ_taken [OF m] using ok L m unfolding items_ok_def by fastforce
qed

lemma run_inv_step:
  assumes "alloc_run al L"
  shows "run_inv al L"
  using assms
proof induction
  case (run_init malloc size0 numa al)
  then obtain fl where "heap_inv al [(al_size al, Free)] fl" by (rule init_heap)
  then show ?case unfolding run_inv_def by (intro exI [of _ "[(al_size al, Free)]"] exI [of _ fl]) (simp add: no_adj_def items_ok_def)
next
  case (run_alloc al L i al' off)
  obtain cs fl where inv: "heap_inv al cs fl" "no_hole cs" "no_adj cs" "items_ok cs L" using run_alloc.IH by (auto simp: run_inv_def)
  have i: "8 < i" using run_alloc.hyps(3) by (auto simp: mica_alloc_allocate_def res_simps)
  show ?case
  proof (cases rule: allocate_cases [OF inv(1) i run_alloc.hyps(2), case_names full small ok])
    case (ok xs k ys al2 fl2)
    then have "al' = al2" "off = csum xs + 8" using run_alloc.hyps(3) by auto
    then show ?thesis
      using ok(5) no_hole_taken [OF inv(2) [unfolded ok(1)], of "need i"] no_adj_taken [OF inv(3) [unfolded ok(1)], of "need i"]
        items_ok_taken [OF heap_invD(4) [OF inv(1), unfolded ok(1)] inv(4) [unfolded ok(1)] ok(2)]
        freed_taken_ne
      unfolding run_inv_def by blast
  qed (use run_alloc.hyps(3) in auto)
next
  case (run_full al L i al')
  obtain cs fl where inv: "heap_inv al cs fl" using run_full.IH by (auto simp: run_inv_def)
  have i: "8 < i" using run_full.hyps(3) by (auto simp: mica_alloc_allocate_def res_simps)
  have "al' = al"
    by (cases rule: allocate_cases [OF inv i run_full.hyps(2), case_names full small ok]) (use run_full.hyps(3) in auto)
  then show ?case using run_full.IH by simp
next
  case (run_free al L off i al')
  obtain cs fl where inv: "heap_inv al cs fl" "no_hole cs" "no_adj cs" "items_ok cs L" "cs \<noteq> []" using run_free.IH by (auto simp: run_inv_def)
  obtain xs n ys where c: "cs = xs @ (n, Occ) # ys" "off = csum xs + 8" "need i \<le> n" using item_chunk [OF inv(1,4) run_free.hyps(2)] .
  have nh: "no_hole xs" "no_hole ys" using inv(2) c(1) by auto
  obtain al2 fl2 where d: "mica_alloc_deallocate al (csum xs + 8) = Inr al2" "heap_inv al2 (freed xs n ys) fl2"
    by (rule deallocate_heap [OF inv(1) [unfolded c(1)] nh])
  then have "al' = al2" using run_free.hyps(3) c(2) by simp
  then show ?case
    using d(2) inv(2,3) c items_ok_freed [OF heap_invD(4) [OF inv(1), unfolded c(1)] inv(4) [unfolded c(1)]] run_free.hyps(2)
      no_hole_freed [of xs ys n] no_adj_freed [of xs n ys] freed_taken_ne(1)
    unfolding run_inv_def by auto
next
  case (run_write al L off i d v)
  obtain cs fl where inv: "heap_inv al cs fl" "no_hole cs" "no_adj cs" "items_ok cs L" "cs \<noteq> []" using run_write.IH by (auto simp: run_inv_def)
  obtain xs n ys where c: "cs = xs @ (n, Occ) # ys" "off = csum xs + 8" "need i \<le> n"
    "(al_data al + csum xs, n, Occ) \<in> set (layout (al_data al) cs)" using item_chunk [OF inv(1,4) run_write.hyps(2)] .
  have "(8 + d) + 16 \<le> n" using c(3) run_write.hyps(4) by (simp add: need_def MICA_ALLOC_OVERHEAD_def)
  from occ_store [OF inv(1) c(4) _ this, of v] show ?case
    using inv(2-5) c(2) unfolding run_inv_def mica_alloc_get_item_def by (auto simp: ac_simps)
qed

lemma alloc_deallocate_step:
  assumes "alloc_run al L" "(off, i) \<in> L"
  shows "\<exists>al'. mica_alloc_deallocate al off = Inr al' \<and> alloc_run al' (L - {(off, i)})"proof -
  obtain cs fl where inv: "heap_inv al cs fl" "no_hole cs" "items_ok cs L" using run_inv_step [OF assms(1)] by (auto simp: run_inv_def)
  obtain xs n ys where c: "cs = xs @ (n, Occ) # ys" "off = csum xs + 8" using item_chunk [OF inv(1,3) assms(2)] .
  have nh: "no_hole xs" "no_hole ys" using inv(2) c(1) by auto
  obtain al' where "mica_alloc_deallocate al off = Inr al'"
    unfolding c(2) by (rule deallocate_heap [OF inv(1) [unfolded c(1)] nh])
  then show ?thesis using run_free [OF assms] by blast
qed

subsection \<open>Concrete runs\<close>

definition small_malloc :: "nat \<Rightarrow> nat" where
  "small_malloc sz = 4096"

text \<open>Two allocations of the same size on a fresh heap of 2 MB.\<close>

definition two_items :: "nat \<Rightarrow> (nat option \<times> nat option \<times> mica_alloc) res" where
  "two_items i =
     bind_res (mica_alloc_init small_malloc 1 0) (\<lambda>a0.
     bind_res (mica_alloc_allocate a0 i) (\<lambda>(a1, o1).
     bind_res (mica_alloc_allocate a1 i) (\<lambda>(a2, o2). Inr (o1, o2, a2))))"

lemma find_class_numeral:
  "find_class al c (numeral n) =
     (if free_head al c \<noteq> 0 then Some c else find_class al (c + 1) (pred_numeral n))"
  by (simp add: numeral_eq_Suc)

lemmas alloc_eval = mica_alloc_init_def mica_alloc_reset_def mica_alloc_insert_free_chunk_def
  mica_alloc_allocate_def mica_alloc_size_to_class_rounddown_def mica_alloc_size_to_class_roundup_def
  mica_alloc_remove_free_chunk_from_head_def mica_alloc_remove_free_chunk_from_free_list_def
  mica_alloc_deallocate_def mica_alloc_coalese_free_chunk_left_def
  mica_alloc_coalese_free_chunk_right_def mica_alloc_get_item_def
  ld_def st_def in_heap_def MICA_ROUNDUP2M_def MICA_ROUNDUP8_def MICA_ALLOC_MAX_SIZE_def
  MICA_ALLOC_MIN_SIZE_def MICA_ALLOC_NUM_CLASSES_def MICA_ALLOC_CLASS_INCREMENT_def
  MICA_ALLOC_OVERHEAD_def MICA_ALLOC_TAG_VEC_def MICA_ALLOC_TAG_SIZE_def MICA_ALLOC_TAG_STATUS_def
  MICA_ALLOC_FREE_def MICA_ALLOC_OCCUPIED_def find_class_numeral small_malloc_def Let_def two_items_def

lemma two_items_run:
  assumes "two_items i = Inr (Some o1, Some o2, al)" "i < 2 ^ 32"
  shows "alloc_run al {(o1, i), (o2, i)}"
proof -
  obtain a0 a1 where s: "mica_alloc_init small_malloc 1 0 = Inr a0" "mica_alloc_allocate a0 i = Inr (a1, Some o1)"
    "mica_alloc_allocate a1 i = Inr (al, Some o2)"
    using assms(1) by (auto simp: two_items_def res_simps)
  show ?thesis
    using run_alloc [OF run_alloc [OF run_init [OF s(1)] assms(2) s(2)] assms(2) s(3)] by (simp add: insert_commute)
qed

lemma two_items_264:
  "\<exists>al. two_items 264 = Inr (Some 8, Some 288, al)"
  "bind_res (two_items 264) (\<lambda>(o1, o2, al). bind_res (mica_alloc_deallocate al 8) (\<lambda>al.
     Inr (al_data al, al_size al, free_head al 31, al_mem al 4096, al_mem al 4112, al_mem al 4656)))
   = Inr (4096, 2097152, 4096, MICA_ALLOC_TAG_VEC 280 MICA_ALLOC_FREE, 4656, MICA_ALLOC_TAG_VEC 2096592 MICA_ALLOC_FREE)"
  by (simp_all add: alloc_eval)

text \<open>An item of more than 264 bytes needs the last size class, of which the first chunk is taken.\<close>

lemma large_item_first_chunk:
  assumes "264 < i" "free_head al 31 = al_data al" "8 \<le> al_size al" "0 < al_data al"
    "al_mem al (al_data al) = MICA_ALLOC_TAG_VEC 280 MICA_ALLOC_FREE"
  shows "280 < MICA_ROUNDUP8 i + MICA_ALLOC_OVERHEAD \<and> mica_alloc_allocate al i = Inl AssertFail"
proof -
  have n: "272 \<le> MICA_ROUNDUP8 i" using assms(1) by (simp add: MICA_ROUNDUP8_def)
  thus ?thesis using assms
    by (simp add: mica_alloc_allocate_def mica_alloc_remove_free_chunk_from_head_def mica_alloc_size_to_class_roundup_def Let_def
        MICA_ALLOC_OVERHEAD_def MICA_ALLOC_MIN_SIZE_def MICA_ALLOC_NUM_CLASSES_def MICA_ALLOC_CLASS_INCREMENT_def find_class_numeral
        ld_def in_heap_def MICA_ALLOC_TAG_VEC_def MICA_ALLOC_TAG_SIZE_def MICA_ALLOC_TAG_STATUS_def MICA_ALLOC_FREE_def res_simps)
qed

lemma two_items_16:
  "\<exists>al. two_items 16 = Inr (Some 8, Some 40, al)"
  "bind_res (two_items 16) (\<lambda>(o1, o2, al). mica_alloc_deallocate
     (al\<lparr>al_mem := (al_mem al)(mica_alloc_get_item al 8 + 8 := 0, mica_alloc_get_item al 8 + 16 := 0)\<rparr>) 40) = Inl AssertFail"
  by (simp_all add: alloc_eval)

lemma small_run:
  obtains al0 al1 off fl where "mica_alloc_init small_malloc 1 0 = Inr al0" "alloc_run al0 {}"
    "mica_alloc_allocate al0 16 = Inr (al1, Some off)" "alloc_run al1 {(off, 16)}"
proof -
  obtain al0 where a0: "mica_alloc_init small_malloc 1 0 = Inr al0"
    using alloc_init_ok [of 1 0 small_malloc] by (auto simp: small_malloc_def returns_def)
  then have r0: "alloc_run al0 {}" by (rule run_init)
  obtain fl where fl: "heap_inv al0 [(al_size al0, Free)] fl" "al_size al0 = 2097152"
    using a0 by (rule init_heap) (simp add: MICA_ROUNDUP2M_def)
  have n: "need 16 = 32" by (simp add: need_def MICA_ROUNDUP8_def MICA_ALLOC_OVERHEAD_def)
  obtain al1 off where a1: "mica_alloc_allocate al0 16 = Inr (al1, Some off)"
  proof (cases rule: allocate_cases [OF fl(1), of 16, case_names i i2 full small ok])
    case full
    then show ?thesis using fl(2) n full(2) [of "al_data al0" 2097152] by (simp add: class_of_def)
  next
    case small
    then show ?thesis using n by simp
  qed simp_all
  then show ?thesis using that [OF a0 r0 a1] run_alloc [OF r0 _ a1] by simp
qed

subsection \<open>Properties\<close>

text \<open>
  C22: Live items never overlap: in every run, the chunks of two live items (the item header,
  the data area rounded up to 8 bytes and both tags) are disjoint, and each lies inside the
  reserved memory.
\<close>

theorem alloc_items_disjoint:
  assumes "alloc_run al L" "(off, i) \<in> L" "(off', i') \<in> L" "(off, i) \<noteq> (off', i')"
  shows "8 \<le> off \<and> off + MICA_ROUNDUP8 i + 8 \<le> al_size al
    \<and> (off + MICA_ROUNDUP8 i + 8 \<le> off' - 8 \<or> off' + MICA_ROUNDUP8 i' + 8 \<le> off - 8)"
proof -
  obtain cs fl where inv: "heap_inv al cs fl" "items_ok cs L" using run_inv_step [OF assms(1)] by (auto simp: run_inv_def)
  obtain n n' where c: "8 \<le> off" "(off - 8, n, Occ) \<in> set (layout 0 cs)" "need i \<le> n"
    "8 \<le> off'" "(off' - 8, n', Occ) \<in> set (layout 0 cs)" "need i' \<le> n'"
    using inv(2) assms(2,3) unfolding items_ok_def by metis
  have "off \<noteq> off'" using inv(2) assms(2-4) unfolding items_ok_def by blast
  then have "(off - 8) + n \<le> off' - 8 \<or> (off' - 8) + n' \<le> off - 8"
    using chunk_disjoint [OF heap_invD(4) [OF inv(1)] c(2,5)] c(1,4) by simp
  moreover have "(off - 8) + n \<le> al_size al" using layout_bounds [OF c(2)] heap_invD(2) [OF inv(1)] by simp
  ultimately show ?thesis using c by (auto simp: need_def MICA_ALLOC_OVERHEAD_def)
qed

theorem alloc_items_disjoint_witness:
  "\<exists>al. alloc_run al {(8, 16), (40, 16)} \<and> 8 + MICA_ROUNDUP8 16 + 8 \<le> al_size al
    \<and> 8 + MICA_ROUNDUP8 16 + 8 \<le> 40 - (8 :: nat)"
proof -
  obtain al where al: "two_items 16 = Inr (Some 8, Some 40, al)" using two_items_16(1) by blast
  then have run: "alloc_run al {(8, 16), (40, 16)}" using two_items_run [OF al] by simp
  then show ?thesis
    using alloc_items_disjoint [OF run, of 8 16 40 16] by (intro exI [of _ al]) (simp add: MICA_ROUNDUP8_def)
qed

text \<open>
  C25: Deallocating a live item always returns, as long as clients keep out of the end tags: in every run of allocations, deallocations
  of live items and writes to the data of live items except for the last 8 bytes of its rounded size, no assertion on the boundary tags fails and no
  access leaves the reserved memory, whatever was allocated, freed and written before. The last 8 bytes are the end tag of the chunk (the size computed
  for a chunk leaves out the item header); a client that fills all data bytes, as alloc/test.c does, is not covered, and
  \<open>alloc_item_data_overlaps_tag\<close> below shows that then a deallocation can fail.
\<close>

theorem alloc_deallocate_ok:
  assumes "alloc_run al L" "(off, i) \<in> L"
  shows "\<exists>al'. mica_alloc_deallocate al off = Inr al' \<and> alloc_run al' (L - {(off, i)})"
  using alloc_deallocate_step [OF assms] .

theorem alloc_deallocate_ok_witness:
  "\<exists>al off al'. alloc_run al {(off, 16)} \<and> mica_alloc_deallocate al off = Inr al'"
proof -
  obtain al off where "alloc_run al {(off, 16)}" using small_run by metis
  then show ?thesis using alloc_deallocate_ok [of al _ off 16] by blast
qed

text \<open>
  C27: Allocating an item of 9 to 264 bytes always returns: it takes a chunk, or reports
  insufficient space with the heap unchanged.
\<close>

theorem alloc_small_item_ok:
  assumes "alloc_run al L" "8 < i" "i \<le> 264"
  shows "mica_alloc_allocate al i = Inr (al, None) \<or>
    (\<exists>al' off. mica_alloc_allocate al i = Inr (al', Some off) \<and> alloc_run al' (insert (off, i) L)
       \<and> al_mem al' (mica_alloc_get_item al' off) = i)"
proof -
  obtain cs fl where inv: "heap_inv al cs fl" using run_inv_step [OF assms(1)] by (auto simp: run_inv_def)
  have i: "i < 2 ^ 32" using assms(3) by simp
  have n: "need i \<le> 280" using assms(3) unfolding need_def MICA_ROUNDUP8_def MICA_ALLOC_OVERHEAD_def by simp
  show ?thesis
  proof (cases rule: allocate_cases [OF inv assms(2) i, case_names full small ok])
    case (ok xs k ys al' fl')
    then show ?thesis using run_alloc [OF assms(1) i ok(4)] by (simp add: mica_alloc_get_item_def add.assoc)
  qed (use n in auto)
qed

theorem alloc_small_item_ok_witness:
  "\<exists>al. alloc_run al {} \<and> returns (mica_alloc_allocate al 16)"
proof -
  obtain al where "alloc_run al {}" using small_run by metis
  then show ?thesis using alloc_small_item_ok [of al "{}" 16] by (auto simp: returns_def)
qed

text \<open>
  C26: Freed memory coalesces completely: in every run that ends with no live item the whole
  reserved memory is one free chunk again.
\<close>

theorem alloc_all_freed:
  assumes "alloc_run al {}"
  shows "al_mem al (al_data al) = MICA_ALLOC_TAG_VEC (al_size al) MICA_ALLOC_FREE
    \<and> al_mem al (al_data al + al_size al - 8) = MICA_ALLOC_TAG_VEC (al_size al) MICA_ALLOC_FREE"
proof -
  obtain cs fl where inv: "heap_inv al cs fl" "no_hole cs" "no_adj cs" "items_ok cs {}" "cs \<noteq> []"
    using run_inv_step [OF assms] by (auto simp: run_inv_def)
  have free: "snd c = Free" if cin: "c \<in> set cs" for c
  proof -
    obtain xs ys where "cs = xs @ c # ys" using split_list [OF cin] by blast
    then have "(csum xs, fst c, snd c) \<in> set (layout 0 cs)" by simp
    then show ?thesis using inv(2,4) cin by (cases "snd c") (auto simp: items_ok_def no_hole_def)
  qed
  obtain c ds where cs: "cs = c # ds" using inv(5) by (cases cs) auto
  have "ds = []" using inv(3) free cs by (cases ds) (auto simp: no_adj_def)
  then have "cs = [(al_size al, Free)]" using cs free heap_invD(2) [OF inv(1)] by (cases c) auto
  then show ?thesis using heap_invD(5) [OF inv(1)] by (simp add: tags_ok_def tag_def)
qed

theorem alloc_all_freed_witness:
  "\<exists>al off al'. alloc_run al {(off, 16)} \<and> mica_alloc_deallocate al off = Inr al'
    \<and> al_mem al' (al_data al') = MICA_ALLOC_TAG_VEC (al_size al') MICA_ALLOC_FREE"
proof -
  obtain al off where run: "alloc_run al {(off, 16)}" using small_run by metis
  obtain al' where d: "mica_alloc_deallocate al off = Inr al'" "alloc_run al' ({(off, 16)} - {(off, 16)})"
    using alloc_deallocate_step [OF run] by auto
  then have "alloc_run al' {}" by simp
  then show ?thesis using alloc_all_freed [of al'] run d(1) by blast
qed

text \<open>
  C28: An item of more than 264 bytes can stop the program although the heap has room: there is
  a run after which the last size class has a free chunk of 280 bytes in front and, next in its list, a free chunk of
  2096592 bytes. Then allocating any item of 265 to 2000000 bytes, which needs more than 280 and no more than 2096592, fails: only the first
  chunk of the class is looked at, it is free, and the assertion that it is large enough is the one that does not hold.
\<close>

theorem alloc_large_item_stops:
  "\<exists>al L h n. alloc_run al L \<and> h = free_head al (MICA_ALLOC_NUM_CLASSES - 1) \<and> al_mem al h = MICA_ALLOC_TAG_VEC 280 MICA_ALLOC_FREE
     \<and> n = al_mem al (h + 16) \<and> al_mem al n = MICA_ALLOC_TAG_VEC 2096592 MICA_ALLOC_FREE
     \<and> (\<forall>i. 264 < i \<and> i \<le> 2000000 \<longrightarrow> 280 < MICA_ROUNDUP8 i + MICA_ALLOC_OVERHEAD
          \<and> MICA_ROUNDUP8 i + MICA_ALLOC_OVERHEAD \<le> 2096592 \<and> mica_alloc_allocate al i = Inl AssertFail)"
proof -
  obtain al where al: "two_items 264 = Inr (Some 8, Some 288, al)" using two_items_264(1) by blast
  have run: "alloc_run al {(8, 264), (288, 264)}" using two_items_run [OF al] by simp
  obtain al' where d: "mica_alloc_deallocate al 8 = Inr al'" using alloc_deallocate_step [OF run] by auto
  have r: "alloc_run al' ({(8, 264), (288, 264)} - {(8, 264)})" using run_free [OF run _ d, of 264] by simp
  have m: "al_data al' = 4096" "al_size al' = 2097152" "free_head al' 31 = 4096" "al_mem al' 4096 = MICA_ALLOC_TAG_VEC 280 MICA_ALLOC_FREE"
    "al_mem al' 4112 = 4656" "al_mem al' 4656 = MICA_ALLOC_TAG_VEC 2096592 MICA_ALLOC_FREE"
    using two_items_264(2) al d by simp_all
  have "280 < MICA_ROUNDUP8 i + MICA_ALLOC_OVERHEAD \<and> MICA_ROUNDUP8 i + MICA_ALLOC_OVERHEAD \<le> 2096592
      \<and> mica_alloc_allocate al' i = Inl AssertFail" if "264 < i" "i \<le> 2000000" for i
  proof -
    have "MICA_ROUNDUP8 i + MICA_ALLOC_OVERHEAD \<le> 2096592" using that(2) by (simp add: MICA_ROUNDUP8_def MICA_ALLOC_OVERHEAD_def)
    thus ?thesis using large_item_first_chunk [OF that(1), of al'] m by simp
  qed
  thus ?thesis using r m by (intro exI [of _ al'] exI [of _ "{(8, 264), (288, 264)} - {(8, 264)}"] exI [of _ 4096] exI [of _ 4656])
      (simp add: MICA_ALLOC_NUM_CLASSES_def)
qed

theorem alloc_large_item_stops_witness:
  "\<exists>al L. alloc_run al L \<and> mica_alloc_allocate al 300 = Inl AssertFail"
proof -
  obtain al L where "alloc_run al L" "\<forall>i. 264 < i \<and> i \<le> 2000000 \<longrightarrow> mica_alloc_allocate al i = Inl AssertFail"
    using alloc_large_item_stops by blast
  thus ?thesis by (intro exI [of _ al] exI [of _ L]) simp
qed

text \<open>
  The data area of an item is 8 bytes short: after two allocations of 16 bytes, writing the
  16 data bytes of the first item (both cells after its header) overwrites the end tag of its
  chunk, and deallocating the second item fails the tag assertion.
\<close>

theorem alloc_item_data_overlaps_tag:
  "\<exists>al. alloc_run al {(8, 16), (40, 16)} \<and>
     mica_alloc_deallocate (al\<lparr>al_mem := (al_mem al)
       (mica_alloc_get_item al 8 + 8 := 0, mica_alloc_get_item al 8 + 16 := 0)\<rparr>) 40 = Inl AssertFail"
proof -
  obtain al where al: "two_items 16 = Inr (Some 8, Some 40, al)" using two_items_16(1) by blast
  then show ?thesis using two_items_run [OF al] two_items_16(2) by auto
qed

end
