(* ===== verification/Hrd.thy ===== *)
theory Hrd
  imports Prelude
begin

text \<open>
  The utilities of libhrd (libhrd/hrd.h, hrd_util.c): port resolution, completion polling, the
  memcached registry, shared-memory buffers and small helpers. Calls into libibverbs, memcached
  and the kernel are parameters: a device list describes what the verbs queries answer, a stream
  describes what successive polls deliver, and the registry is a pair of get and set functions
  on an opaque state.
\<close>

subsection \<open>Constants and helpers\<close>

definition HRD_Q_DEPTH :: nat where "HRD_Q_DEPTH = 128"
definition HRD_DEFAULT_PSN :: int where "HRD_DEFAULT_PSN = 3185"
definition HRD_DEFAULT_QKEY :: int where "HRD_DEFAULT_QKEY = 0x11111111"
definition HRD_QP_NAME_SIZE :: nat where "HRD_QP_NAME_SIZE = 200"
definition HRD_RESERVED_NAME_PREFIX :: string where
  "HRD_RESERVED_NAME_PREFIX = ''__HRD_RESERVED_NAME_PREFIX''"
definition HRD_MAX_INLINE :: nat where "HRD_MAX_INLINE = 60"
definition K_128 :: int where "K_128 = 131072"
definition M_2 :: int where "M_2 = 2097152"
definition M_1024 :: int where "M_1024 = 1073741824"

text \<open>
  \<open>hrd_post_dgram_recv\<close>: a RECV of \<open>len\<close> bytes at offset \<open>off\<close> behind the posted ones, unless
  \<open>ibv_post_recv\<close> fails.
\<close>

definition hrd_post_dgram_recv :: "int \<Rightarrow> (nat \<times> nat) list \<Rightarrow> nat \<Rightarrow> nat \<Rightarrow> (nat \<times> nat) list res" where
  "hrd_post_dgram_recv ret recvs off len =
     bind_res (check (ret = 0) (ExitWith (-1))) (\<lambda>_. Inr (recvs @ [(off, len)]))"

definition HRD_MOD_ADD :: "int \<Rightarrow> int \<Rightarrow> int" where
  "HRD_MOD_ADD x n = (let x = x + 1 in if x = n then 0 else x)"

definition hrd_fastrand :: "u64 \<Rightarrow> u32 \<times> u64" where
  "hrd_fastrand seed = (let seed = seed * 1103515245 + 12345 in (ucast (drop_bit 32 seed), seed))"

definition hrd_is_power_of_2 :: "u32 \<Rightarrow> bool" where
  "hrd_is_power_of_2 n \<longleftrightarrow> n \<noteq> 0 \<and> n AND (n - 1) = 0"

subsection \<open>Port resolution\<close>

text \<open>
  What the verbs say about one device: whether it opens and answers the device query, its port
  count, the physical state of each port (\<open>None\<close> when the port query fails; port numbers start
  at 1) and whether it closes.
\<close>

record dev_info =
  dev_opens :: bool
  dev_queries :: bool
  phys_port_cnt :: nat
  port_state :: "nat \<Rightarrow> int option"
  dev_closes :: bool

definition IBV_PORT_ACTIVE :: int where "IBV_PORT_ACTIVE = 4"
definition IBV_PORT_ACTIVE_DEFER :: int where "IBV_PORT_ACTIVE_DEFER = 5"

definition port_enabled :: "int \<Rightarrow> bool" where
  "port_enabled st \<longleftrightarrow> \<not> (st \<noteq> IBV_PORT_ACTIVE \<and> st \<noteq> IBV_PORT_ACTIVE_DEFER)"

text \<open>
  The loop over the ports of a device, with \<open>left\<close> ports to go after \<open>port_i - 1\<close>: the port found,
  or the number of enabled ports still to skip.
\<close>

fun scan_ports :: "dev_info \<Rightarrow> nat \<Rightarrow> nat \<Rightarrow> int \<Rightarrow> (nat + int) res" where
  "scan_ports d port_i 0 todo = Inr (Inr todo)"
| "scan_ports d port_i (Suc left) todo =
     (case port_state d port_i of
        None \<Rightarrow> Inl (ExitWith (-1))
      | Some st \<Rightarrow>
          if \<not> port_enabled st then scan_ports d (port_i + 1) left todo
          else if todo = 0 then Inr (Inl port_i)
          else scan_ports d (port_i + 1) left (todo - 1))"

text \<open>
  The loop over the devices. The port counter is a \<open>uint8_t\<close> compared with \<open>phys_port_cnt\<close>: with
  255 ports it would wrap around and never end.
\<close>

fun scan_devices :: "dev_info list \<Rightarrow> nat \<Rightarrow> int \<Rightarrow> (nat \<times> nat) res" where
  "scan_devices [] dev_i todo = Inl (ExitWith (-1))"
| "scan_devices (d # ds) dev_i todo =
     bind_res (check (dev_opens d) (ExitWith 0)) (\<lambda>_.
     bind_res (check (dev_queries d) (ExitWith (-1))) (\<lambda>_.
     bind_res (check (phys_port_cnt d < 255) Stuck) (\<lambda>_.
     bind_res (scan_ports d 1 (phys_port_cnt d) todo) (\<lambda>r.
     case r of
       Inl port_i \<Rightarrow> bind_res (check (dev_closes d) AssertFail) (\<lambda>_. Inr (dev_i, port_i))
     | Inr todo' \<Rightarrow> bind_res (check (dev_closes d) AssertFail) (\<lambda>_. scan_devices ds (dev_i + 1) todo')))))"

definition hrd_resolve_port_index :: "dev_info list option \<Rightarrow> int \<Rightarrow> (nat \<times> nat) res" where
  "hrd_resolve_port_index dev_list port_index =
     bind_res (check (port_index \<ge> 0) AssertFail) (\<lambda>_.
     case dev_list of None \<Rightarrow> Inl (ExitWith 0)
     | Some ds \<Rightarrow> scan_devices ds 0 port_index)"

definition hrd_get_local_lid :: "dev_info option \<Rightarrow> (nat \<Rightarrow> u16 option) \<Rightarrow> int \<Rightarrow> u16 res" where
  "hrd_get_local_lid ctx lid_of dev_port_id =
     bind_res (check (ctx \<noteq> None \<and> dev_port_id \<ge> 1) AssertFail) (\<lambda>_.
     case lid_of (nat dev_port_id) of None \<Rightarrow> Inl AssertFail | Some l \<Rightarrow> Inr l)"

subsection \<open>Completion polling\<close>

text \<open>
  \<open>poll t n\<close> is what the \<open>t\<close>-th call of \<open>ibv_poll_cq\<close> with room for \<open>n\<close> completions returns: a
  negative error code, or the statuses of the completions it writes. The state of the loop is
  the counter \<open>comps\<close> and the statuses in the array \<open>wc\<close>; it checks the first new completion
  only, and it adds a negative return value to the counter like a count, which makes the next
  call write in front of the array. Not returning is the value \<open>None\<close>.
\<close>

type_synonym poller = "nat \<Rightarrow> nat \<Rightarrow> int + int list"
type_synonym wcs = "nat \<Rightarrow> int"

datatype poll_end = PollDone wcs nat | PollBad int | PollWild

definition put_wcs :: "wcs \<Rightarrow> nat \<Rightarrow> int list \<Rightarrow> wcs" where
  "put_wcs wc i ss = (\<lambda>j. if i \<le> j \<and> j < i + length ss then ss ! (j - i) else wc j)"

partial_function (option) poll_loop :: "poller \<Rightarrow> nat \<Rightarrow> nat \<Rightarrow> nat \<Rightarrow> wcs \<Rightarrow> poll_end option" where
  "poll_loop poll t num comps wc =
     (if comps < num then
        (case poll t (num - comps) of
           Inl e \<Rightarrow>
             if wc comps \<noteq> 0 then Some (PollBad (wc comps))
             else if int comps + e < 0 then Some PollWild
             else poll_loop poll (t + 1) num (nat (int comps + e)) wc
         | Inr ss \<Rightarrow>
             if ss = [] then poll_loop poll (t + 1) num comps wc
             else
               let wc' = put_wcs wc comps ss in
               if wc' comps \<noteq> 0 then Some (PollBad (wc' comps))
               else poll_loop poll (t + 1) num (comps + length ss) wc')
      else Some (PollDone wc t))"

text \<open>The statuses and the number of the next poll; a bad status ends the process.\<close>

definition hrd_poll_cq :: "poller \<Rightarrow> nat \<Rightarrow> nat \<Rightarrow> wcs \<Rightarrow> (wcs \<times> nat) res option" where
  "hrd_poll_cq poll t num_comps wc =
     map_option (\<lambda>e. case e of PollDone wc' t' \<Rightarrow> Inr (wc', t') | PollBad st \<Rightarrow> Inl (ExitWith 0)
       | PollWild \<Rightarrow> Inl OutOfBounds) (poll_loop poll t num_comps 0 wc)"

text \<open>The variant that returns -1 on a bad status; the statuses and poll number of the 0 result.\<close>

definition hrd_poll_cq_ret :: "poller \<Rightarrow> nat \<Rightarrow> nat \<Rightarrow> wcs \<Rightarrow> (int \<times> (wcs \<times> nat) option) res option" where
  "hrd_poll_cq_ret poll t num_comps wc =
     map_option (\<lambda>e. case e of PollDone wc' t' \<Rightarrow> Inr (0, Some (wc', t')) | PollBad st \<Rightarrow> Inr (-1, None)
       | PollWild \<Rightarrow> Inl OutOfBounds) (poll_loop poll t num_comps 0 wc)"

subsection \<open>The registry\<close>

datatype memc_ret = MEMCACHED_SUCCESS | MEMCACHED_NOTFOUND | MEMCACHED_FAILURE

type_synonym 'm memc_set = "'m \<Rightarrow> string \<Rightarrow> u8 list \<Rightarrow> memc_ret \<times> 'm"
type_synonym 'm memc_get = "'m \<Rightarrow> string \<Rightarrow> memc_ret \<times> u8 list"

definition hrd_publish :: "'m memc_set \<Rightarrow> 'm \<Rightarrow> string \<Rightarrow> u8 list \<Rightarrow> 'm res" where
  "hrd_publish mset m key v =
     bind_res (check (length v > 0) AssertFail) (\<lambda>_.
     case mset m key v of
       (MEMCACHED_SUCCESS, m') \<Rightarrow> Inr m'
     | (_, m') \<Rightarrow> Inl (ExitWith (-1)))"

text \<open>The value and its length; a key that is not found gives \<open>None\<close> (NULL and -1).\<close>

definition hrd_get_published :: "'m memc_get \<Rightarrow> 'm \<Rightarrow> string \<Rightarrow> u8 list option res" where
  "hrd_get_published mget m key =
     (case mget m key of
        (MEMCACHED_SUCCESS, v) \<Rightarrow> Inr (Some v)
      | (MEMCACHED_NOTFOUND, v) \<Rightarrow> Inr None
      | (MEMCACHED_FAILURE, v) \<Rightarrow> Inl (ExitWith (-1)))"

definition string_bytes :: "string \<Rightarrow> u8 list" where
  "string_bytes s = map (\<lambda>c. of_nat (of_char c)) s"

definition hrd_ready_value :: "u8 list" where
  "hrd_ready_value = string_bytes ''hrd_ready''"

definition hrd_publish_ready :: "'m memc_set \<Rightarrow> 'm \<Rightarrow> string \<Rightarrow> 'm res" where
  "hrd_publish_ready mset m qp_name =
     bind_res (check (length qp_name < HRD_QP_NAME_SIZE) AssertFail) (\<lambda>_.
     hrd_publish mset m (HRD_RESERVED_NAME_PREFIX @ qp_name) hrd_ready_value)"

text \<open>
  The polling loop over the states \<open>ms t\<close> the registry goes through; memcached terminates the
  value it returns, so \<open>strcmp\<close> compares it up to a first zero byte.
\<close>

definition c_string :: "u8 list \<Rightarrow> u8 list" where
  "c_string v = takeWhile (\<lambda>b. b \<noteq> 0) v"

partial_function (option) hrd_wait_till_ready :: "'m memc_get \<Rightarrow> (nat \<Rightarrow> 'm) \<Rightarrow> nat \<Rightarrow> string \<Rightarrow> nat res option" where
  "hrd_wait_till_ready mget ms t qp_name =
     (case hrd_get_published mget (ms t) (HRD_RESERVED_NAME_PREFIX @ qp_name) of
        Inl e \<Rightarrow> Some (Inl e)
      | Inr r \<Rightarrow>
          if (case r of None \<Rightarrow> False | Some v \<Rightarrow> length v > 0 \<and> c_string v = hrd_ready_value)
          then Some (Inr t)
          else hrd_wait_till_ready mget ms (t + 1) qp_name)"

subsection \<open>Shared memory\<close>

text \<open>
  The system calls as parameters: \<open>shmget\<close> gives an identifier or -1, \<open>shmat\<close> an address
  (null is \<open>0\<close>, failure \<open>-1\<close>), \<open>mbind\<close>, \<open>shmctl\<close> and \<open>shmdt\<close> a return code.
\<close>

definition hrd_malloc_socket ::
  "(int \<Rightarrow> int \<Rightarrow> int) \<Rightarrow> (int \<Rightarrow> int) \<Rightarrow> (int \<Rightarrow> int \<Rightarrow> u64 \<Rightarrow> int) \<Rightarrow> int \<Rightarrow> int \<Rightarrow> int \<Rightarrow> int res" where
  "hrd_malloc_socket shmget shmat mbind shm_key size0 socket_id =
     (let shmid = shmget shm_key size0 in
      bind_res (check (shmid \<noteq> -1) AssertFail) (\<lambda>_.
      let buf = shmat shmid in
      bind_res (check (buf \<noteq> 0) (ExitWith (-1))) (\<lambda>_.
      bind_res (check (0 \<le> socket_id \<and> socket_id < 31) UndefShift) (\<lambda>_.
      bind_res (check (mbind buf size0 (push_bit (nat socket_id) 1) = 0) (ExitWith (-1))) (\<lambda>_.
      Inr buf)))))"

definition hrd_free :: "(int \<Rightarrow> int) \<Rightarrow> (int \<Rightarrow> int) \<Rightarrow> (int \<Rightarrow> int) \<Rightarrow> int \<Rightarrow> int \<Rightarrow> int res" where
  "hrd_free shmget shmctl shmdt shm_key shm_buf =
     (let shmid = shmget shm_key in
      if shmid = -1 then Inr (-1)
      else
        bind_res (check (shmctl shmid = 0) (ExitWith (-1))) (\<lambda>_.
        bind_res (check (shmdt shm_buf = 0) (ExitWith (-1))) (\<lambda>_.
        Inr 0)))"

end
