(* ===== verification/Hrd_Conn.thy ===== *)
theory Hrd_Conn
  imports Hrd
begin

text \<open>
  Queue-pair management of libhrd (libhrd/hrd_conn.c): control blocks, datagram and connected
  queue pairs, connecting, publishing and looking up. A function that talks to libibverbs is a
  computation that records the calls it makes, in order; what the calls and the system answer is
  given by an environment. \<open>HRD_CONNECT_IB_ATOMICS\<close> is 0, as in hrd.h. The arrays a control
  block allocates with malloc are assumed to be allocated.
\<close>

subsection \<open>Verbs calls\<close>

datatype qpid = DgramQp nat | ConnQp nat
datatype cqid = DgramSendCq nat | DgramRecvCq nat | ConnCq nat
datatype mrid = DgramMr | ConnMr
datatype qp_type = IBV_QPT_UD | IBV_QPT_UC | IBV_QPT_RC
datatype qp_state = IBV_QPS_RESET | IBV_QPS_INIT | IBV_QPS_RTR | IBV_QPS_RTS
datatype access = IBV_ACCESS_LOCAL_WRITE | IBV_ACCESS_REMOTE_WRITE | IBV_ACCESS_REMOTE_READ | IBV_ACCESS_REMOTE_ATOMIC
datatype qp_mask = IBV_QP_STATE | IBV_QP_PKEY_INDEX | IBV_QP_PORT | IBV_QP_QKEY | IBV_QP_SQ_PSN
  | IBV_QP_ACCESS_FLAGS | IBV_QP_AV | IBV_QP_PATH_MTU | IBV_QP_DEST_QPN | IBV_QP_RQ_PSN
  | IBV_QP_MAX_DEST_RD_ATOMIC | IBV_QP_MIN_RNR_TIMER | IBV_QP_TIMEOUT | IBV_QP_RETRY_CNT
  | IBV_QP_RNR_RETRY | IBV_QP_MAX_QP_RD_ATOMIC

record qp_init_attr =
  send_cq :: cqid
  recv_cq :: cqid
  qp_type :: qp_type
  max_send_wr :: nat
  max_recv_wr :: nat
  max_send_sge :: nat
  max_recv_sge :: nat
  max_inline_data :: nat

record qp_attr =
  qp_state :: qp_state
  port_num :: u8
  qkey :: u32
  qp_access_flags :: "access list"
  path_mtu :: nat
  dest_qp_num :: u32
  rq_psn :: u32
  sq_psn :: u32
  dlid :: u16
  ah_port_num :: u8
  max_dest_rd_atomic :: nat
  min_rnr_timer :: nat
  qp_timeout :: nat
  retry_cnt :: nat
  rnr_retry :: nat
  max_rd_atomic :: nat

definition IBV_MTU_1024 :: nat where "IBV_MTU_1024 = 3"

definition zero_attr :: qp_attr where
  "zero_attr = \<lparr>qp_state = IBV_QPS_RESET, port_num = 0, qkey = 0, qp_access_flags = [], path_mtu = 0,
     dest_qp_num = 0, rq_psn = 0, sq_psn = 0, dlid = 0, ah_port_num = 0, max_dest_rd_atomic = 0,
     min_rnr_timer = 0, qp_timeout = 0, retry_cnt = 0, rnr_retry = 0, max_rd_atomic = 0\<rparr>"

datatype vcall =
    OpenDevice nat
  | AllocPd
  | CreateCq cqid nat
  | CreateQp qpid qp_init_attr
  | ModifyQp qpid qp_attr "qp_mask list"
  | MallocSocket int int int
  | Memalign int
  | RegMr mrid int int "access list"
  | DestroyQp qpid
  | DestroyCq cqid
  | DeregMr mrid
  | HrdFree int int
  | FreeBuf int
  | DeallocPd
  | CloseDevice

text \<open>
  The environment: which verbs calls succeed, and the answers of the system calls (\<open>os_shmget\<close>
  creates a segment, \<open>os_shmfind\<close> looks one up; a null address is 0).
\<close>

record env =
  verb_ok :: "vcall \<Rightarrow> bool"
  os_shmget :: "int \<Rightarrow> int \<Rightarrow> int"
  os_shmat :: "int \<Rightarrow> int"
  os_mbind :: "int \<Rightarrow> int \<Rightarrow> u64 \<Rightarrow> int"
  os_shmfind :: "int \<Rightarrow> int"
  os_shmctl :: "int \<Rightarrow> int"
  os_shmdt :: "int \<Rightarrow> int"
  os_memalign :: "int \<Rightarrow> int"

type_synonym 'a vm = "env \<Rightarrow> vcall list \<Rightarrow> vcall list \<times> 'a res"

definition ret :: "'a \<Rightarrow> 'a vm" where
  "ret x = (\<lambda>env tr. (tr, Inr x))"

definition failv :: "c_error \<Rightarrow> 'a vm" where
  "failv e = (\<lambda>env tr. (tr, Inl e))"

definition bindv :: "'a vm \<Rightarrow> ('a \<Rightarrow> 'b vm) \<Rightarrow> 'b vm" where
  "bindv m f = (\<lambda>env tr. case m env tr of (tr', Inl e) \<Rightarrow> (tr', Inl e) | (tr', Inr x) \<Rightarrow> f x env tr')"

definition liftv :: "'a res \<Rightarrow> 'a vm" where
  "liftv r = (\<lambda>env tr. (tr, r))"

definition callv :: "vcall \<Rightarrow> bool vm" where
  "callv c = (\<lambda>env tr. (tr @ [c], Inr (verb_ok env c)))"

definition needv :: "vcall \<Rightarrow> c_error \<Rightarrow> unit vm" where
  "needv c e = bindv (callv c) (\<lambda>ok. if ok then ret () else failv e)"

definition mallocv :: "int \<Rightarrow> int \<Rightarrow> int \<Rightarrow> int vm" where
  "mallocv key size0 node = (\<lambda>env tr. (tr @ [MallocSocket key size0 node],
     hrd_malloc_socket (os_shmget env) (os_shmat env) (os_mbind env) key size0 node))"

definition memalignv :: "int \<Rightarrow> int vm" where
  "memalignv size0 = (\<lambda>env tr. (tr @ [Memalign size0], Inr (os_memalign env size0)))"

definition freev :: "int \<Rightarrow> int \<Rightarrow> int vm" where
  "freev key buf = (\<lambda>env tr. (tr @ [HrdFree key buf],
     hrd_free (os_shmfind env) (os_shmctl env) (os_shmdt env) key buf))"

subsection \<open>The control block\<close>

text \<open>
  The fields of \<open>struct hrd_ctrl_blk\<close> that the code uses, and two facts about a block that its fields do not show: how many entries of
  the datagram arrays are filled, and whether the caller supplied the buffer of the connected queue pairs.
\<close>

record hrd_ctrl_blk =
  local_hid :: int
  port_index :: int
  device_id :: nat
  dev_port_id :: nat
  numa_node_id :: int
  use_uc :: int
  num_conn_qps :: int
  conn_buf :: int
  conn_buf_size :: int
  conn_buf_shm_key :: int
  num_dgram_qps :: int
  dgram_buf :: int
  dgram_buf_size :: int
  dgram_buf_shm_key :: int
  dgram_made :: nat
  conn_prealloc :: bool

text \<open>What the registry holds about a queue pair.\<close>

record hrd_qp_attr =
  qa_name :: string
  buf_addr :: u64
  buf_size :: u32
  rkey :: u32
  lid :: u32
  qpn :: u32

subsection \<open>Datagram queue pairs\<close>

definition dgram_create_attr :: "nat \<Rightarrow> qp_init_attr" where
  "dgram_create_attr i = \<lparr>send_cq = DgramSendCq i, recv_cq = DgramRecvCq i, qp_type = IBV_QPT_UD,
     max_send_wr = HRD_Q_DEPTH, max_recv_wr = HRD_Q_DEPTH, max_send_sge = 1, max_recv_sge = 1,
     max_inline_data = HRD_MAX_INLINE\<rparr>"

definition dgram_init_attr :: "hrd_ctrl_blk \<Rightarrow> qp_attr" where
  "dgram_init_attr cb = zero_attr\<lparr>qp_state := IBV_QPS_INIT, port_num := of_nat (dev_port_id cb), qkey := word_of_int HRD_DEFAULT_QKEY\<rparr>"

definition dgram_rtr_attr :: qp_attr where
  "dgram_rtr_attr = zero_attr\<lparr>qp_state := IBV_QPS_RTR\<rparr>"

definition dgram_rts_attr :: qp_attr where
  "dgram_rts_attr = dgram_rtr_attr\<lparr>qp_state := IBV_QPS_RTS, sq_psn := word_of_int HRD_DEFAULT_PSN\<rparr>"

text \<open>
  The loop from index \<open>i\<close> with \<open>n\<close> queue pairs to go. When the transition to INIT fails the
  function returns early; the result is the number of array entries it has filled.
\<close>

fun dgram_loop :: "hrd_ctrl_blk \<Rightarrow> nat \<Rightarrow> nat \<Rightarrow> nat vm" where
  "dgram_loop cb i 0 = ret i"
| "dgram_loop cb i (Suc n) =
     bindv (needv (CreateCq (DgramSendCq i) HRD_Q_DEPTH) AssertFail) (\<lambda>_.
     bindv (needv (CreateCq (DgramRecvCq i) HRD_Q_DEPTH) AssertFail) (\<lambda>_.
     bindv (needv (CreateQp (DgramQp i) (dgram_create_attr i)) AssertFail) (\<lambda>_.
     bindv (callv (ModifyQp (DgramQp i) (dgram_init_attr cb)
       [IBV_QP_STATE, IBV_QP_PKEY_INDEX, IBV_QP_PORT, IBV_QP_QKEY])) (\<lambda>ok.
     if \<not> ok then ret (i + 1)
     else
       bindv (needv (ModifyQp (DgramQp i) dgram_rtr_attr [IBV_QP_STATE]) (ExitWith (-1))) (\<lambda>_.
       bindv (needv (ModifyQp (DgramQp i) dgram_rts_attr [IBV_QP_STATE, IBV_QP_SQ_PSN]) (ExitWith (-1))) (\<lambda>_.
       dgram_loop cb (i + 1) n))))))"

definition hrd_create_dgram_qps :: "hrd_ctrl_blk \<Rightarrow> nat vm" where
  "hrd_create_dgram_qps cb =
     bindv (liftv (check (num_dgram_qps cb \<ge> 1 \<and> dev_port_id cb \<ge> 1) AssertFail)) (\<lambda>_.
     dgram_loop cb 0 (nat (num_dgram_qps cb)))"

subsection \<open>Connected queue pairs\<close>

definition conn_create_attr :: "hrd_ctrl_blk \<Rightarrow> nat \<Rightarrow> qp_init_attr" where
  "conn_create_attr cb i = \<lparr>send_cq = ConnCq i, recv_cq = ConnCq i,
     qp_type = (if use_uc cb = 1 then IBV_QPT_UC else IBV_QPT_RC),
     max_send_wr = HRD_Q_DEPTH, max_recv_wr = 1, max_send_sge = 1, max_recv_sge = 1,
     max_inline_data = HRD_MAX_INLINE\<rparr>"

definition conn_init_attr :: "hrd_ctrl_blk \<Rightarrow> qp_attr" where
  "conn_init_attr cb = zero_attr\<lparr>qp_state := IBV_QPS_INIT, port_num := of_nat (dev_port_id cb),
     qp_access_flags := (if use_uc cb = 1 then [IBV_ACCESS_REMOTE_WRITE]
       else [IBV_ACCESS_REMOTE_WRITE, IBV_ACCESS_REMOTE_READ, IBV_ACCESS_REMOTE_ATOMIC])\<rparr>"

fun conn_loop :: "hrd_ctrl_blk \<Rightarrow> nat \<Rightarrow> nat \<Rightarrow> unit vm" where
  "conn_loop cb i 0 = ret ()"
| "conn_loop cb i (Suc n) =
     bindv (needv (CreateCq (ConnCq i) HRD_Q_DEPTH) AssertFail) (\<lambda>_.
     bindv (needv (CreateQp (ConnQp i) (conn_create_attr cb i)) AssertFail) (\<lambda>_.
     bindv (needv (ModifyQp (ConnQp i) (conn_init_attr cb)
       [IBV_QP_STATE, IBV_QP_PKEY_INDEX, IBV_QP_PORT, IBV_QP_ACCESS_FLAGS]) (ExitWith (-1))) (\<lambda>_.
     conn_loop cb (i + 1) n)))"

definition hrd_create_conn_qps :: "hrd_ctrl_blk \<Rightarrow> unit vm" where
  "hrd_create_conn_qps cb =
     bindv (liftv (check (num_conn_qps cb \<ge> 1 \<and> dev_port_id cb \<ge> 1) AssertFail)) (\<lambda>_.
     conn_loop cb 0 (nat (num_conn_qps cb)))"

definition conn_rtr_attr :: "hrd_ctrl_blk \<Rightarrow> hrd_qp_attr \<Rightarrow> qp_attr" where
  "conn_rtr_attr cb remote =
     (let a = zero_attr\<lparr>qp_state := IBV_QPS_RTR, path_mtu := IBV_MTU_1024, dest_qp_num := qpn remote,
                rq_psn := word_of_int HRD_DEFAULT_PSN, dlid := ucast (lid remote), ah_port_num := of_nat (dev_port_id cb)\<rparr>
      in if use_uc cb = 0 then a\<lparr>max_dest_rd_atomic := 16, min_rnr_timer := 12\<rparr> else a)"

definition conn_rtr_flags :: "hrd_ctrl_blk \<Rightarrow> qp_mask list" where
  "conn_rtr_flags cb = [IBV_QP_STATE, IBV_QP_AV, IBV_QP_PATH_MTU, IBV_QP_DEST_QPN, IBV_QP_RQ_PSN]
     @ (if use_uc cb = 0 then [IBV_QP_MAX_DEST_RD_ATOMIC, IBV_QP_MIN_RNR_TIMER] else [])"

definition conn_rts_attr :: "hrd_ctrl_blk \<Rightarrow> qp_attr" where
  "conn_rts_attr cb =
     (let a = zero_attr\<lparr>qp_state := IBV_QPS_RTS, sq_psn := word_of_int HRD_DEFAULT_PSN\<rparr>
      in if use_uc cb = 0 then a\<lparr>qp_timeout := 14, retry_cnt := 7, rnr_retry := 7, max_rd_atomic := 16,
           max_dest_rd_atomic := 16\<rparr> else a)"

definition conn_rts_flags :: "hrd_ctrl_blk \<Rightarrow> qp_mask list" where
  "conn_rts_flags cb = [IBV_QP_STATE, IBV_QP_SQ_PSN]
     @ (if use_uc cb = 0 then [IBV_QP_TIMEOUT, IBV_QP_RETRY_CNT, IBV_QP_RNR_RETRY, IBV_QP_MAX_QP_RD_ATOMIC] else [])"

definition hrd_connect_qp :: "hrd_ctrl_blk \<Rightarrow> int \<Rightarrow> hrd_qp_attr \<Rightarrow> unit vm" where
  "hrd_connect_qp cb n remote =
     bindv (liftv (check (n \<ge> 0 \<and> n < num_conn_qps cb) AssertFail)) (\<lambda>_.
     bindv (liftv (check (dev_port_id cb \<ge> 1) AssertFail)) (\<lambda>_.
     bindv (needv (ModifyQp (ConnQp (nat n)) (conn_rtr_attr cb remote) (conn_rtr_flags cb)) AssertFail) (\<lambda>_.
     needv (ModifyQp (ConnQp (nat n)) (conn_rts_attr cb) (conn_rts_flags cb)) AssertFail)))"

subsection \<open>Creation and destruction of a control block\<close>

text \<open>The loop that rounds a buffer size up for hugepages.\<close>

function reg_size_loop :: "int \<Rightarrow> int \<Rightarrow> int" where
  "reg_size_loop size0 r = (if r < size0 then reg_size_loop size0 (r + K_128) else r)"
  by pat_completeness auto
termination by (relation "measure (\<lambda>(size0, r). nat (size0 - r))") (auto simp: K_128_def)

declare reg_size_loop.simps [simp del]

definition ib_flags :: "access list" where
  "ib_flags = [IBV_ACCESS_LOCAL_WRITE, IBV_ACCESS_REMOTE_READ, IBV_ACCESS_REMOTE_WRITE, IBV_ACCESS_REMOTE_ATOMIC]"

text \<open>
  A zeroed and registered buffer for datagram (or, without a preallocated one, connected) queue
  pairs, and its address. Clearing a buffer at the address \<open>shmat\<close> fails with is an error.
\<close>

definition alloc_reg_buf :: "mrid \<Rightarrow> int \<Rightarrow> int \<Rightarrow> int \<Rightarrow> int vm" where
  "alloc_reg_buf mr node size0 shm_key =
     (if node \<ge> 0 then
        let reg_size = reg_size_loop size0 0 in
        bindv (liftv (check (shm_key \<ge> 1 \<and> shm_key \<le> 128) AssertFail)) (\<lambda>_.
        bindv (mallocv shm_key reg_size node) (\<lambda>buf.
        bindv (liftv (check (buf \<noteq> 0) AssertFail)) (\<lambda>_.
        bindv (liftv (check (buf \<noteq> -1 \<or> reg_size = 0) OutOfBounds)) (\<lambda>_.
        bindv (needv (RegMr mr buf reg_size ib_flags) AssertFail) (\<lambda>_.
        ret buf)))))
      else
        bindv (memalignv size0) (\<lambda>buf.
        bindv (liftv (check (buf \<noteq> 0) AssertFail)) (\<lambda>_.
        bindv (needv (RegMr mr buf size0 ib_flags) AssertFail) (\<lambda>_.
        ret buf))))"

text \<open>The two phases of \<open>hrd_ctrl_blk_init\<close> after the protection domain is allocated.\<close>

definition dgram_phase :: "hrd_ctrl_blk \<Rightarrow> hrd_ctrl_blk vm" where
  "dgram_phase cb =
     (if num_dgram_qps cb \<ge> 1 then
        bindv (hrd_create_dgram_qps cb) (\<lambda>made.
        bindv (alloc_reg_buf DgramMr (numa_node_id cb) (dgram_buf_size cb) (dgram_buf_shm_key cb)) (\<lambda>buf.
        ret (cb\<lparr>dgram_made := made, dgram_buf := buf\<rparr>)))
      else ret cb)"

definition conn_phase :: "int \<Rightarrow> hrd_ctrl_blk \<Rightarrow> hrd_ctrl_blk vm" where
  "conn_phase pre cb =
     (if num_conn_qps cb \<ge> 1 then
        bindv (hrd_create_conn_qps cb) (\<lambda>_.
        if pre = 0 then
          bindv (alloc_reg_buf ConnMr (numa_node_id cb) (conn_buf_size cb) (conn_buf_shm_key cb)) (\<lambda>buf.
          ret (cb\<lparr>conn_buf := buf\<rparr>))
        else bindv (needv (RegMr ConnMr pre (conn_buf_size cb) ib_flags) AssertFail) (\<lambda>_. ret (cb\<lparr>conn_buf := pre\<rparr>)))
      else ret cb)"

definition check_init_args ::
  "int \<Rightarrow> int \<Rightarrow> int \<Rightarrow> int \<Rightarrow> int \<Rightarrow> int \<Rightarrow> int \<Rightarrow> int \<Rightarrow> int \<Rightarrow> unit res" where
  "check_init_args port node nconn uc pre conn_size conn_key ndgram dgram_size =
     bind_res (check (port \<ge> 0 \<and> port \<le> 16) AssertFail) (\<lambda>_.
     bind_res (check (node \<ge> -1 \<and> node \<le> 8) AssertFail) (\<lambda>_.
     bind_res (check (nconn \<ge> 0) AssertFail) (\<lambda>_.
     bind_res (check (uc = 0 \<or> uc = 1) AssertFail) (\<lambda>_.
     bind_res (check (conn_size \<ge> 0 \<and> conn_size \<le> M_1024) AssertFail) (\<lambda>_.
     bind_res (check (pre \<noteq> 0 \<longrightarrow> conn_key = -1) AssertFail) (\<lambda>_.
     bind_res (check (ndgram \<ge> 0 \<and> ndgram \<le> M_2) AssertFail) (\<lambda>_.
     bind_res (check (dgram_size \<ge> 0 \<and> dgram_size \<le> M_1024) AssertFail) (\<lambda>_.
     check (\<not> (nconn = 0 \<and> ndgram = 0)) AssertFail))))))))"

definition hrd_ctrl_blk_init ::
  "dev_info list option \<Rightarrow> int \<Rightarrow> int \<Rightarrow> int \<Rightarrow> int \<Rightarrow> int \<Rightarrow> int \<Rightarrow> int \<Rightarrow> int \<Rightarrow> int \<Rightarrow> int \<Rightarrow> int \<Rightarrow> hrd_ctrl_blk vm" where
  "hrd_ctrl_blk_init devs hid port node nconn uc pre conn_size conn_key ndgram dgram_size dgram_key =
     bindv (liftv (check_init_args port node nconn uc pre conn_size conn_key ndgram dgram_size)) (\<lambda>_.
     bindv (liftv (hrd_resolve_port_index devs port)) (\<lambda>(dev, dport).
     let cb = \<lparr>local_hid = hid, port_index = port, device_id = dev, dev_port_id = dport,
               numa_node_id = node, use_uc = uc, num_conn_qps = nconn, conn_buf = 0,
               conn_buf_size = conn_size, conn_buf_shm_key = conn_key, num_dgram_qps = ndgram, dgram_buf = 0,
               dgram_buf_size = dgram_size, dgram_buf_shm_key = dgram_key, dgram_made = 0,
               conn_prealloc = (pre \<noteq> 0)\<rparr>
     in
     bindv (needv (OpenDevice dev) (ExitWith 0)) (\<lambda>_.
     bindv (needv AllocPd (ExitWith 0)) (\<lambda>_.
     bindv (dgram_phase cb) (\<lambda>cb.
     conn_phase pre cb)))))"

text \<open>
  Destruction. A failed call returns -1 at once; reading an entry of a datagram array that was
  never filled is an error.
\<close>

definition tryv :: "vcall \<Rightarrow> int vm \<Rightarrow> int vm" where
  "tryv c k = bindv (callv c) (\<lambda>ok. if ok then k else ret (-1))"

fun destroy_dgram :: "hrd_ctrl_blk \<Rightarrow> nat \<Rightarrow> nat \<Rightarrow> int vm \<Rightarrow> int vm" where
  "destroy_dgram cb i 0 k = k"
| "destroy_dgram cb i (Suc n) k =
     bindv (liftv (check (i < dgram_made cb) OutOfBounds)) (\<lambda>_.
     tryv (DestroyQp (DgramQp i))
       (tryv (DestroyCq (DgramSendCq i))
         (tryv (DestroyCq (DgramRecvCq i)) (destroy_dgram cb (i + 1) n k))))"

fun destroy_conn :: "nat \<Rightarrow> nat \<Rightarrow> int vm \<Rightarrow> int vm" where
  "destroy_conn i 0 k = k"
| "destroy_conn i (Suc n) k =
     tryv (DestroyQp (ConnQp i)) (tryv (DestroyCq (ConnCq i)) (destroy_conn (i + 1) n k))"

text \<open>
  The buffer is freed whether or not the caller supplied it; a result -1 of \<open>hrd_free\<close> is only reported. Without a NUMA node this is a
  \<open>free\<close>, which is undefined for memory that does not come from the allocation in \<open>hrd_ctrl_blk_init\<close> (\<open>own\<close>).
\<close>

definition free_buf :: "hrd_ctrl_blk \<Rightarrow> bool \<Rightarrow> int \<Rightarrow> int \<Rightarrow> int vm \<Rightarrow> int vm" where
  "free_buf cb own buf key k =
     (if numa_node_id cb \<ge> 0 then bindv (freev key buf) (\<lambda>_. k)
      else bindv (liftv (check own BadFree)) (\<lambda>_. bindv (callv (FreeBuf buf)) (\<lambda>_. k)))"

definition hrd_ctrl_blk_destroy :: "hrd_ctrl_blk \<Rightarrow> int vm" where
  "hrd_ctrl_blk_destroy cb =
     destroy_dgram cb 0 (nat (num_dgram_qps cb))
       (destroy_conn 0 (nat (num_conn_qps cb))
         ((if num_dgram_qps cb > 0
           then (\<lambda>k. tryv (DeregMr DgramMr) (free_buf cb True (dgram_buf cb) (dgram_buf_shm_key cb) k)) else (\<lambda>k. k))
         ((if num_conn_qps cb > 0
           then (\<lambda>k. tryv (DeregMr ConnMr) (free_buf cb (\<not> conn_prealloc cb) (conn_buf cb) (conn_buf_shm_key cb) k)) else (\<lambda>k. k))
         (tryv DeallocPd (tryv CloseDevice (ret 0))))))"

subsection \<open>Publishing and looking up\<close>

text \<open>Is \<open>pat\<close> a substring of \<open>s\<close>, as \<open>strstr\<close> decides it?\<close>

fun strstr :: "string \<Rightarrow> string \<Rightarrow> bool" where
  "strstr [] pat = (pat = [])"
| "strstr (c # s) pat = (take (length pat) (c # s) = pat \<or> strstr s pat)"

definition check_qp_name :: "string \<Rightarrow> unit res" where
  "check_qp_name qp_name =
     bind_res (check (length qp_name < HRD_QP_NAME_SIZE - 1) AssertFail) (\<lambda>_.
     bind_res (check (\<not> strstr qp_name HRD_RESERVED_NAME_PREFIX) AssertFail) (\<lambda>_.
     check (\<not> list_ex (\<lambda>c. c = CHR '' '') qp_name) (ExitWith (-1))))"

text \<open>
  The 224 bytes of a \<open>struct hrd_qp_attr\<close>. The bytes of \<open>name\<close> after the terminator are whatever
  the stack held: \<open>junk\<close>.
\<close>

definition qp_attr_bytes :: "(nat \<Rightarrow> u8) \<Rightarrow> hrd_qp_attr \<Rightarrow> u8 list" where
  "qp_attr_bytes junk a =
     string_bytes (qa_name a) @ [0] @ map junk [length (qa_name a) + 1..<HRD_QP_NAME_SIZE]
     @ le_bytes 8 (buf_addr a) @ le_bytes 4 (buf_size a) @ le_bytes 4 (rkey a)
     @ le_bytes 4 (lid a) @ le_bytes 4 (qpn a)"

definition sizeof_hrd_qp_attr :: nat where "sizeof_hrd_qp_attr = 224"

text \<open>The structure a peer reads back from the bytes; its name is a C string.\<close>

definition qp_attr_of_bytes :: "u8 list \<Rightarrow> hrd_qp_attr" where
  "qp_attr_of_bytes bs = \<lparr>qa_name = map (\<lambda>b. char_of (unat b)) (c_string (take 200 bs)),
     buf_addr = le_word (take 8 (drop 200 bs)), buf_size = le_word (take 4 (drop 208 bs)),
     rkey = le_word (take 4 (drop 212 bs)), lid = le_word (take 4 (drop 216 bs)),
     qpn = le_word (take 4 (drop 220 bs))\<rparr>"

definition hrd_publish_conn_qp ::
  "'m memc_set \<Rightarrow> 'm \<Rightarrow> (nat \<Rightarrow> u8) \<Rightarrow> hrd_ctrl_blk \<Rightarrow> int \<Rightarrow> string \<Rightarrow> u32 \<Rightarrow> dev_info option \<Rightarrow> (nat \<Rightarrow> u16 option) \<Rightarrow> u32 \<Rightarrow> 'm res" where
  "hrd_publish_conn_qp mset m junk cb n qp_name conn_rkey ctx lid_of qp_num =
     bind_res (check (n \<ge> 0 \<and> n < num_conn_qps cb) AssertFail) (\<lambda>_.
     bind_res (check_qp_name qp_name) (\<lambda>_.
     bind_res (hrd_get_local_lid ctx lid_of (int (dev_port_id cb))) (\<lambda>l.
     hrd_publish mset m qp_name (qp_attr_bytes junk
       \<lparr>qa_name = qp_name, buf_addr = word_of_int (conn_buf cb), buf_size = word_of_int (conn_buf_size cb),
        rkey = conn_rkey, lid = ucast l, qpn = qp_num\<rparr>))))"

text \<open>For a datagram queue pair the buffer fields are never set; they hold the stack values \<open>g\<close>.\<close>

definition hrd_publish_dgram_qp ::
  "'m memc_set \<Rightarrow> 'm \<Rightarrow> (nat \<Rightarrow> u8) \<Rightarrow> hrd_qp_attr \<Rightarrow> hrd_ctrl_blk \<Rightarrow> int \<Rightarrow> string \<Rightarrow> dev_info option \<Rightarrow> (nat \<Rightarrow> u16 option) \<Rightarrow> u32 \<Rightarrow> 'm res" where
  "hrd_publish_dgram_qp mset m junk g cb n qp_name ctx lid_of qp_num =
     bind_res (check (n \<ge> 0 \<and> n < num_dgram_qps cb) AssertFail) (\<lambda>_.
     bind_res (check_qp_name qp_name) (\<lambda>_.
     bind_res (hrd_get_local_lid ctx lid_of (int (dev_port_id cb))) (\<lambda>l.
     hrd_publish mset m qp_name (qp_attr_bytes junk
       (g\<lparr>qa_name := qp_name, lid := ucast l, qpn := qp_num\<rparr>)))))"

definition hrd_get_published_qp ::
  "'m memc_get \<Rightarrow> 'm \<Rightarrow> string \<Rightarrow> hrd_qp_attr option res" where
  "hrd_get_published_qp mget m qp_name =
     bind_res (check_qp_name qp_name) (\<lambda>_.
     bind_res (hrd_get_published mget m qp_name) (\<lambda>r.
     case r of None \<Rightarrow> Inr None
     | Some bs \<Rightarrow>
         bind_res (check (length bs = sizeof_hrd_qp_attr) AssertFail) (\<lambda>_.
         Inr (Some (qp_attr_of_bytes bs)))))"

end
