(* ===== verification/Verbs_Spec.thy ===== *)
theory Verbs_Spec
  imports Hrd_Conn
begin

text \<open>
  The contract of the verbs objects, as the libibverbs documentation states it: which call is
  legal in which state. A device is opened before a protection domain is allocated; a queue pair
  is created over existing completion queues and moves RESET, INIT, RTR, RTS; a completion queue
  outlives the queue pairs that use it; a protection domain is released after its queue pairs and
  memory regions, and the device last. A call the environment fails changes nothing.
\<close>

record vstate =
  v_dev :: bool
  v_pd :: bool
  v_cqs :: "cqid set"
  v_qps :: "qpid \<rightharpoonup> qp_state \<times> cqid \<times> cqid"
  v_mrs :: "mrid set"

definition v0 :: vstate where
  "v0 = \<lparr>v_dev = False, v_pd = False, v_cqs = {}, v_qps = Map.empty, v_mrs = {}\<rparr>"

fun next_state :: "qp_state \<Rightarrow> qp_state \<Rightarrow> bool" where
  "next_state IBV_QPS_RESET IBV_QPS_INIT = True"
| "next_state IBV_QPS_INIT IBV_QPS_RTR = True"
| "next_state IBV_QPS_RTR IBV_QPS_RTS = True"
| "next_state _ _ = False"

definition cq_used :: "vstate \<Rightarrow> cqid \<Rightarrow> bool" where
  "cq_used v c \<longleftrightarrow> (\<exists>q s a b. v_qps v q = Some (s, a, b) \<and> (a = c \<or> b = c))"

fun vstep :: "vstate \<Rightarrow> vcall \<Rightarrow> vstate option" where
  "vstep v (OpenDevice d) = (if \<not> v_dev v then Some (v\<lparr>v_dev := True\<rparr>) else None)"
| "vstep v AllocPd = (if v_dev v \<and> \<not> v_pd v then Some (v\<lparr>v_pd := True\<rparr>) else None)"
| "vstep v (CreateCq c n) = (if v_dev v \<and> c \<notin> v_cqs v then Some (v\<lparr>v_cqs := insert c (v_cqs v)\<rparr>) else None)"
| "vstep v (CreateQp q a) =
     (if v_pd v \<and> v_qps v q = None \<and> send_cq a \<in> v_cqs v \<and> recv_cq a \<in> v_cqs v
      then Some (v\<lparr>v_qps := (v_qps v)(q \<mapsto> (IBV_QPS_RESET, send_cq a, recv_cq a))\<rparr>) else None)"
| "vstep v (ModifyQp q a m) =
     (case v_qps v q of None \<Rightarrow> None
      | Some (s, cs) \<Rightarrow>
          if IBV_QP_STATE \<in> set m \<and> next_state s (qp_state a)
          then Some (v\<lparr>v_qps := (v_qps v)(q \<mapsto> (qp_state a, cs))\<rparr>) else None)"
| "vstep v (RegMr r buf n fl) = (if v_pd v \<and> r \<notin> v_mrs v then Some (v\<lparr>v_mrs := insert r (v_mrs v)\<rparr>) else None)"
| "vstep v (DestroyQp q) = (if v_qps v q \<noteq> None then Some (v\<lparr>v_qps := (v_qps v)(q := None)\<rparr>) else None)"
| "vstep v (DestroyCq c) =
     (if c \<in> v_cqs v \<and> \<not> cq_used v c then Some (v\<lparr>v_cqs := v_cqs v - {c}\<rparr>) else None)"
| "vstep v (DeregMr r) = (if r \<in> v_mrs v then Some (v\<lparr>v_mrs := v_mrs v - {r}\<rparr>) else None)"
| "vstep v DeallocPd =
     (if v_pd v \<and> v_qps v = Map.empty \<and> v_mrs v = {} then Some (v\<lparr>v_pd := False\<rparr>) else None)"
| "vstep v CloseDevice =
     (if v_dev v \<and> \<not> v_pd v \<and> v_cqs v = {} then Some (v\<lparr>v_dev := False\<rparr>) else None)"
| "vstep v (MallocSocket k n s) = Some v"
| "vstep v (Memalign n) = Some v"
| "vstep v (HrdFree k b) = Some v"
| "vstep v (FreeBuf b) = Some v"

fun vrun :: "env \<Rightarrow> vstate \<Rightarrow> vcall list \<Rightarrow> vstate option" where
  "vrun env v [] = Some v"
| "vrun env v (c # cs) =
     (if verb_ok env c then (case vstep v c of None \<Rightarrow> None | Some v' \<Rightarrow> vrun env v' cs)
      else vrun env v cs)"

lemma vrun_append:
  "vrun env v (xs @ ys) = (case vrun env v xs of None \<Rightarrow> None | Some v' \<Rightarrow> vrun env v' ys)"
  by (induction xs arbitrary: v) (auto split: option.splits)

lemma vrun_snoc:
  "vrun env v (xs @ [c]) = (case vrun env v xs of None \<Rightarrow> None
     | Some v' \<Rightarrow> if verb_ok env c then vstep v' c else Some v')"
  by (auto simp: vrun_append split: option.splits)

subsection \<open>Inversion of the computations\<close>

named_theorems vm_inv \<open>when a verbs computation returns a value\<close>

lemma bindv_Inr [vm_inv]:
  "bindv m f env tr = (tr', Inr y) \<longleftrightarrow> (\<exists>x t1. m env tr = (t1, Inr x) \<and> f x env t1 = (tr', Inr y))"
  by (auto simp: bindv_def split: prod.splits sum.splits)

lemma ret_Inr [vm_inv]: "ret x env tr = (tr', Inr y) \<longleftrightarrow> tr' = tr \<and> y = x"
  by (auto simp: ret_def)

lemma failv_Inr [vm_inv]: "failv e env tr = (tr', Inr y) \<longleftrightarrow> False"
  by (simp add: failv_def)

lemma liftv_Inr [vm_inv]: "liftv r env tr = (tr', Inr y) \<longleftrightarrow> tr' = tr \<and> r = Inr y"
  by (auto simp: liftv_def)

declare check_Inr [vm_inv]

lemma callv_Inr [vm_inv]: "callv c env tr = (tr', Inr y) \<longleftrightarrow> tr' = tr @ [c] \<and> y = verb_ok env c"
  by (auto simp: callv_def)

lemma needv_Inr [vm_inv]: "needv c e env tr = (tr', Inr u) \<longleftrightarrow> tr' = tr @ [c] \<and> verb_ok env c"
  by (auto simp: needv_def bindv_def callv_def ret_def failv_def)

lemma tryv_Inr [vm_inv]:
  "tryv c k env tr = (tr', Inr y) \<longleftrightarrow>
     (if verb_ok env c then k env (tr @ [c]) = (tr', Inr y) else tr' = tr @ [c] \<and> y = -1)"
  by (auto simp: tryv_def bindv_def callv_def ret_def)

lemma mallocv_Inr [vm_inv]:
  "mallocv k n s env tr = (tr', Inr y) \<longleftrightarrow> tr' = tr @ [MallocSocket k n s]
     \<and> hrd_malloc_socket (os_shmget env) (os_shmat env) (os_mbind env) k n s = Inr y"
  by (auto simp: mallocv_def)

lemma memalignv_Inr [vm_inv]:
  "memalignv n env tr = (tr', Inr y) \<longleftrightarrow> tr' = tr @ [Memalign n] \<and> y = os_memalign env n"
  by (auto simp: memalignv_def)

lemma freev_Inr [vm_inv]:
  "freev k b env tr = (tr', Inr y) \<longleftrightarrow> tr' = tr @ [HrdFree k b]
     \<and> hrd_free (os_shmfind env) (os_shmctl env) (os_shmdt env) k b = Inr y"
  by (auto simp: freev_def)

subsection \<open>Created queue pairs\<close>

text \<open>
  The state in which the datagram queue pairs in \<open>D\<close> and the connected ones in \<open>C\<close> exist, each
  over its own completion queues.
\<close>

definition made_cqs :: "nat set \<Rightarrow> nat set \<Rightarrow> cqid set" where
  "made_cqs D C = DgramSendCq ` D \<union> DgramRecvCq ` D \<union> ConnCq ` C"

definition made_qps :: "nat set \<Rightarrow> nat set \<Rightarrow> qpid set" where
  "made_qps D C = DgramQp ` D \<union> ConnQp ` C"

fun cqs_of :: "qpid \<Rightarrow> cqid \<times> cqid" where
  "cqs_of (DgramQp i) = (DgramSendCq i, DgramRecvCq i)"
| "cqs_of (ConnQp i) = (ConnCq i, ConnCq i)"

definition made :: "nat set \<Rightarrow> nat set \<Rightarrow> vstate \<Rightarrow> bool" where
  "made D C v \<longleftrightarrow> v_dev v \<and> v_pd v \<and> v_cqs v = made_cqs D C \<and> dom (v_qps v) = made_qps D C
     \<and> (\<forall>q s cs. v_qps v q = Some (s, cs) \<longrightarrow> cs = cqs_of q)"

definition qp_in :: "vstate \<Rightarrow> qpid \<Rightarrow> qp_state \<Rightarrow> bool" where
  "qp_in v q s \<longleftrightarrow> map_option fst (v_qps v q) = Some s"

lemma made_mem [simp]:
  "DgramQp i \<in> made_qps D C \<longleftrightarrow> i \<in> D" "ConnQp i \<in> made_qps D C \<longleftrightarrow> i \<in> C"
  "DgramSendCq i \<in> made_cqs D C \<longleftrightarrow> i \<in> D" "DgramRecvCq i \<in> made_cqs D C \<longleftrightarrow> i \<in> D"
  "ConnCq i \<in> made_cqs D C \<longleftrightarrow> i \<in> C"
  by (auto simp: made_qps_def made_cqs_def)

lemma made_insert:
  "made_qps (insert i D) C = insert (DgramQp i) (made_qps D C)"
  "made_qps D (insert i C) = insert (ConnQp i) (made_qps D C)"
  "made_cqs (insert i D) C = insert (DgramSendCq i) (insert (DgramRecvCq i) (made_cqs D C))"
  "made_cqs D (insert i C) = insert (ConnCq i) (made_cqs D C)"
  by (auto simp: made_qps_def made_cqs_def)

lemma made_remove:
  "made_qps (D - {i}) C = made_qps D C - {DgramQp i}"
  "made_qps D (C - {i}) = made_qps D C - {ConnQp i}"
  "made_cqs (D - {i}) C = made_cqs D C - {DgramSendCq i} - {DgramRecvCq i}"
  "made_cqs D (C - {i}) = made_cqs D C - {ConnCq i}"
  by (auto simp: made_qps_def made_cqs_def)

lemma made_empty [simp]: "made_qps {} {} = {}" "made_cqs {} {} = {}"
  by (auto simp: made_qps_def made_cqs_def)

lemma made_qp_none: "made D C v \<Longrightarrow> q \<notin> made_qps D C \<Longrightarrow> v_qps v q = None"
  by (auto simp: made_def)

lemma made_cs: "made D C v \<Longrightarrow> v_qps v q = Some (s, cs) \<Longrightarrow> cs = cqs_of q"
  unfolding made_def by blast

lemma made_qp_some:
  assumes "made D C v" "q \<in> made_qps D C"
  shows "\<exists>s. v_qps v q = Some (s, cqs_of q)"
proof -
  have "q \<in> dom (v_qps v)" using assms by (simp add: made_def)
  then obtain s cs where "v_qps v q = Some (s, cs)" by auto
  with made_cs [OF assms(1) this] show ?thesis by simp
qed

lemma create_dgram:
  assumes "vrun env v0 tr = Some v" "made D C v" "i \<notin> D"
    and "verb_ok env (CreateCq (DgramSendCq i) k)" "verb_ok env (CreateCq (DgramRecvCq i) k)"
      "verb_ok env (CreateQp (DgramQp i) (dgram_create_attr i))"
  shows "\<exists>v1. vrun env v0 (tr @ [CreateCq (DgramSendCq i) k, CreateCq (DgramRecvCq i) k,
           CreateQp (DgramQp i) (dgram_create_attr i)]) = Some v1 \<and> made (insert i D) C v1
           \<and> v_mrs v1 = v_mrs v \<and> v_qps v1 = (v_qps v)(DgramQp i \<mapsto> (IBV_QPS_RESET, cqs_of (DgramQp i)))"
proof -
  have "v_qps v (DgramQp i) = None" using made_qp_none [OF assms(2), of "DgramQp i"] assms(3) by simp
  thus ?thesis using assms
    by (auto simp: vrun_append made_def made_insert dgram_create_attr_def)
qed

lemma create_conn:
  assumes "vrun env v0 tr = Some v" "made D C v" "i \<notin> C"
    and "verb_ok env (CreateCq (ConnCq i) k)" "verb_ok env (CreateQp (ConnQp i) (conn_create_attr cb i))"
  shows "\<exists>v1. vrun env v0 (tr @ [CreateCq (ConnCq i) k, CreateQp (ConnQp i) (conn_create_attr cb i)]) = Some v1
           \<and> made D (insert i C) v1
           \<and> v_mrs v1 = v_mrs v \<and> v_qps v1 = (v_qps v)(ConnQp i \<mapsto> (IBV_QPS_RESET, cqs_of (ConnQp i)))"
proof -
  have "v_qps v (ConnQp i) = None" using made_qp_none [OF assms(2), of "ConnQp i"] assms(3) by simp
  thus ?thesis using assms
    by (auto simp: vrun_append made_def made_insert conn_create_attr_def)
qed

lemma modify_qp:
  assumes "vrun env v0 tr = Some v" "made D C v" "v_qps v q = Some (s, cs)"
    and "next_state s (qp_state a)" "IBV_QP_STATE \<in> set m" "verb_ok env (ModifyQp q a m)"
  shows "\<exists>v1. vrun env v0 (tr @ [ModifyQp q a m]) = Some v1 \<and> made D C v1
           \<and> v_mrs v1 = v_mrs v \<and> v_qps v1 = (v_qps v)(q \<mapsto> (qp_state a, cs))"
  using assms by (auto simp: vrun_snoc made_def)

lemma destroy_dgram_qp:
  assumes "vrun env v0 tr = Some v" "made D C v" "i \<in> D"
    and "verb_ok env (DestroyQp (DgramQp i))" "verb_ok env (DestroyCq (DgramSendCq i))"
      "verb_ok env (DestroyCq (DgramRecvCq i))"
  shows "\<exists>v1. vrun env v0 (tr @ [DestroyQp (DgramQp i), DestroyCq (DgramSendCq i), DestroyCq (DgramRecvCq i)])
           = Some v1 \<and> made (D - {i}) C v1 \<and> v_mrs v1 = v_mrs v"
proof -
  have c: "cs = cqs_of q" if "v_qps v q = Some (s, cs)" for q s cs using made_cs [OF assms(2) that] .
  have n: "a \<noteq> DgramSendCq i \<and> b \<noteq> DgramSendCq i \<and> a \<noteq> DgramRecvCq i \<and> b \<noteq> DgramRecvCq i"
    if "v_qps v q = Some (s, a, b)" "q \<noteq> DgramQp i" for q s a b
    using c [OF that(1)] that(2) by (cases q) auto
  obtain s where "v_qps v (DgramQp i) = Some (s, cqs_of (DgramQp i))"
    using made_qp_some [OF assms(2), of "DgramQp i"] assms(3) by auto
  thus ?thesis using assms n
    by (auto simp: vrun_append made_def made_remove cq_used_def split: if_splits) blast+
qed

lemma destroy_conn_qp:
  assumes "vrun env v0 tr = Some v" "made D C v" "i \<in> C"
    and "verb_ok env (DestroyQp (ConnQp i))" "verb_ok env (DestroyCq (ConnCq i))"
  shows "\<exists>v1. vrun env v0 (tr @ [DestroyQp (ConnQp i), DestroyCq (ConnCq i)])
           = Some v1 \<and> made D (C - {i}) v1 \<and> v_mrs v1 = v_mrs v"
proof -
  have c: "cs = cqs_of q" if "v_qps v q = Some (s, cs)" for q s cs using made_cs [OF assms(2) that] .
  have n: "a \<noteq> ConnCq i \<and> b \<noteq> ConnCq i"
    if "v_qps v q = Some (s, a, b)" "q \<noteq> ConnQp i" for q s a b
    using c [OF that(1)] that(2) by (cases q) auto
  obtain s where "v_qps v (ConnQp i) = Some (s, cqs_of (ConnQp i))"
    using made_qp_some [OF assms(2), of "ConnQp i"] assms(3) by auto
  thus ?thesis using assms n
    by (auto simp: vrun_append made_def made_remove cq_used_def split: if_splits)
qed

end
