(* ===== verification/Conn_Proofs.thy ===== *)
theory Conn_Proofs
  imports Verbs_Spec
begin

text \<open>
  The loops of hrd_conn.c against the contract of the verbs objects: creation adds the queue pairs
  one by one in the promised state, destruction removes them one by one.
\<close>

definition all_inits_ok :: "env \<Rightarrow> hrd_ctrl_blk \<Rightarrow> bool" where
  "all_inits_ok env cb \<longleftrightarrow> (\<forall>i. verb_ok env (ModifyQp (DgramQp i) (dgram_init_attr cb)
     [IBV_QP_STATE, IBV_QP_PKEY_INDEX, IBV_QP_PORT, IBV_QP_QKEY]))"

lemma lessThan_insert: "insert i {..<i} = {..<Suc i}" for i :: nat
  by auto

lemma vrun_fail:
  assumes "vrun env v0 tr = Some v" "\<not> verb_ok env c"
  shows "vrun env v0 (tr @ [c]) = Some v"
  using assms by (simp add: vrun_snoc)

lemma attr_states [simp]:
  "qp_state (dgram_init_attr cb) = IBV_QPS_INIT" "qp_state dgram_rtr_attr = IBV_QPS_RTR"
  "qp_state dgram_rts_attr = IBV_QPS_RTS" "qp_state (conn_init_attr cb) = IBV_QPS_INIT"
  "qp_state (conn_rtr_attr cb r) = IBV_QPS_RTR" "qp_state (conn_rts_attr cb) = IBV_QPS_RTS"
  by (simp_all add: dgram_init_attr_def dgram_rtr_attr_def dgram_rts_attr_def conn_init_attr_def
    conn_rtr_attr_def conn_rts_attr_def Let_def)

lemma dgram_loop_run:
  assumes "dgram_loop cb i n env tr = (tr', Inr m)" "vrun env v0 tr = Some v" "made {..<i} C v"
  shows "\<exists>v'. vrun env v0 tr' = Some v' \<and> made {..<m} C v' \<and> v_mrs v' = v_mrs v \<and> m \<le> i + n
    \<and> (all_inits_ok env cb \<longrightarrow> m = i + n \<and> (\<forall>j. i \<le> j \<and> j < m \<longrightarrow> qp_in v' (DgramQp j) IBV_QPS_RTS))
    \<and> (\<forall>q. (\<forall>j\<ge>i. q \<noteq> DgramQp j) \<longrightarrow> v_qps v' q = v_qps v q)"
  using assms
proof (induction n arbitrary: i tr v)
  case 0
  thus ?case by (auto simp: vm_inv)
next
  case (Suc n)
  let ?m = "[IBV_QP_STATE, IBV_QP_PKEY_INDEX, IBV_QP_PORT, IBV_QP_QKEY]"
  let ?q = "DgramQp i"
  let ?t = "tr @ [CreateCq (DgramSendCq i) HRD_Q_DEPTH, CreateCq (DgramRecvCq i) HRD_Q_DEPTH,
    CreateQp ?q (dgram_create_attr i)]"
  let ?i = "ModifyQp ?q (dgram_init_attr cb) ?m"
  let ?r = "ModifyQp ?q dgram_rtr_attr [IBV_QP_STATE]"
  let ?s = "ModifyQp ?q dgram_rts_attr [IBV_QP_STATE, IBV_QP_SQ_PSN]"
  have ok: "verb_ok env (CreateCq (DgramSendCq i) HRD_Q_DEPTH)" "verb_ok env (CreateCq (DgramRecvCq i) HRD_Q_DEPTH)"
    "verb_ok env (CreateQp ?q (dgram_create_attr i))"
    and rest: "if verb_ok env ?i then verb_ok env ?r \<and> verb_ok env ?s
          \<and> dgram_loop cb (Suc i) n env (?t @ [?i] @ [?r] @ [?s]) = (tr', Inr m)
        else tr' = ?t @ [?i] \<and> m = Suc i"
    using Suc.prems(1) by (auto simp: vm_inv)
  obtain v1 where v1: "vrun env v0 ?t = Some v1" "made {..<Suc i} C v1" "v_mrs v1 = v_mrs v"
    "v_qps v1 = (v_qps v)(?q \<mapsto> (IBV_QPS_RESET, cqs_of ?q))"
    using create_dgram [OF Suc.prems(2,3) _ ok] by (auto simp: lessThan_insert)
  show ?case
  proof (cases "verb_ok env ?i")
    case False
    hence "vrun env v0 tr' = Some v1" "m = Suc i"
      using rest vrun_fail [OF v1(1) False] by auto
    moreover have "\<not> all_inits_ok env cb" using False by (auto simp: all_inits_ok_def)
    ultimately show ?thesis using v1 by auto
  next
    case True
    obtain v2 where v2: "vrun env v0 (?t @ [?i]) = Some v2" "made {..<Suc i} C v2" "v_mrs v2 = v_mrs v1"
      "v_qps v2 = (v_qps v1)(?q \<mapsto> (IBV_QPS_INIT, cqs_of ?q))"
      using modify_qp [OF v1(1,2), of ?q IBV_QPS_RESET "cqs_of ?q" "dgram_init_attr cb" ?m] True v1(4) by auto
    obtain v3 where v3: "vrun env v0 ((?t @ [?i]) @ [?r]) = Some v3" "made {..<Suc i} C v3" "v_mrs v3 = v_mrs v2"
      "v_qps v3 = (v_qps v2)(?q \<mapsto> (IBV_QPS_RTR, cqs_of ?q))"
      using modify_qp [OF v2(1,2), of ?q IBV_QPS_INIT "cqs_of ?q" dgram_rtr_attr "[IBV_QP_STATE]"] True rest v2(4) by auto
    obtain v4 where v4: "vrun env v0 (((?t @ [?i]) @ [?r]) @ [?s]) = Some v4" "made {..<Suc i} C v4" "v_mrs v4 = v_mrs v3"
      "v_qps v4 = (v_qps v3)(?q \<mapsto> (IBV_QPS_RTS, cqs_of ?q))"
      using modify_qp [OF v3(1,2), of ?q IBV_QPS_RTR "cqs_of ?q" dgram_rts_attr "[IBV_QP_STATE, IBV_QP_SQ_PSN]"] True rest v3(4) by auto
    have qi: "qp_in v4 ?q IBV_QPS_RTS" using v4(4) by (simp add: qp_in_def)
    have q4: "v_qps v4 q = v_qps v q" if "q \<noteq> ?q" for q using that v1(4) v2(4) v3(4) v4(4) by simp
    have mr: "v_mrs v4 = v_mrs v" using v1(3) v2(3) v3(3) v4(3) by simp
    have "dgram_loop cb (Suc i) n env (((?t @ [?i]) @ [?r]) @ [?s]) = (tr', Inr m)" using rest True by simp
    from Suc.IH [OF this v4(1,2)] obtain v' where v': "vrun env v0 tr' = Some v'" "made {..<m} C v'"
      "v_mrs v' = v_mrs v4" "m \<le> Suc i + n"
      "all_inits_ok env cb \<Longrightarrow> m = Suc i + n \<and> (\<forall>j. Suc i \<le> j \<and> j < m \<longrightarrow> qp_in v' (DgramQp j) IBV_QPS_RTS)"
      "\<And>q. (\<forall>j\<ge>Suc i. q \<noteq> DgramQp j) \<Longrightarrow> v_qps v' q = v_qps v4 q"
      by blast
    have "qp_in v' ?q IBV_QPS_RTS" using v'(6) [of ?q] qi by (simp add: qp_in_def)
    hence "all_inits_ok env cb \<longrightarrow> m = i + Suc n \<and> (\<forall>j. i \<le> j \<and> j < m \<longrightarrow> qp_in v' (DgramQp j) IBV_QPS_RTS)"
      using v'(5) by (metis Suc_leI add_Suc_shift le_neq_implies_less)
    moreover have "v_qps v' q = v_qps v q" if "\<forall>j\<ge>i. q \<noteq> DgramQp j" for q
      using v'(6) [of q] q4 [of q] that by auto
    ultimately show ?thesis using v' mr by auto
  qed
qed

lemma conn_loop_run:
  assumes "conn_loop cb i n env tr = (tr', Inr u)" "vrun env v0 tr = Some v" "made D {..<i} v"
  shows "\<exists>v'. vrun env v0 tr' = Some v' \<and> made D {..<i + n} v' \<and> v_mrs v' = v_mrs v
    \<and> (\<forall>j. i \<le> j \<and> j < i + n \<longrightarrow> qp_in v' (ConnQp j) IBV_QPS_INIT)
    \<and> (\<forall>q. (\<forall>j\<ge>i. q \<noteq> ConnQp j) \<longrightarrow> v_qps v' q = v_qps v q)"
  using assms
proof (induction n arbitrary: i tr v)
  case 0
  thus ?case by (auto simp: vm_inv)
next
  case (Suc n)
  let ?q = "ConnQp i"
  let ?t = "tr @ [CreateCq (ConnCq i) HRD_Q_DEPTH, CreateQp ?q (conn_create_attr cb i)]"
  let ?i = "ModifyQp ?q (conn_init_attr cb) [IBV_QP_STATE, IBV_QP_PKEY_INDEX, IBV_QP_PORT, IBV_QP_ACCESS_FLAGS]"
  have ok: "verb_ok env (CreateCq (ConnCq i) HRD_Q_DEPTH)" "verb_ok env (CreateQp ?q (conn_create_attr cb i))"
    "verb_ok env ?i" and rest: "conn_loop cb (Suc i) n env (?t @ [?i]) = (tr', Inr u)"
    using Suc.prems(1) by (auto simp: vm_inv)
  obtain v1 where v1: "vrun env v0 ?t = Some v1" "made D {..<Suc i} v1" "v_mrs v1 = v_mrs v"
    "v_qps v1 = (v_qps v)(?q \<mapsto> (IBV_QPS_RESET, cqs_of ?q))"
    using create_conn [OF Suc.prems(2,3) _ ok(1,2)] by (auto simp: lessThan_insert)
  obtain v2 where v2: "vrun env v0 (?t @ [?i]) = Some v2" "made D {..<Suc i} v2" "v_mrs v2 = v_mrs v1"
    "v_qps v2 = (v_qps v1)(?q \<mapsto> (IBV_QPS_INIT, cqs_of ?q))"
    using modify_qp [OF v1(1,2), of ?q IBV_QPS_RESET "cqs_of ?q" "conn_init_attr cb"
        "[IBV_QP_STATE, IBV_QP_PKEY_INDEX, IBV_QP_PORT, IBV_QP_ACCESS_FLAGS]"] ok(3) v1(4) by auto
  from Suc.IH [OF rest v2(1,2)] obtain v' where v': "vrun env v0 tr' = Some v'" "made D {..<Suc i + n} v'"
    "v_mrs v' = v_mrs v2" "\<And>j. Suc i \<le> j \<Longrightarrow> j < Suc i + n \<Longrightarrow> qp_in v' (ConnQp j) IBV_QPS_INIT"
    "\<And>q. (\<forall>j\<ge>Suc i. q \<noteq> ConnQp j) \<Longrightarrow> v_qps v' q = v_qps v2 q"
    by blast
  have "qp_in v' ?q IBV_QPS_INIT" using v'(5) [of ?q] v2(4) by (simp add: qp_in_def)
  hence "qp_in v' (ConnQp j) IBV_QPS_INIT" if "i \<le> j" "j < i + Suc n" for j
    using that v'(4) [of j] by (cases "j = i") auto
  moreover have "v_qps v' q = v_qps v q" if "\<forall>j\<ge>i. q \<noteq> ConnQp j" for q
    using v'(5) [of q] v1(4) v2(4) that by auto
  ultimately show ?case using v' v1(3) v2(3) by auto
qed

lemma alloc_reg_buf_run:
  assumes "alloc_reg_buf mr node s key env tr = (tr', Inr buf)" "vrun env v0 tr = Some v" "made D C v"
    and "mr \<notin> v_mrs v"
  shows "\<exists>v'. vrun env v0 tr' = Some v' \<and> made D C v' \<and> v_mrs v' = insert mr (v_mrs v) \<and> v_qps v' = v_qps v"
  using assms by (auto simp: alloc_reg_buf_def Let_def vm_inv vrun_append made_def split: if_splits)

lemma all_inits_ok_update [simp]:
  "all_inits_ok env (cb\<lparr>dgram_made := a, dgram_buf := b\<rparr>) = all_inits_ok env cb"
  "all_inits_ok env (cb\<lparr>conn_buf := c\<rparr>) = all_inits_ok env cb"
  by (simp_all add: all_inits_ok_def dgram_init_attr_def)

lemma cb_same:
  "\<exists>a b. cb = cb\<lparr>dgram_made := a, dgram_buf := b\<rparr>" "\<exists>b. cb = cb\<lparr>conn_buf := b\<rparr>"
  by (rule exI [of _ "dgram_made cb"], rule exI [of _ "dgram_buf cb"], simp)
    (rule exI [of _ "conn_buf cb"], simp)

lemma dgram_phase_run:
  assumes "dgram_phase cb env tr = (tr', Inr cb')" "vrun env v0 tr = Some v" "made {} {} v"
    and "v_mrs v = {}" "dgram_made cb = 0"
  shows "\<exists>v'. vrun env v0 tr' = Some v' \<and> made {..<dgram_made cb'} {} v'
    \<and> v_mrs v' = (if num_dgram_qps cb \<ge> 1 then {DgramMr} else {})
    \<and> dgram_made cb' \<le> nat (num_dgram_qps cb)
    \<and> (all_inits_ok env cb \<longrightarrow> dgram_made cb' = nat (num_dgram_qps cb)
         \<and> (\<forall>j<dgram_made cb'. qp_in v' (DgramQp j) IBV_QPS_RTS))
    \<and> (\<exists>a b. cb' = cb\<lparr>dgram_made := a, dgram_buf := b\<rparr>)"
proof (cases "num_dgram_qps cb \<ge> 1")
  case False
  hence "cb' = cb" "tr' = tr" using assms(1) by (auto simp: dgram_phase_def vm_inv)
  thus ?thesis using assms False cb_same(1) by simp
next
  case True
  obtain m buf t1 where c: "dgram_loop cb 0 (nat (num_dgram_qps cb)) env tr = (t1, Inr m)"
    and b: "alloc_reg_buf DgramMr (numa_node_id cb) (dgram_buf_size cb) (dgram_buf_shm_key cb) env t1 = (tr', Inr buf)"
    and cb': "cb' = cb\<lparr>dgram_made := m, dgram_buf := buf\<rparr>"
    using assms(1) True by (auto simp: dgram_phase_def hrd_create_dgram_qps_def vm_inv)
  obtain v1 where v1: "vrun env v0 t1 = Some v1" "made {..<m} {} v1" "v_mrs v1 = v_mrs v" "m \<le> nat (num_dgram_qps cb)"
    "all_inits_ok env cb \<longrightarrow> m = nat (num_dgram_qps cb) \<and> (\<forall>j<m. qp_in v1 (DgramQp j) IBV_QPS_RTS)"
    using dgram_loop_run [OF c assms(2), of "{}"] assms(3) by auto
  obtain v2 where "vrun env v0 tr' = Some v2" "made {..<m} {} v2" "v_mrs v2 = insert DgramMr (v_mrs v1)"
    "v_qps v2 = v_qps v1"
    using alloc_reg_buf_run [OF b v1(1,2)] v1(3) assms(4) by auto
  thus ?thesis using v1 cb' True assms(4) by (auto simp: qp_in_def)
qed

lemma conn_phase_run:
  assumes "conn_phase pre cb env tr = (tr', Inr cb')" "vrun env v0 tr = Some v" "made D {} v"
    and "ConnMr \<notin> v_mrs v" "num_conn_qps cb \<ge> 0"
  shows "\<exists>v'. vrun env v0 tr' = Some v' \<and> made D {..<nat (num_conn_qps cb)} v'
    \<and> v_mrs v' = v_mrs v \<union> (if num_conn_qps cb \<ge> 1 then {ConnMr} else {})
    \<and> (\<forall>j<nat (num_conn_qps cb). qp_in v' (ConnQp j) IBV_QPS_INIT)
    \<and> (\<forall>j. v_qps v' (DgramQp j) = v_qps v (DgramQp j))
    \<and> (\<exists>b. cb' = cb\<lparr>conn_buf := b\<rparr>)"
proof (cases "num_conn_qps cb \<ge> 1")
  case False
  hence "cb' = cb" "tr' = tr" "nat (num_conn_qps cb) = 0" using assms(1) by (auto simp: conn_phase_def vm_inv)
  thus ?thesis using assms False cb_same(2) by simp
next
  case True
  let ?n = "nat (num_conn_qps cb)"
  obtain t1 u where c: "conn_loop cb 0 ?n env tr = (t1, Inr u)"
    and b: "if pre = 0 then (\<exists>buf. alloc_reg_buf ConnMr (numa_node_id cb) (conn_buf_size cb) (conn_buf_shm_key cb) env t1
               = (tr', Inr buf) \<and> cb' = cb\<lparr>conn_buf := buf\<rparr>)
            else verb_ok env (RegMr ConnMr pre (conn_buf_size cb) ib_flags)
               \<and> tr' = t1 @ [RegMr ConnMr pre (conn_buf_size cb) ib_flags] \<and> cb' = cb\<lparr>conn_buf := pre\<rparr>"
    using assms(1) True by (auto simp: conn_phase_def hrd_create_conn_qps_def vm_inv split: if_splits)
  obtain v1 where v1: "vrun env v0 t1 = Some v1" "made D {..<?n} v1" "v_mrs v1 = v_mrs v"
    "\<forall>j<?n. qp_in v1 (ConnQp j) IBV_QPS_INIT" "\<forall>j. v_qps v1 (DgramQp j) = v_qps v (DgramQp j)"
    using conn_loop_run [OF c assms(2), of D] assms(3) by auto
  have "\<exists>v2. vrun env v0 tr' = Some v2 \<and> made D {..<?n} v2 \<and> v_mrs v2 = insert ConnMr (v_mrs v1)
      \<and> v_qps v2 = v_qps v1"
  proof (cases "pre = 0")
    case True
    thus ?thesis using b alloc_reg_buf_run [OF _ v1(1,2)] v1(3) assms(4) by auto
  next
    case False
    thus ?thesis using b v1 assms(4) by (auto simp: vrun_snoc made_def)
  qed
  moreover have "\<exists>b. cb' = cb\<lparr>conn_buf := b\<rparr>" using b by (auto split: if_splits)
  ultimately show ?thesis using v1 True by (auto simp: qp_in_def)
qed

lemma dgram_phase_cb:
  assumes "dgram_phase cb env tr = (tr', Inr cb')"
  shows "\<exists>a b. cb' = cb\<lparr>dgram_made := a, dgram_buf := b\<rparr>"
proof (cases "num_dgram_qps cb \<ge> 1")
  case False
  thus ?thesis using assms cb_same(1) by (simp add: dgram_phase_def vm_inv)
next
  case True
  thus ?thesis using assms by (auto simp: dgram_phase_def vm_inv)
qed

lemma check_init_args_Inr:
  "check_init_args port node nconn uc pre csize ckey ndgram dsize = Inr u \<Longrightarrow> 0 \<le> nconn \<and> 0 \<le> ndgram"
  by (auto simp: check_init_args_def bind_res_def check_def split: if_splits)

lemma hrd_ctrl_blk_init_phases:
  assumes "hrd_ctrl_blk_init devs hid port node nconn uc pre csize ckey ndgram dsize dkey env tr = (tr', Inr cb)"
  shows "\<exists>cb0 cb1 t dev. verb_ok env (OpenDevice dev) \<and> verb_ok env AllocPd
    \<and> dgram_phase cb0 env (tr @ [OpenDevice dev, AllocPd]) = (t, Inr cb1)
    \<and> conn_phase pre cb1 env t = (tr', Inr cb)
    \<and> dgram_made cb0 = 0 \<and> num_conn_qps cb0 = nconn \<and> num_dgram_qps cb0 = ndgram \<and> 0 \<le> nconn \<and> 0 \<le> ndgram"
proof -
  let ?cb = "\<lambda>dev dport. \<lparr>local_hid = hid, port_index = port, device_id = dev, dev_port_id = dport,
     numa_node_id = node, use_uc = uc, num_conn_qps = nconn, conn_buf = 0,
     conn_buf_size = csize, conn_buf_shm_key = ckey, num_dgram_qps = ndgram, dgram_buf = 0,
     dgram_buf_size = dsize, dgram_buf_shm_key = dkey, dgram_made = 0, conn_prealloc = (pre \<noteq> 0)\<rparr>"
  have "\<exists>dev dport cb1 t. verb_ok env (OpenDevice dev) \<and> verb_ok env AllocPd \<and> 0 \<le> nconn \<and> 0 \<le> ndgram
    \<and> dgram_phase (?cb dev dport) env (tr @ [OpenDevice dev, AllocPd]) = (t, Inr cb1)
    \<and> conn_phase pre cb1 env t = (tr', Inr cb)"
    using assms unfolding hrd_ctrl_blk_init_def Let_def 
    by (clarsimp simp: vm_inv dest!: check_init_args_Inr) blast
  then obtain dev dport cb1 t where *: "verb_ok env (OpenDevice dev)" "verb_ok env AllocPd" "0 \<le> nconn" "0 \<le> ndgram"
    "dgram_phase (?cb dev dport) env (tr @ [OpenDevice dev, AllocPd]) = (t, Inr cb1)"
    "conn_phase pre cb1 env t = (tr', Inr cb)"
    by blast
  show ?thesis
    by (intro exI [of _ "?cb dev dport"] exI [of _ cb1] exI [of _ t] exI [of _ dev]) (use * in simp)
qed

text \<open>What a control block that was created stands for.\<close>

lemma hrd_ctrl_blk_init_run:
  assumes "hrd_ctrl_blk_init devs hid port node nconn uc pre csize ckey ndgram dsize dkey env [] = (tr, Inr cb)"
  shows "\<exists>v. vrun env v0 tr = Some v \<and> made {..<dgram_made cb} {..<nat nconn} v
    \<and> v_mrs v = (if ndgram \<ge> 1 then {DgramMr} else {}) \<union> (if nconn \<ge> 1 then {ConnMr} else {})
    \<and> dgram_made cb \<le> nat ndgram \<and> num_conn_qps cb = nconn \<and> num_dgram_qps cb = ndgram \<and> 0 \<le> nconn \<and> 0 \<le> ndgram
    \<and> (all_inits_ok env cb \<longrightarrow> dgram_made cb = nat ndgram \<and> (\<forall>j<nat ndgram. qp_in v (DgramQp j) IBV_QPS_RTS))
    \<and> (\<forall>j<nat nconn. qp_in v (ConnQp j) IBV_QPS_INIT)"
proof -
  obtain cb0 cb1 t dev where ph: "verb_ok env (OpenDevice dev)" "verb_ok env AllocPd"
    "dgram_phase cb0 env [OpenDevice dev, AllocPd] = (t, Inr cb1)" "conn_phase pre cb1 env t = (tr, Inr cb)"
    "dgram_made cb0 = 0" "num_conn_qps cb0 = nconn" "num_dgram_qps cb0 = ndgram" "0 \<le> nconn" "0 \<le> ndgram"
    using hrd_ctrl_blk_init_phases [OF assms] by auto
  define w where "w = v0\<lparr>v_dev := True, v_pd := True\<rparr>"
  have w: "vrun env v0 [OpenDevice dev, AllocPd] = Some w" "made {} {} w" "v_mrs w = {}"
    using ph(1,2) by (auto simp: w_def v0_def made_def)
  obtain v1 a b where v1: "vrun env v0 t = Some v1" "made {..<dgram_made cb1} {} v1"
    "v_mrs v1 = (if ndgram \<ge> 1 then {DgramMr} else {})" "dgram_made cb1 \<le> nat ndgram"
    "all_inits_ok env cb0 \<longrightarrow> dgram_made cb1 = nat ndgram \<and> (\<forall>j<dgram_made cb1. qp_in v1 (DgramQp j) IBV_QPS_RTS)"
    and cb1: "cb1 = cb0\<lparr>dgram_made := a, dgram_buf := b\<rparr>"
    using dgram_phase_run [OF ph(3) w ph(5), unfolded ph(7)] by blast
  have n: "num_conn_qps cb1 = nconn" "num_conn_qps cb1 \<ge> 0" using cb1 ph(6,8) by auto
  have r: "ConnMr \<notin> v_mrs v1" using v1(3) by simp
  obtain v2 c where v2: "vrun env v0 tr = Some v2" "made {..<dgram_made cb1} {..<nat nconn} v2"
    "v_mrs v2 = v_mrs v1 \<union> (if nconn \<ge> 1 then {ConnMr} else {})"
    "\<forall>j<nat nconn. qp_in v2 (ConnQp j) IBV_QPS_INIT" "\<forall>j. v_qps v2 (DgramQp j) = v_qps v1 (DgramQp j)"
    and cb: "cb = cb1\<lparr>conn_buf := c\<rparr>"
    using conn_phase_run [OF ph(4) v1(1,2) r n(2), unfolded n(1)] by blast
  have k: "dgram_made cb = dgram_made cb1" "num_conn_qps cb = nconn" "num_dgram_qps cb = ndgram"
    "all_inits_ok env cb = all_inits_ok env cb0"
    using cb cb1 ph(6,7) by simp_all
  have q: "qp_in v2 (DgramQp j) s = qp_in v1 (DgramQp j) s" for j s using v2(5) by (simp add: qp_in_def)
  have d: "all_inits_ok env cb0 \<longrightarrow> dgram_made cb1 = nat ndgram \<and> (\<forall>j<nat ndgram. qp_in v2 (DgramQp j) IBV_QPS_RTS)"
    using v1(5) unfolding q by metis
  show ?thesis
    unfolding k using v1(4) d v2(1-4) ph(8,9) by (intro exI [of _ v2]) (simp only: v1(3) simp_thms)
qed

lemma destroy_dgram_filled:
  "destroy_dgram cb i n k env tr = (tr', Inr 0) \<Longrightarrow> n > 0 \<Longrightarrow> i + n \<le> dgram_made cb"
proof (induction n arbitrary: i tr)
  case (Suc n)
  obtain t where i: "i < dgram_made cb" and t: "destroy_dgram cb (Suc i) n k env t = (tr', Inr 0)"
    using Suc.prems(1) by (auto simp: vm_inv split: if_splits)
  show ?case using i Suc.IH [OF t] by (cases "n = 0") simp_all
qed simp

lemma destroy_dgram_run:
  assumes "destroy_dgram cb i n k env tr = (tr', Inr 0)" "vrun env v0 tr = Some v" "made {i..<i + n} C v"
  shows "\<exists>t v'. k env t = (tr', Inr 0) \<and> vrun env v0 t = Some v' \<and> made {} C v' \<and> v_mrs v' = v_mrs v"
  using assms
proof (induction n arbitrary: i tr v)
  case (Suc n)
  let ?t = "tr @ [DestroyQp (DgramQp i), DestroyCq (DgramSendCq i), DestroyCq (DgramRecvCq i)]"
  have ok: "verb_ok env (DestroyQp (DgramQp i))" "verb_ok env (DestroyCq (DgramSendCq i))"
    "verb_ok env (DestroyCq (DgramRecvCq i))" "destroy_dgram cb (Suc i) n k env ?t = (tr', Inr 0)"
    using Suc.prems(1) by (auto simp: vm_inv split: if_splits)
  have "{i..<i + Suc n} - {i} = {Suc i..<Suc i + n}" by auto
  then obtain v1 where v1: "vrun env v0 ?t = Some v1" "made {Suc i..<Suc i + n} C v1" "v_mrs v1 = v_mrs v"
    using destroy_dgram_qp [OF Suc.prems(2,3) _ ok(1-3)] by auto
  show ?case using Suc.IH [OF ok(4) v1(1,2)] unfolding v1(3) .
qed auto

lemma destroy_conn_run:
  assumes "destroy_conn i n k env tr = (tr', Inr 0)" "vrun env v0 tr = Some v" "made D {i..<i + n} v"
  shows "\<exists>t v'. k env t = (tr', Inr 0) \<and> vrun env v0 t = Some v' \<and> made D {} v' \<and> v_mrs v' = v_mrs v"
  using assms
proof (induction n arbitrary: i tr v)
  case (Suc n)
  let ?t = "tr @ [DestroyQp (ConnQp i), DestroyCq (ConnCq i)]"
  have ok: "verb_ok env (DestroyQp (ConnQp i))" "verb_ok env (DestroyCq (ConnCq i))"
    "destroy_conn (Suc i) n k env ?t = (tr', Inr 0)"
    using Suc.prems(1) by (auto simp: vm_inv split: if_splits)
  have "{i..<i + Suc n} - {i} = {Suc i..<Suc i + n}" by auto
  then obtain v1 where v1: "vrun env v0 ?t = Some v1" "made D {Suc i..<Suc i + n} v1" "v_mrs v1 = v_mrs v"
    using destroy_conn_qp [OF Suc.prems(2,3) _ ok(1,2)] by auto
  show ?case using Suc.IH [OF ok(3) v1(1,2)] unfolding v1(3) .
qed auto

lemma dereg_run:
  assumes "tryv (DeregMr mr) (free_buf cb own buf key k) env tr = (tr', Inr 0)" "vrun env v0 tr = Some v"
    and "made D C v" "mr \<in> v_mrs v"
  shows "\<exists>t v'. k env t = (tr', Inr 0) \<and> vrun env v0 t = Some v' \<and> made D C v' \<and> v_mrs v' = v_mrs v - {mr}"
proof -
  obtain x where x: "k env (tr @ [DeregMr mr, x]) = (tr', Inr 0)" "x = HrdFree key buf \<or> x = FreeBuf buf"
    "verb_ok env (DeregMr mr)"
    using assms(1) by (auto simp: vm_inv free_buf_def split: if_splits)
  have "vrun env v0 (tr @ [DeregMr mr, x]) = Some (v\<lparr>v_mrs := v_mrs v - {mr}\<rparr>)"
    using assms x by (auto simp: vrun_append)
  moreover have "made D C (v\<lparr>v_mrs := v_mrs v - {mr}\<rparr>)" using assms(3) by (simp add: made_def)
  ultimately show ?thesis using x(1) by (intro exI conjI) (assumption | simp)+
qed

end
