(* ===== verification/Hrd_Props.thy ===== *)
theory Hrd_Props
  imports Hrd
begin

text \<open>
  Properties of the libhrd utilities: the pseudo-random step and the power-of-two test, the port
  a rank resolves to, when completion polling ends and what it misses, and the registry's ready
  flag.
\<close>

subsection \<open>Arithmetic helpers\<close>

lemma fastrand_step_inj: "s * 1103515245 = s' * 1103515245 \<longleftrightarrow> s = (s' :: u64)"
proof
  have inv: "(1103515245 :: u64) * (17850689345304521573 :: u64) = 1" by simp
  assume "s * 1103515245 = s' * (1103515245 :: u64)"
  then have "s * ((1103515245 :: u64) * (17850689345304521573 :: u64)) = s' * (1103515245 * (17850689345304521573 :: u64))" by (simp only: mult.assoc [symmetric])
  then show "s = s'" by (simp only: inv mult_1_right)
qed simp

lemma and_pred_power:
  fixes x :: nat
  assumes "0 < x"
  shows "x AND (x - 1) = 0 \<longleftrightarrow> (\<exists>k. x = 2 ^ k)"
proof
  obtain k where k: "2 ^ k \<le> x" "x < 2 ^ (k + 1)" using ex_power_ivl1 [of 2 x] assms by auto
  have b: "bit y k" if "2 ^ k \<le> y" "y < 2 ^ (k + 1)" for y :: nat
  proof -
    have "y div 2 ^ k = 1" using that by (intro div_nat_eqI) simp_all
    then show ?thesis by (simp add: bit_iff_odd)
  qed
  assume z: "x AND (x - 1) = 0"
  have "\<not> bit (x AND (x - 1)) k" unfolding z by simp
  then have "\<not> bit (x - 1) k" using b [OF k] by (simp add: bit_and_iff)
  moreover have "x - 1 < 2 ^ (k + 1)" using k(2) by linarith
  ultimately have "\<not> 2 ^ k \<le> x - 1" using b by blast
  then have "x = 2 ^ k" using k(1) by linarith
  then show "\<exists>k. x = 2 ^ k" by blast
next
  assume "\<exists>k. x = 2 ^ k"
  then obtain k where k: "x = 2 ^ k" by blast
  have "x AND mask k = 0" by (simp add: k flip: take_bit_eq_mask)
  then show "x AND (x - 1) = 0" by (simp add: k mask_eq_exp_minus_1)
qed

lemma unat_pred: "n \<noteq> 0 \<Longrightarrow> unat (n - 1) = unat n - 1"
  by (simp add: unat_minus_one)

subsection \<open>Port resolution\<close>

text \<open>The enabled ports of a device and of a device list, in scan order.\<close>

definition dev_ports :: "dev_info \<Rightarrow> nat list" where
  "dev_ports d = filter (\<lambda>p. case port_state d p of None \<Rightarrow> False | Some st \<Rightarrow> port_enabled st) [1..<phys_port_cnt d + 1]"

fun enabled_ports :: "dev_info list \<Rightarrow> nat \<Rightarrow> (nat \<times> nat) list" where
  "enabled_ports [] i = []"
| "enabled_ports (d # ds) i = map (Pair i) (dev_ports d) @ enabled_ports ds (i + 1)"

definition dev_ok :: "dev_info \<Rightarrow> bool" where
  "dev_ok d \<longleftrightarrow> dev_opens d \<and> dev_queries d \<and> phys_port_cnt d < 255 \<and> dev_closes d
     \<and> list_all (\<lambda>p. port_state d p \<noteq> None) [1..<phys_port_cnt d + 1]"

lemma scan_ports_spec:
  assumes "\<forall>q\<in>set [p..<p + n]. port_state d q \<noteq> None" "0 \<le> todo"
  defines "ps \<equiv> filter (\<lambda>p. case port_state d p of None \<Rightarrow> False | Some st \<Rightarrow> port_enabled st) [p..<p + n]"
  shows "scan_ports d p n todo = Inr (if nat todo < length ps then Inl (ps ! nat todo) else Inr (todo - int (length ps)))"
  using assms(1,2) unfolding ps_def
proof (induction n arbitrary: p todo)
  case (Suc n)
  have "port_state d p \<noteq> None" using Suc.prems(1) by (simp del: upt_Suc)
  then obtain st where st: "port_state d p = Some st" by auto
  have up: "[p..<p + Suc n] = p # [p + 1..<(p + 1) + n]" by (simp add: upt_conv_Cons)
  have IH: "\<And>todo. 0 \<le> todo \<Longrightarrow> scan_ports d (p + 1) n todo =
     Inr (let ps = filter (\<lambda>p. case port_state d p of None \<Rightarrow> False | Some st \<Rightarrow> port_enabled st) [p + 1..<(p + 1) + n]
       in if nat todo < length ps then Inl (ps ! nat todo) else Inr (todo - int (length ps)))"
    using Suc.IH [of "p + 1"] Suc.prems(1) unfolding up by (simp add: Let_def)
  show ?case
  proof (cases "port_enabled st \<and> todo \<noteq> 0")
    case True
    then have "0 \<le> todo - 1" using Suc.prems(2) by linarith
    then have "nat todo = Suc (nat (todo - 1))" by (simp add: Suc_nat_eq_nat_zadd1)
    then show ?thesis using True st IH [of "todo - 1"] Suc.prems(2) unfolding up by (simp add: Let_def)
  next
    case False
    then show ?thesis using st IH [of todo] Suc.prems(2) unfolding up by (auto simp: Let_def)
  qed
qed simp

lemma scan_devices_spec:
  assumes "list_all dev_ok ds" "0 \<le> todo"
  shows "scan_devices ds i todo =
    (if nat todo < length (enabled_ports ds i) then Inr (enabled_ports ds i ! nat todo) else Inl (ExitWith (-1)))"
  using assms
proof (induction ds arbitrary: i todo)
  case (Cons d ds)
  have d: "dev_ok d" "list_all dev_ok ds" using Cons.prems(1) by simp_all
  then have "scan_ports d 1 (phys_port_cnt d) todo = Inr (if nat todo < length (dev_ports d)
      then Inl (dev_ports d ! nat todo) else Inr (todo - int (length (dev_ports d))))"
    using scan_ports_spec [of 1 "phys_port_cnt d" d todo] Cons.prems(2)
    by (simp add: dev_ok_def dev_ports_def list_all_iff add.commute)
  moreover have "nat (todo - int (length (dev_ports d))) = nat todo - length (dev_ports d)" by simp
  ultimately show ?case
    using d Cons.IH [OF d(2), of "todo - int (length (dev_ports d))" "i + 1"] Cons.prems(2)
    by (auto simp: dev_ok_def nth_append)
qed simp

subsection \<open>Polling\<close>

text \<open>A poller that delivers only good completions, at most as many as asked for, and never stops delivering.\<close>

definition good_poller :: "poller \<Rightarrow> bool" where
  "good_poller poll \<longleftrightarrow> (\<forall>t n. \<exists>ss. poll t n = Inr ss \<and> length ss \<le> n \<and> list_all (\<lambda>s. s = 0) ss)"

definition fair_poller :: "poller \<Rightarrow> bool" where
  "fair_poller poll \<longleftrightarrow> (\<forall>t. \<exists>d. \<forall>n. 0 < n \<longrightarrow> poll (t + d) n \<noteq> Inr [])"

lemma poll_step:
  assumes "comps < num" "poll t (num - comps) = Inr ss" "ss \<noteq> []" "list_all (\<lambda>s. s = 0) ss"
  shows "poll_loop poll t num comps wc = poll_loop poll (t + 1) num (comps + length ss) (put_wcs wc comps ss)"
  using assms by (subst poll_loop.simps) (simp add: put_wcs_def list_all_length)

lemma poll_loop_done:
  assumes good: "good_poller poll" and fair: "fair_poller poll"
  shows "comps \<le> num \<Longrightarrow> \<forall>i<comps. wc i = 0 \<Longrightarrow>
    \<exists>wc' t'. poll_loop poll t num comps wc = Some (PollDone wc' t') \<and> (\<forall>i<num. wc' i = 0)"
proof (induction "num - comps" arbitrary: comps t wc rule: less_induct)
  case less
  show ?case
  proof (cases "comps < num")
    case False
    then show ?thesis using less.prems by (subst poll_loop.simps) auto
  next
    case True
    obtain d where d: "\<forall>n. 0 < n \<longrightarrow> poll (t + d) n \<noteq> Inr []" using fair by (auto simp: fair_poller_def)
    then show ?thesis
    proof (induction d arbitrary: t)
      case (0 t)
      obtain ss where ss: "poll t (num - comps) = Inr ss" "length ss \<le> num - comps" "list_all (\<lambda>s. s = 0) ss"
        using good by (auto simp: good_poller_def)
      have ne: "ss \<noteq> []" using 0 ss(1) True by force
      then have lt: "num - (comps + length ss) < num - comps" using True by (intro diff_less_mono2) (simp_all add: Suc_le_eq)
      note st = poll_step [of comps num poll t ss wc, OF True ss(1) ne ss(3)]
      show ?case unfolding st
        by (rule less.hyps) (use lt ss(2,3) True less.prems in \<open>auto simp: put_wcs_def list_all_length\<close>)
    next
      case (Suc d t)
      obtain ss where ss: "poll t (num - comps) = Inr ss" "length ss \<le> num - comps" "list_all (\<lambda>s. s = 0) ss"
        using good by (auto simp: good_poller_def)
      show ?case
      proof (cases "ss = []")
        case True
        have "\<forall>n. 0 < n \<longrightarrow> poll (t + 1 + d) n \<noteq> Inr []" using Suc.prems by simp
        from Suc.IH [OF this] show ?thesis
          using \<open>comps < num\<close> ss(1) True by (subst poll_loop.simps) simp
      next
        case False
        then have lt: "num - (comps + length ss) < num - comps" using \<open>comps < num\<close> by (intro diff_less_mono2) (simp_all add: Suc_le_eq)
        note st = poll_step [of comps num poll t ss wc, OF \<open>comps < num\<close> ss(1) False ss(3)]
        show ?thesis unfolding st
          by (rule less.hyps) (use lt ss(2,3) \<open>comps < num\<close> less.prems in \<open>auto simp: put_wcs_def list_all_length\<close>)
      qed
    qed
  qed
qed

subsection \<open>The ready flag\<close>

text \<open>What libmemcached promises about a successful set: the key maps to the value, other keys are untouched.\<close>

definition memc_laws :: "'m memc_set \<Rightarrow> 'm memc_get \<Rightarrow> bool" where
  "memc_laws mset mget \<longleftrightarrow> (\<forall>m k v m'. mset m k v = (MEMCACHED_SUCCESS, m') \<longrightarrow>
     mget m' k = (MEMCACHED_SUCCESS, v) \<and> (\<forall>k'. k' \<noteq> k \<longrightarrow> mget m' k' = mget m k'))"

lemma publish_get:
  assumes "memc_laws mset mget" "hrd_publish mset m k v = Inr m'"
  shows "hrd_get_published mget m' k = Inr (Some v)" "k' \<noteq> k \<Longrightarrow> hrd_get_published mget m' k' = hrd_get_published mget m k'"
proof -
  have "mset m k v = (MEMCACHED_SUCCESS, m')"
    using assms(2) by (auto simp: hrd_publish_def res_simps split: prod.splits memc_ret.splits)
  then have "mget m' k = (MEMCACHED_SUCCESS, v)" "k' \<noteq> k \<Longrightarrow> mget m' k' = mget m k'"
    using assms(1) unfolding memc_laws_def by blast+
  then show "hrd_get_published mget m' k = Inr (Some v)" "k' \<noteq> k \<Longrightarrow> hrd_get_published mget m' k' = hrd_get_published mget m k'"
    by (simp_all add: hrd_get_published_def)
qed

lemma ready_value [simp]: "c_string hrd_ready_value = hrd_ready_value" "hrd_ready_value \<noteq> []"
  by (simp_all add: c_string_def hrd_ready_value_def string_bytes_def)

lemma wait_step:
  assumes "\<And>i. i < d \<Longrightarrow> hrd_get_published mget (ms (t + i)) (HRD_RESERVED_NAME_PREFIX @ name) = Inr None"
    and "hrd_get_published mget (ms (t + d)) (HRD_RESERVED_NAME_PREFIX @ name) = Inr (Some hrd_ready_value)"
  shows "hrd_wait_till_ready mget ms t name = Some (Inr (t + d))"
  using assms
proof (induction d arbitrary: t)
  case 0
  then show ?case by (subst hrd_wait_till_ready.simps) simp
next
  case (Suc d)
  have "hrd_wait_till_ready mget ms (t + 1) name = Some (Inr (t + 1 + d))"
    using Suc.prems(1) [of "Suc _"] Suc.prems(2) by (intro Suc.IH) auto
  then show ?case using Suc.prems(1) [of 0] by (subst hrd_wait_till_ready.simps) simp
qed

subsection \<open>Properties\<close>

text \<open>
  The port search returns exactly the port of the given rank among the enabled ports of all
  devices in order, as the device index and the device-local port number; a rank beyond the last
  enabled port ends the process with -1.
\<close>

theorem hrd_resolve_port_rank:
  assumes "list_all dev_ok ds" "0 \<le> port_index"
  shows "hrd_resolve_port_index (Some ds) port_index =
    (if nat port_index < length (enabled_ports ds 0) then Inr (enabled_ports ds 0 ! nat port_index)
     else Inl (ExitWith (-1)))"
  using scan_devices_spec [OF assms] assms(2) by (simp add: hrd_resolve_port_index_def)

definition two_port_dev :: dev_info where
  "two_port_dev = \<lparr>dev_opens = True, dev_queries = True, phys_port_cnt = 2,
     port_state = (\<lambda>p. if p = 1 then Some 1 else Some 4), dev_closes = True\<rparr>"

theorem hrd_resolve_port_rank_witness:
  "list_all dev_ok [two_port_dev, two_port_dev] \<and>
   hrd_resolve_port_index (Some [two_port_dev, two_port_dev]) 1 = Inr (1, 2)"
proof -
  have ok: "list_all dev_ok [two_port_dev, two_port_dev]" by (simp add: dev_ok_def two_port_dev_def list_all_iff)
  show ?thesis
    using hrd_resolve_port_rank [OF ok, of 1] ok
    by (simp add: dev_ports_def two_port_dev_def port_enabled_def IBV_PORT_ACTIVE_def IBV_PORT_ACTIVE_DEFER_def numeral_2_eq_2)
qed

text \<open>
  C37: When the device delivers only good completions, never more than asked for, and keeps
  delivering, \<open>hrd_poll_cq\<close> returns, and the first \<open>num_comps\<close> entries of the array are good.
\<close>

theorem hrd_poll_cq_returns:
  assumes "good_poller poll" "fair_poller poll"
  shows "\<exists>wc' t'. hrd_poll_cq poll t num_comps wc = Some (Inr (wc', t')) \<and> (\<forall>i<num_comps. wc' i = 0)"
  using poll_loop_done [OF assms, of 0 num_comps wc t] by (auto simp: hrd_poll_cq_def)

theorem hrd_poll_cq_returns_witness:
  "\<exists>wc' t'. hrd_poll_cq (\<lambda>t n. Inr (replicate (min n 2) 0)) 0 5 (\<lambda>_. 7) = Some (Inr (wc', t')) \<and> wc' 4 = 0"
proof -
  have "good_poller (\<lambda>t n. Inr (replicate (min n 2) 0))" "fair_poller (\<lambda>t n. Inr (replicate (min n 2) 0))"
    by (auto simp: good_poller_def fair_poller_def list_all_iff)
  from hrd_poll_cq_returns [OF this, of 0 5 "\<lambda>_. 7"] show ?thesis by auto
qed

text \<open>
  Polling misses a failed completion that is not the first of its batch: with a poll that
  delivers a good and a failed completion together, \<open>hrd_poll_cq\<close> returns as if both were good.
\<close>

theorem hrd_poll_cq_misses_failure:
  "\<exists>wc'. hrd_poll_cq (\<lambda>t n. Inr [0, st]) t 2 wc = Some (Inr (wc', t + 1)) \<and> wc' 1 = st"
proof (rule exI [of _ "put_wcs wc 0 [0, st]"])
  let ?p = "\<lambda>t n. Inr [0, st]"
  have "poll_loop ?p t 2 0 wc = poll_loop ?p (t + 1) 2 2 (put_wcs wc 0 [0, st])"
    by (subst poll_loop.simps) (simp add: put_wcs_def numeral_2_eq_2)
  also have "\<dots> = Some (PollDone (put_wcs wc 0 [0, st]) (t + 1))" by (subst poll_loop.simps) simp
  finally show "hrd_poll_cq ?p t 2 wc = Some (Inr (put_wcs wc 0 [0, st], t + 1)) \<and> put_wcs wc 0 [0, st] 1 = st"
    by (simp add: hrd_poll_cq_def put_wcs_def)
qed

text \<open>
  An error of \<open>ibv_poll_cq\<close> is taken for a count: a first poll that returns a negative
  number makes \<open>hrd_poll_cq\<close> go on with a negative array index.
\<close>

theorem hrd_poll_cq_error_wild:
  assumes "0 < num_comps" "err < 0" "wc 0 = 0" "poll t num_comps = Inl err"
  shows "hrd_poll_cq poll t num_comps wc = Some (Inl OutOfBounds)"
proof -
  have "poll_loop poll t num_comps 0 wc = Some PollWild"
    using assms by (subst poll_loop.simps) simp
  then show ?thesis by (simp add: hrd_poll_cq_def)
qed

theorem hrd_poll_cq_error_wild_witness:
  "hrd_poll_cq (\<lambda>t n. Inl (-1)) 0 1 (\<lambda>_. 0) = Some (Inl OutOfBounds)"
  using hrd_poll_cq_error_wild [of 1 "-1" "\<lambda>_. 0" "\<lambda>t n. Inl (-1)" 0] by simp

text \<open>
  C35: The ready handshake: when a peer publishes its ready flag at time \<open>t0\<close>, the flag was not
  in the registry before and nobody overwrites it, \<open>hrd_wait_till_ready\<close> started at time \<open>t\<close>
  returns, and exactly at the first time from \<open>t\<close> on at which the flag is published.
\<close>

theorem hrd_ready_handshake:
  assumes laws: "memc_laws mset mget"
    and pub: "hrd_publish_ready mset (ms t0) name = Inr (ms (t0 + 1))"
    and before: "\<forall>u. u \<le> t0 \<longrightarrow> hrd_get_published mget (ms u) (HRD_RESERVED_NAME_PREFIX @ name) = Inr None"
    and after: "\<forall>u. t0 < u \<longrightarrow> hrd_get_published mget (ms u) (HRD_RESERVED_NAME_PREFIX @ name)
      = hrd_get_published mget (ms (t0 + 1)) (HRD_RESERVED_NAME_PREFIX @ name)"
  shows "hrd_wait_till_ready mget ms t name = Some (Inr (max t (t0 + 1)))"
proof -
  have "hrd_publish mset (ms t0) (HRD_RESERVED_NAME_PREFIX @ name) hrd_ready_value = Inr (ms (t0 + 1))"
    using pub by (simp add: hrd_publish_ready_def res_simps)
  note got = publish_get(1) [OF laws this]
  have flag: "hrd_get_published mget (ms u) (HRD_RESERVED_NAME_PREFIX @ name) = Inr (Some hrd_ready_value)" if "t0 < u" for u
    unfolding after [rule_format, OF that] by (rule got)
  define d where "d = t0 + 1 - t"
  have "hrd_wait_till_ready mget ms t name = Some (Inr (t + d))"
    using before flag [of "t + d"] by (intro wait_step) (auto simp: d_def)
  then show ?thesis by (simp add: d_def max_def)
qed

definition map_set :: "(string \<Rightarrow> u8 list option) memc_set" where
  "map_set m k v = (MEMCACHED_SUCCESS, m(k := Some v))"

definition map_get :: "(string \<Rightarrow> u8 list option) memc_get" where
  "map_get m k = (case m k of None \<Rightarrow> (MEMCACHED_NOTFOUND, []) | Some v \<Rightarrow> (MEMCACHED_SUCCESS, v))"

lemma map_laws: "memc_laws map_set map_get"
  by (auto simp: memc_laws_def map_set_def map_get_def)

theorem hrd_ready_handshake_witness:
  "hrd_wait_till_ready map_get
     (\<lambda>u. if u \<le> 2 then Map.empty else [HRD_RESERVED_NAME_PREFIX @ ''c'' \<mapsto> hrd_ready_value]) 0 ''c'' = Some (Inr 3)"
proof -
  let ?ms = "\<lambda>u::nat. if u \<le> 2 then Map.empty else [HRD_RESERVED_NAME_PREFIX @ ''c'' \<mapsto> hrd_ready_value]"
  have "hrd_publish_ready map_set (?ms 2) ''c'' = Inr (?ms (2 + 1))"
    by (simp add: hrd_publish_ready_def hrd_publish_def map_set_def HRD_QP_NAME_SIZE_def)
  from hrd_ready_handshake [OF map_laws this, of 0] show ?thesis
    by (simp add: hrd_get_published_def map_get_def)
qed

text \<open>
  The generator step of \<open>hrd_fastrand\<close> is a bijection of the 64-bit seeds: two seeds with
  the same successor are equal, so the state never collapses.
\<close>

theorem hrd_fastrand_inj: "snd (hrd_fastrand s) = snd (hrd_fastrand s') \<longleftrightarrow> s = s'"
  by (simp add: hrd_fastrand_def Let_def fastrand_step_inj)

text \<open>
  \<open>hrd_is_power_of_2\<close> accepts exactly the 32 powers of two of a 32-bit word.
\<close>

theorem hrd_is_power_of_2_iff: "hrd_is_power_of_2 n \<longleftrightarrow> (\<exists>k<32. n = 2 ^ k)"
proof
  assume "hrd_is_power_of_2 n"
  then have n: "n \<noteq> 0" "n AND (n - 1) = 0" by (simp_all add: hrd_is_power_of_2_def)
  have "unat (n AND (n - 1)) = 0" using n(2) by simp
  then have "unat n AND (unat n - 1) = 0" using n(1) by (simp add: unsigned_and_eq unat_pred)
  moreover have "0 < unat n" using n(1) by (simp add: unat_gt_0)
  ultimately obtain k where k: "unat n = 2 ^ k" using and_pred_power by blast
  have "(2 :: nat) ^ k < 2 ^ 32" using k unsigned_less [where 'a = nat, of n] by simp
  then have "k < 32" by (subst (asm) power_strict_increasing_iff) auto
  moreover have "n = 2 ^ k" using k \<open>k < 32\<close> by (simp add: word_unat_eq_iff unat_two_power)
  ultimately show "\<exists>k<32. n = 2 ^ k" by blast
next
  assume "\<exists>k<32. n = 2 ^ k"
  then obtain k where k: "k < 32" "n = 2 ^ k" by blast
  then have u: "unat n = 2 ^ k" by (simp add: unat_two_power)
  then have n: "n \<noteq> 0" by (metis power_not_zero unsigned_0 zero_neq_numeral)
  have "unat (n AND (n - 1)) = 0"
    using and_pred_power [of "unat n"] u by (simp add: unsigned_and_eq unat_pred [OF n])
  then show "hrd_is_power_of_2 n" using n by (simp add: hrd_is_power_of_2_def unat_eq_zero)
qed

end
