(* ===== verification/Conn_Props.thy ===== *)
theory Conn_Props
  imports Conn_Proofs Hrd_Props
begin

text \<open>
  Properties of libhrd's queue-pair management: every object of a control block is created and
  destroyed legally and exactly once, queue pairs end in the promised states, buffers are large
  enough, and a published queue pair is read back unchanged.
\<close>

subsection \<open>Computations that return\<close>

text \<open>A system in which every call succeeds.\<close>

definition good_env :: "env \<Rightarrow> bool" where
  "good_env env \<longleftrightarrow> (\<forall>c. verb_ok env c) \<and> (\<forall>k n. os_shmget env k n \<noteq> -1)
     \<and> (\<forall>i. os_shmat env i \<noteq> 0 \<and> os_shmat env i \<noteq> -1) \<and> (\<forall>b n m. os_mbind env b n m = 0)
     \<and> (\<forall>i. os_shmctl env i = 0) \<and> (\<forall>b. os_shmdt env b = 0) \<and> (\<forall>n. os_memalign env n \<noteq> 0)"

definition retv :: "env \<Rightarrow> 'a vm \<Rightarrow> ('a \<Rightarrow> bool) \<Rightarrow> bool" where
  "retv env m P \<longleftrightarrow> (\<forall>tr. \<exists>tr' x. m env tr = (tr', Inr x) \<and> P x)"

named_theorems retv_intros \<open>verbs computations that return a value with a property\<close>

lemma retvD: "retv env m P \<Longrightarrow> \<exists>tr' x. m env tr = (tr', Inr x) \<and> P x"
  by (simp add: retv_def)

lemma retv_ret [retv_intros]: "P x \<Longrightarrow> retv env (ret x) P"
  by (simp add: retv_def ret_def)

lemma retv_bindv [retv_intros]: "retv env m Q \<Longrightarrow> (\<And>x. Q x \<Longrightarrow> retv env (f x) P) \<Longrightarrow> retv env (bindv m f) P"
  unfolding retv_def bindv_Inr by blast

lemma retv_liftv: "r = Inr x \<Longrightarrow> P x \<Longrightarrow> retv env (liftv r) P"
  by (simp add: retv_def liftv_def)

lemma retv_check [retv_intros]: "b \<Longrightarrow> retv env (liftv (check b e)) (\<lambda>_. True)"
  by (simp add: retv_def liftv_def check_def)

lemma retv_unit [retv_intros]: "retv env (liftv (Inr x)) (\<lambda>_. True)"
  by (simp add: retv_def liftv_def)

lemma retv_needv [retv_intros]: "good_env env \<Longrightarrow> retv env (needv c e) (\<lambda>_. True)"
  by (auto simp: retv_def needv_Inr good_env_def)

lemma retv_callv [retv_intros]: "good_env env \<Longrightarrow> retv env (callv c) (\<lambda>ok. ok)"
  by (auto simp: retv_def callv_def good_env_def)

lemma retv_mallocv [retv_intros]:
  "good_env env \<Longrightarrow> 0 \<le> s \<Longrightarrow> s < 31 \<Longrightarrow> retv env (mallocv k n s) (\<lambda>b. b \<noteq> 0 \<and> b \<noteq> -1)"
  by (auto simp: retv_def mallocv_def good_env_def hrd_malloc_socket_def check_def bind_res_def Let_def)

lemma retv_memalignv [retv_intros]: "good_env env \<Longrightarrow> retv env (memalignv n) (\<lambda>b. b \<noteq> 0)"
  by (auto simp: retv_def memalignv_def good_env_def)

lemma retv_freev [retv_intros]: "good_env env \<Longrightarrow> retv env (freev k b) (\<lambda>_. True)"
  by (auto simp: retv_def freev_def good_env_def hrd_free_def check_def bind_res_def Let_def)

lemma retv_tryv [retv_intros]: "good_env env \<Longrightarrow> retv env k P \<Longrightarrow> retv env (tryv c k) P"
  unfolding retv_def tryv_Inr by (auto simp: good_env_def)

lemma retv_dgram_loop: "good_env env \<Longrightarrow> retv env (dgram_loop cb i n) (\<lambda>m. m = i + n)"
proof (induction n arbitrary: i)
  case (Suc n)
  have "retv env (dgram_loop cb (i + 1) n) (\<lambda>m. m = i + Suc n)" using Suc.IH [OF Suc.prems, of "i + 1"] by simp
  thus ?case using Suc.prems
    by (auto intro!: retv_intros)
qed (simp add: retv_intros)

lemma retv_conn_loop: "good_env env \<Longrightarrow> retv env (conn_loop cb i n) (\<lambda>_. True)"
  by (induction n arbitrary: i) (auto intro!: retv_intros)

lemma retv_alloc_reg_buf:
  "good_env env \<Longrightarrow> node \<le> 8 \<Longrightarrow> node \<ge> 0 \<longrightarrow> 1 \<le> key \<and> key \<le> 128 \<Longrightarrow> retv env (alloc_reg_buf mr node s key) (\<lambda>_. True)"
  unfolding alloc_reg_buf_def Let_def
  by (cases "node \<ge> 0") (auto intro!: retv_intros)

lemma scan_ports_ge: "scan_ports d p n todo = Inr (Inl q) \<Longrightarrow> p \<le> q"
  by (induction d p n todo rule: scan_ports.induct) (fastforce split: option.splits if_splits)+

lemma scan_devices_ge: "scan_devices ds i todo = Inr (dev, dport) \<Longrightarrow> 1 \<le> dport"
proof (induction ds i todo rule: scan_devices.induct)
  case (2 d ds i todo)
  show ?case
  proof (cases "scan_ports d 1 (phys_port_cnt d) todo")
    case (Inr r)
    show ?thesis
    proof (cases r)
      case (Inl p)
      thus ?thesis using 2 Inr scan_ports_ge [of d 1 "phys_port_cnt d" todo p]
        by (auto simp: bind_res_def check_def split: if_splits)
    next
      case (Inr t)
      thus ?thesis using 2 \<open>scan_ports d 1 (phys_port_cnt d) todo = Inr r\<close>
        by (auto simp: bind_res_def check_def split: if_splits)
    qed
  qed (use 2 in \<open>auto simp: bind_res_def check_def split: if_splits\<close>)
qed simp

lemma resolve_ge: "hrd_resolve_port_index devs port = Inr (dev, dport) \<Longrightarrow> 1 \<le> dport"
  by (cases devs) (auto simp: hrd_resolve_port_index_def bind_res_def check_def split: if_splits dest: scan_devices_ge)

lemma retv_dgram_phase:
  assumes "good_env env" "numa_node_id cb \<le> 8" "1 \<le> dev_port_id cb"
    and "numa_node_id cb \<ge> 0 \<longrightarrow> num_dgram_qps cb \<ge> 1 \<longrightarrow> 1 \<le> dgram_buf_shm_key cb \<and> dgram_buf_shm_key cb \<le> 128"
    and "dgram_made cb = 0" "0 \<le> num_dgram_qps cb"
  shows "retv env (dgram_phase cb) (\<lambda>cb'. dgram_made cb' = nat (num_dgram_qps cb)
    \<and> (\<exists>a b. cb' = cb\<lparr>dgram_made := a, dgram_buf := b\<rparr>))"
proof (cases "num_dgram_qps cb \<ge> 1")
  case True
  have "retv env (hrd_create_dgram_qps cb) (\<lambda>m. m = nat (num_dgram_qps cb))"
    unfolding hrd_create_dgram_qps_def
    using retv_dgram_loop [OF assms(1), of cb 0] True assms(3) by (auto intro!: retv_intros)
  moreover have "retv env (alloc_reg_buf DgramMr (numa_node_id cb) (dgram_buf_size cb) (dgram_buf_shm_key cb)) (\<lambda>_. True)"
    using assms(2,4) True by (intro retv_alloc_reg_buf [OF assms(1)]) auto
  ultimately show ?thesis unfolding dgram_phase_def using True by (auto intro!: retv_intros)
next
  case False
  thus ?thesis unfolding dgram_phase_def using assms(5,6) cb_same(1) by (auto intro!: retv_intros)
qed

lemma retv_conn_phase:
  assumes "good_env env" "numa_node_id cb \<le> 8" "1 \<le> dev_port_id cb"
    and "numa_node_id cb \<ge> 0 \<longrightarrow> num_conn_qps cb \<ge> 1 \<longrightarrow> pre = 0 \<longrightarrow> 1 \<le> conn_buf_shm_key cb \<and> conn_buf_shm_key cb \<le> 128"
  shows "retv env (conn_phase pre cb) (\<lambda>cb'. \<exists>b. cb' = cb\<lparr>conn_buf := b\<rparr>)"
proof (cases "num_conn_qps cb \<ge> 1")
  case True
  have "retv env (hrd_create_conn_qps cb) (\<lambda>_. True)"
    unfolding hrd_create_conn_qps_def
    using retv_conn_loop [OF assms(1), of cb 0] True assms(3) by (auto intro!: retv_intros)
  moreover have "pre = 0 \<Longrightarrow> retv env (alloc_reg_buf ConnMr (numa_node_id cb) (conn_buf_size cb) (conn_buf_shm_key cb)) (\<lambda>_. True)"
    using assms(2,4) True by (intro retv_alloc_reg_buf [OF assms(1)]) auto
  ultimately show ?thesis unfolding conn_phase_def using True assms(1) by (auto intro!: retv_intros)
next
  case False
  thus ?thesis unfolding conn_phase_def using cb_same(2) by (auto intro!: retv_intros)
qed

lemma retv_destroy_dgram:
  "good_env env \<Longrightarrow> i + n \<le> dgram_made cb \<Longrightarrow> retv env k P \<Longrightarrow> retv env (destroy_dgram cb i n k) P"
  by (induction n arbitrary: i) (auto intro!: retv_intros)

lemma retv_destroy_conn: "good_env env \<Longrightarrow> retv env k P \<Longrightarrow> retv env (destroy_conn i n k) P"
  by (induction n arbitrary: i) (auto intro!: retv_intros)

lemma retv_free_buf: "good_env env \<Longrightarrow> retv env k P \<Longrightarrow> 0 \<le> numa_node_id cb \<or> own \<Longrightarrow> retv env (free_buf cb own b key k) P"
  unfolding free_buf_def by (auto intro!: retv_intros)

lemma retv_destroy:
  assumes "good_env env" "nat (num_dgram_qps cb) \<le> dgram_made cb"
    "0 \<le> numa_node_id cb \<or> \<not> conn_prealloc cb \<or> num_conn_qps cb \<le> 0"
  shows "retv env (hrd_ctrl_blk_destroy cb) (\<lambda>r. r = 0)"
  unfolding hrd_ctrl_blk_destroy_def using assms
  by (auto intro!: retv_destroy_dgram retv_destroy_conn retv_intros retv_free_buf)

lemma destroy_run:
  assumes "hrd_ctrl_blk_destroy cb env tr = (tr', Inr 0)" "vrun env v0 tr = Some v"
    and "made {..<dgram_made cb} {..<nat (num_conn_qps cb)} v"
    and "v_mrs v = (if num_dgram_qps cb \<ge> 1 then {DgramMr} else {}) \<union> (if num_conn_qps cb \<ge> 1 then {ConnMr} else {})"
    and "dgram_made cb \<le> nat (num_dgram_qps cb)"
  shows "vrun env v0 tr' = Some v0"
proof -
  let ?n = "nat (num_dgram_qps cb)" and ?c = "nat (num_conn_qps cb)"
  let ?e = "tryv DeallocPd (tryv CloseDevice (ret 0))"
  let ?k2 = "(if num_conn_qps cb > 0
      then (\<lambda>k. tryv (DeregMr ConnMr) (free_buf cb (\<not> conn_prealloc cb) (conn_buf cb) (conn_buf_shm_key cb) k)) else (\<lambda>k. k)) ?e"
  let ?k1 = "(if num_dgram_qps cb > 0
      then (\<lambda>k. tryv (DeregMr DgramMr) (free_buf cb True (dgram_buf cb) (dgram_buf_shm_key cb) k)) else (\<lambda>k. k)) ?k2"
  have d: "destroy_dgram cb 0 ?n (destroy_conn 0 ?c ?k1) env tr = (tr', Inr 0)"
    using assms(1) by (simp add: hrd_ctrl_blk_destroy_def)
  have "dgram_made cb = ?n" using destroy_dgram_filled [OF d] assms(5) by (cases "?n = 0") auto
  hence m: "made {0..<0 + ?n} {0..<0 + ?c} v" using assms(3) by (simp add: lessThan_atLeast0)
  from destroy_dgram_run [OF d assms(2) m] obtain t1 v1 where 1: "destroy_conn 0 ?c ?k1 env t1 = (tr', Inr 0)"
    "vrun env v0 t1 = Some v1" "made {} {0..<0 + ?c} v1" "v_mrs v1 = v_mrs v" by blast
  from destroy_conn_run [OF 1(1-3)] obtain t2 v2 where 2: "?k1 env t2 = (tr', Inr 0)"
    "vrun env v0 t2 = Some v2" "made {} {} v2" "v_mrs v2 = v_mrs v" unfolding 1(4) by blast
  have "\<exists>t3 v3. ?k2 env t3 = (tr', Inr 0) \<and> vrun env v0 t3 = Some v3 \<and> made {} {} v3 \<and> v_mrs v3 = v_mrs v - {DgramMr}"
  proof (cases "num_dgram_qps cb > 0")
    case True
    hence "DgramMr \<in> v_mrs v2" using 2(4) assms(4) by simp
    from dereg_run [OF _ 2(2,3) this] 2(1,4) True show ?thesis by simp
  next
    case False
    thus ?thesis using 2 assms(4) by (intro exI [of _ t2] exI [of _ v2]) simp
  qed
  then obtain t3 v3 where 3: "?k2 env t3 = (tr', Inr 0)" "vrun env v0 t3 = Some v3" "made {} {} v3"
    "v_mrs v3 = v_mrs v - {DgramMr}" by blast
  have "\<exists>t4 v4. ?e env t4 = (tr', Inr 0) \<and> vrun env v0 t4 = Some v4 \<and> made {} {} v4 \<and> v_mrs v4 = {}"
  proof (cases "num_conn_qps cb > 0")
    case True
    hence m3: "ConnMr \<in> v_mrs v3" and e: "v_mrs v3 - {ConnMr} = {}"
      and k: "tryv (DeregMr ConnMr) (free_buf cb (\<not> conn_prealloc cb) (conn_buf cb) (conn_buf_shm_key cb) ?e) env t3 = (tr', Inr 0)"
      using 3(1,4) assms(4) by auto
    show ?thesis using dereg_run [OF k 3(2,3) m3] unfolding e .
  next
    case False
    thus ?thesis using 3 assms(4) by (intro exI [of _ t3] exI [of _ v3]) simp
  qed
  then obtain t4 v4 where 4: "?e env t4 = (tr', Inr 0)" "vrun env v0 t4 = Some v4" "made {} {} v4" "v_mrs v4 = {}" by blast
  hence "verb_ok env DeallocPd" "verb_ok env CloseDevice" "tr' = t4 @ [DeallocPd, CloseDevice]"
    by (auto simp: vm_inv split: if_splits)
  thus ?thesis using 4(2-4) by (auto simp: vrun_append made_def v0_def intro: vstate.equality)
qed

subsection \<open>Names and byte images\<close>

lemma strstr_append: "strstr (pat @ s) pat"
proof (cases "pat @ s")
  case (Cons c t)
  have "take (length pat) (pat @ s) = pat" by simp
  thus ?thesis unfolding Cons by simp
qed simp

lemma char_byte_inverse: "char_of (unat (of_nat (of_char c) :: u8)) = c"
  by (simp add: unat_of_nat)

lemma string_bytes_inverse: "map (\<lambda>b. char_of (unat b)) (string_bytes s) = s"
  by (simp add: string_bytes_def char_byte_inverse comp_def del: unat_of_nat)

lemma char_byte_zero: "c \<noteq> CHR 0x00 \<Longrightarrow> (of_nat (of_char c) :: u8) \<noteq> 0"
proof
  assume c: "c \<noteq> CHR 0x00" and z: "(of_nat (of_char c) :: u8) = 0"
  have "char_of (0 :: nat) = c" using char_byte_inverse [of c] unfolding z by simp
  moreover have "char_of (0 :: nat) = CHR 0x00" by (simp add: char_of_def)
  ultimately show False using c by simp
qed

lemma c_string_name:
  assumes "CHR 0x00 \<notin> set name" "length name < 200"
  shows "c_string (take 200 (string_bytes name @ [0] @ junk)) = string_bytes name"
proof -
  have "b \<noteq> 0" if b: "b \<in> set (string_bytes name)" for b
  proof -
    obtain c where "c \<in> set name" "b = of_nat (of_char c)" using b unfolding string_bytes_def set_map by blast
    thus ?thesis using assms(1) char_byte_zero [of c] by metis
  qed
  moreover have "take 200 (string_bytes name @ [0] @ junk) = string_bytes name @ 0 # take (199 - length name) junk"
    using assms(2) by (simp add: string_bytes_def take_Cons')
  ultimately show ?thesis by (simp add: c_string_def)
qed

lemma qp_attr_bytes_inverse:
  assumes "CHR 0x00 \<notin> set (qa_name a)" "length (qa_name a) < HRD_QP_NAME_SIZE - 1"
  shows "length (qp_attr_bytes junk a) = sizeof_hrd_qp_attr" "qp_attr_of_bytes (qp_attr_bytes junk a) = a"
proof -
  define h where "h = string_bytes (qa_name a) @ [0] @ map junk [length (qa_name a) + 1..<HRD_QP_NAME_SIZE]"
  have h: "length h = 200" using assms(2) by (simp add: h_def string_bytes_def HRD_QP_NAME_SIZE_def)
  have b: "qp_attr_bytes junk a = h @ le_bytes 8 (buf_addr a) @ le_bytes 4 (buf_size a) @ le_bytes 4 (rkey a)
     @ le_bytes 4 (lid a) @ le_bytes 4 (qpn a)"
    by (simp add: qp_attr_bytes_def h_def)
  show "length (qp_attr_bytes junk a) = sizeof_hrd_qp_attr" using h by (simp add: b sizeof_hrd_qp_attr_def)
  have "c_string h = string_bytes (qa_name a)"
    using c_string_name [OF assms(1), of "map junk [length (qa_name a) + 1..<HRD_QP_NAME_SIZE]"] assms(2) h
    by (simp add: h_def HRD_QP_NAME_SIZE_def)
  thus "qp_attr_of_bytes (qp_attr_bytes junk a) = a"
    using h by (simp add: b qp_attr_of_bytes_def string_bytes_inverse le_word_le_bytes)
qed

lemma check_qp_name_Inr:
  "check_qp_name name = Inr u \<longleftrightarrow> length name < HRD_QP_NAME_SIZE - 1 \<and> \<not> strstr name HRD_RESERVED_NAME_PREFIX
     \<and> \<not> list_ex (\<lambda>c. c = CHR '' '') name"
  by (auto simp: check_qp_name_def bind_res_def check_def)

lemma reg_size_loop_spec:
  "r mod K_128 = 0 \<Longrightarrow> r < size0 + K_128 \<Longrightarrow>
   size0 \<le> reg_size_loop size0 r \<and> reg_size_loop size0 r mod K_128 = 0 \<and> reg_size_loop size0 r < size0 + K_128"
proof (induction size0 r rule: reg_size_loop.induct)
  case (1 size0 r)
  show ?case
  proof (cases "r < size0")
    case True
    thus ?thesis using 1 by (simp add: reg_size_loop.simps [of size0 r] mod_add_self2)
  next
    case False
    thus ?thesis using 1 by (simp add: reg_size_loop.simps [of size0 r])
  qed
qed

lemma connect_run:
  assumes "hrd_connect_qp cb n remote env tr = (tr', Inr u)" "vrun env v0 tr = Some v" "made D C v"
    and "qp_in v (ConnQp (nat n)) IBV_QPS_INIT"
  shows "\<exists>v'. vrun env v0 tr' = Some v' \<and> made D C v' \<and> qp_in v' (ConnQp (nat n)) IBV_QPS_RTS
    \<and> (\<forall>q. q \<noteq> ConnQp (nat n) \<longrightarrow> v_qps v' q = v_qps v q)
    \<and> tr' = tr @ [ModifyQp (ConnQp (nat n)) (conn_rtr_attr cb remote) (conn_rtr_flags cb),
                 ModifyQp (ConnQp (nat n)) (conn_rts_attr cb) (conn_rts_flags cb)]"
proof -
  let ?q = "ConnQp (nat n)"
  let ?r = "ModifyQp ?q (conn_rtr_attr cb remote) (conn_rtr_flags cb)"
  let ?s = "ModifyQp ?q (conn_rts_attr cb) (conn_rts_flags cb)"
  have ok: "verb_ok env ?r" "verb_ok env ?s" "tr' = (tr @ [?r]) @ [?s]"
    using assms(1) by (auto simp: hrd_connect_qp_def vm_inv)
  have fl: "IBV_QP_STATE \<in> set (conn_rtr_flags cb)" "IBV_QP_STATE \<in> set (conn_rts_flags cb)"
    by (simp_all add: conn_rtr_flags_def conn_rts_flags_def)
  obtain cs where cs: "v_qps v ?q = Some (IBV_QPS_INIT, cs)" using assms(4) by (auto simp: qp_in_def)
  obtain v1 where v1: "vrun env v0 (tr @ [?r]) = Some v1" "made D C v1" "v_qps v1 = (v_qps v)(?q \<mapsto> (IBV_QPS_RTR, cs))"
    using modify_qp [OF assms(2,3) cs, of "conn_rtr_attr cb remote", OF _ fl(1) ok(1)] by auto
  hence q1: "v_qps v1 ?q = Some (IBV_QPS_RTR, cs)" by simp
  obtain v2 where "vrun env v0 ((tr @ [?r]) @ [?s]) = Some v2" "made D C v2" "v_qps v2 = (v_qps v1)(?q \<mapsto> (IBV_QPS_RTS, cs))"
    using modify_qp [OF v1(1,2) q1, of "conn_rts_attr cb", OF _ fl(2) ok(2)] by auto
  thus ?thesis using v1(3) ok(3) by (intro exI [of _ v2]) (auto simp: qp_in_def)
qed

lemma hrd_ctrl_blk_returns:
  assumes "good_env env" "check_init_args port node nconn uc pre csize ckey ndgram dsize = Inr ()"
    and "hrd_resolve_port_index devs port = Inr (dev, dport)"
    and "node \<ge> 0 \<longrightarrow> ndgram \<ge> 1 \<longrightarrow> 1 \<le> dkey \<and> dkey \<le> 128"
    and "node \<ge> 0 \<longrightarrow> nconn \<ge> 1 \<longrightarrow> pre = 0 \<longrightarrow> 1 \<le> ckey \<and> ckey \<le> 128"
  shows "retv env (hrd_ctrl_blk_init devs hid port node nconn uc pre csize ckey ndgram dsize dkey)
    (\<lambda>cb. dgram_made cb = nat (num_dgram_qps cb) \<and> num_conn_qps cb = nconn \<and> numa_node_id cb = node \<and> conn_prealloc cb = (pre \<noteq> 0))"
proof -
  let ?cb = "\<lparr>local_hid = hid, port_index = port, device_id = dev, dev_port_id = dport,
     numa_node_id = node, use_uc = uc, num_conn_qps = nconn, conn_buf = 0,
     conn_buf_size = csize, conn_buf_shm_key = ckey, num_dgram_qps = ndgram, dgram_buf = 0,
     dgram_buf_size = dsize, dgram_buf_shm_key = dkey, dgram_made = 0, conn_prealloc = (pre \<noteq> 0)\<rparr>"
  have a: "node \<le> 8" "0 \<le> ndgram" using assms(2) by (auto simp: check_init_args_def bind_res_def check_def split: if_splits)
  have d: "retv env (dgram_phase ?cb) (\<lambda>cb'. dgram_made cb' = nat ndgram \<and> (\<exists>a b. cb' = ?cb\<lparr>dgram_made := a, dgram_buf := b\<rparr>))"
    using retv_dgram_phase [OF assms(1), of ?cb] resolve_ge [OF assms(3)] a assms(4) by simp
  have c: "retv env (conn_phase pre cb) (\<lambda>cb'. dgram_made cb' = nat (num_dgram_qps cb') \<and> num_conn_qps cb' = nconn
      \<and> numa_node_id cb' = node \<and> conn_prealloc cb' = (pre \<noteq> 0))"
    if cb: "dgram_made cb = nat ndgram \<and> (\<exists>a b. cb = ?cb\<lparr>dgram_made := a, dgram_buf := b\<rparr>)" for cb
  proof -
    have "retv env (conn_phase pre cb) (\<lambda>cb'. \<exists>b. cb' = cb\<lparr>conn_buf := b\<rparr>)"
      using cb resolve_ge [OF assms(3)] a assms(5) by (intro retv_conn_phase [OF assms(1)]) auto
    thus ?thesis unfolding retv_def using cb by fastforce
  qed
  have b: "retv env (bindv (needv (OpenDevice dev) (ExitWith 0)) (\<lambda>_. bindv (needv AllocPd (ExitWith 0)) (\<lambda>_.
      bindv (dgram_phase ?cb) (conn_phase pre)))) (\<lambda>cb. dgram_made cb = nat (num_dgram_qps cb) \<and> num_conn_qps cb = nconn
        \<and> numa_node_id cb = node \<and> conn_prealloc cb = (pre \<noteq> 0))"
    by (rule retv_bindv [OF retv_needv [OF assms(1)]], rule retv_bindv [OF retv_needv [OF assms(1)]],
      rule retv_bindv [OF d c])
  show ?thesis
    unfolding hrd_ctrl_blk_init_def Let_def assms(2,3)
  proof (rule retv_bindv [OF retv_unit], rule retv_bindv [where Q = "\<lambda>x. x = (dev, dport)"])
    show "retv env (liftv (Inr (dev, dport))) (\<lambda>x. x = (dev, dport))" by (simp add: retv_def liftv_def)
  qed (simp add: b)
qed

subsection \<open>A system that works\<close>

definition ok_env :: env where
  "ok_env = \<lparr>verb_ok = (\<lambda>_. True), os_shmget = (\<lambda>k n. 1), os_shmat = (\<lambda>i. 4096), os_mbind = (\<lambda>b n m. 0),
     os_shmfind = (\<lambda>k. k), os_shmctl = (\<lambda>i. 0), os_shmdt = (\<lambda>b. 0), os_memalign = (\<lambda>n. 8192)\<rparr>"

lemma init_fields:
  assumes "hrd_ctrl_blk_init devs hid port node nconn uc pre csize ckey ndgram dsize dkey env tr = (tr', Inr cb)"
    and "hrd_resolve_port_index devs port = Inr (dev, dport)"
  shows "num_conn_qps cb = nconn \<and> num_dgram_qps cb = ndgram \<and> dev_port_id cb = dport"
proof -
  obtain cb1 t1 t2 where d: "dgram_phase \<lparr>local_hid = hid, port_index = port, device_id = dev, dev_port_id = dport,
     numa_node_id = node, use_uc = uc, num_conn_qps = nconn, conn_buf = 0,
     conn_buf_size = csize, conn_buf_shm_key = ckey, num_dgram_qps = ndgram, dgram_buf = 0,
     dgram_buf_size = dsize, dgram_buf_shm_key = dkey, dgram_made = 0, conn_prealloc = (pre \<noteq> 0)\<rparr> env t1 = (t2, Inr cb1)"
    and c: "conn_phase pre cb1 env t2 = (tr', Inr cb)"
    using assms unfolding hrd_ctrl_blk_init_def Let_def by (auto simp: vm_inv)
  have "\<exists>b. cb = cb1\<lparr>conn_buf := b\<rparr>"
    using c cb_same(2) by (auto simp: conn_phase_def vm_inv split: if_splits)
  thus ?thesis using dgram_phase_cb [OF d] by auto
qed

lemma ok_env_good: "good_env ok_env"
  by (simp add: good_env_def ok_env_def)

lemma ok_resolve: "hrd_resolve_port_index (Some [two_port_dev]) 0 = Inr (0, 2)"
  by (simp add: hrd_resolve_port_index_def two_port_dev_def port_enabled_def IBV_PORT_ACTIVE_def
    IBV_PORT_ACTIVE_DEFER_def bind_res_def check_def numeral_2_eq_2)

lemma ok_args: "check_init_args 0 3 2 0 0 4096 5 2 4096 = Inr ()"
  by (simp add: check_init_args_def M_1024_def M_2_def bind_res_def check_def)

lemma ok_init:
  "\<exists>tr cb. hrd_ctrl_blk_init (Some [two_port_dev]) 0 0 3 2 0 0 4096 5 2 4096 6 ok_env [] = (tr, Inr cb)
     \<and> dgram_made cb = nat (num_dgram_qps cb) \<and> numa_node_id cb = 3"
  using retvD [OF hrd_ctrl_blk_returns [OF ok_env_good ok_args ok_resolve, of 6 0], of "[]"] by simp blast

definition small_cb :: hrd_ctrl_blk where
  "small_cb = \<lparr>local_hid = 0, port_index = 0, device_id = 0, dev_port_id = 2, numa_node_id = -1, use_uc = 0,
     num_conn_qps = 1, conn_buf = 4096, conn_buf_size = 64, conn_buf_shm_key = 1, num_dgram_qps = 0, dgram_buf = 0,
     dgram_buf_size = 0, dgram_buf_shm_key = 0, dgram_made = 0, conn_prealloc = False\<rparr>"

text \<open>A system in which no datagram queue pair can be moved to INIT.\<close>

definition no_init_env :: env where
  "no_init_env = ok_env\<lparr>verb_ok := (\<lambda>c. case c of ModifyQp q a m \<Rightarrow> qp_state a \<noteq> IBV_QPS_INIT | _ \<Rightarrow> True)\<rparr>"

subsection \<open>Properties\<close>

text \<open>
  C15: Whatever calls the system fails, when a control block was created and its destruction
  reports success, the calls of both together obey the contract of the verbs objects and leave
  none behind: every queue pair is destroyed before the completion queues it uses, every
  completion queue, memory region, protection domain and device exactly once.
\<close>

theorem hrd_ctrl_blk_balanced:
  assumes "hrd_ctrl_blk_init devs hid port node nconn uc pre csize ckey ndgram dsize dkey env [] = (tr, Inr cb)"
    and "hrd_ctrl_blk_destroy cb env tr = (tr', Inr 0)"
  shows "vrun env v0 tr' = Some v0"
proof -
  obtain v where v: "vrun env v0 tr = Some v" "made {..<dgram_made cb} {..<nat nconn} v"
    "v_mrs v = (if ndgram \<ge> 1 then {DgramMr} else {}) \<union> (if nconn \<ge> 1 then {ConnMr} else {})"
    "dgram_made cb \<le> nat ndgram" and n: "num_conn_qps cb = nconn" "num_dgram_qps cb = ndgram"
    using hrd_ctrl_blk_init_run [OF assms(1)] by blast
  show ?thesis using destroy_run [OF assms(2) v(1)] v(2-4) unfolding n by blast
qed

theorem hrd_ctrl_blk_balanced_witness:
  "\<exists>tr cb tr'. hrd_ctrl_blk_init (Some [two_port_dev]) 0 0 3 2 0 0 4096 5 2 4096 6 ok_env [] = (tr, Inr cb)
     \<and> hrd_ctrl_blk_destroy cb ok_env tr = (tr', Inr 0) \<and> vrun ok_env v0 tr' = Some v0"
proof -
  obtain tr cb where i: "hrd_ctrl_blk_init (Some [two_port_dev]) 0 0 3 2 0 0 4096 5 2 4096 6 ok_env [] = (tr, Inr cb)"
    "dgram_made cb = nat (num_dgram_qps cb)" "numa_node_id cb = 3" using ok_init by blast
  obtain tr' where d: "hrd_ctrl_blk_destroy cb ok_env tr = (tr', Inr 0)"
    using retvD [OF retv_destroy [OF ok_env_good, of cb], of tr] i(2,3) by auto
  from i(1) d hrd_ctrl_blk_balanced [OF i(1) d] show ?thesis by blast
qed

text \<open>
  C32: When every call succeeds and the arguments are valid, the life of a control block runs to
  its end: creation returns, destruction returns 0, and no verbs object is left. This leaves out a block without a NUMA node whose caller supplied
  the buffer of the connected queue pairs: destruction would pass that pointer to \<open>free\<close>.
\<close>

theorem hrd_ctrl_blk_lifecycle:
  assumes "good_env env" "check_init_args port node nconn uc pre csize ckey ndgram dsize = Inr ()"
    and "hrd_resolve_port_index devs port = Inr (dev, dport)"
    and "node \<ge> 0 \<longrightarrow> ndgram \<ge> 1 \<longrightarrow> 1 \<le> dkey \<and> dkey \<le> 128"
    and "node \<ge> 0 \<longrightarrow> nconn \<ge> 1 \<longrightarrow> pre = 0 \<longrightarrow> 1 \<le> ckey \<and> ckey \<le> 128"
    and "node < 0 \<longrightarrow> nconn \<ge> 1 \<longrightarrow> pre = 0"
  shows "\<exists>tr cb tr'. hrd_ctrl_blk_init devs hid port node nconn uc pre csize ckey ndgram dsize dkey env [] = (tr, Inr cb)
    \<and> hrd_ctrl_blk_destroy cb env tr = (tr', Inr 0) \<and> vrun env v0 tr' = Some v0"
proof -
  obtain tr cb where i: "hrd_ctrl_blk_init devs hid port node nconn uc pre csize ckey ndgram dsize dkey env [] = (tr, Inr cb)"
    "dgram_made cb = nat (num_dgram_qps cb)" "0 \<le> numa_node_id cb \<or> \<not> conn_prealloc cb \<or> num_conn_qps cb \<le> 0"
    using retvD [OF hrd_ctrl_blk_returns [OF assms(1-5)], of hid "[]"] assms(6) by fastforce
  then obtain tr' where d: "hrd_ctrl_blk_destroy cb env tr = (tr', Inr 0)"
    using retvD [OF retv_destroy [OF assms(1), of cb], of tr] by auto
  obtain v where v: "vrun env v0 tr = Some v" "made {..<dgram_made cb} {..<nat nconn} v"
    "v_mrs v = (if ndgram \<ge> 1 then {DgramMr} else {}) \<union> (if nconn \<ge> 1 then {ConnMr} else {})"
    "dgram_made cb \<le> nat ndgram" and n: "num_conn_qps cb = nconn" "num_dgram_qps cb = ndgram"
    using hrd_ctrl_blk_init_run [OF i(1)] by blast
  have "vrun env v0 tr' = Some v0" using destroy_run [OF d v(1)] v(2-4) unfolding n by blast
  with i(1) d show ?thesis by blast
qed

theorem hrd_ctrl_blk_lifecycle_witness:
  "\<exists>tr cb tr'. hrd_ctrl_blk_init (Some [two_port_dev]) 7 0 3 2 0 0 4096 5 2 4096 6 ok_env [] = (tr, Inr cb)
     \<and> hrd_ctrl_blk_destroy cb ok_env tr = (tr', Inr 0) \<and> vrun ok_env v0 tr' = Some v0"
  using hrd_ctrl_blk_lifecycle [OF ok_env_good ok_args ok_resolve, of 6 7] by simp

text \<open>
  C33: After creation and one connect, if no datagram queue pair failed to move to INIT (which the code would not notice), every datagram queue pair is
  ready to send, the connected
  queue pair is ready to send and was aimed at the remote queue pair number and at the low 16
  bits of the remote lid, and the other connected queue pairs still wait in INIT.
\<close>

theorem hrd_qps_ready:
  assumes "hrd_ctrl_blk_init devs hid port node nconn uc pre csize ckey ndgram dsize dkey env [] = (tr, Inr cb)"
    and "all_inits_ok env cb" "hrd_connect_qp cb n remote env tr = (tr', Inr u)"
  shows "\<exists>v a fl. vrun env v0 tr' = Some v
    \<and> (\<forall>j<nat ndgram. qp_in v (DgramQp j) IBV_QPS_RTS) \<and> qp_in v (ConnQp (nat n)) IBV_QPS_RTS
    \<and> (\<forall>j<nat nconn. j \<noteq> nat n \<longrightarrow> qp_in v (ConnQp j) IBV_QPS_INIT)
    \<and> ModifyQp (ConnQp (nat n)) a fl \<in> set tr' \<and> qp_state a = IBV_QPS_RTR
    \<and> dest_qp_num a = qpn remote \<and> dlid a = ucast (lid remote)"
proof -
  obtain v where v: "vrun env v0 tr = Some v" "made {..<dgram_made cb} {..<nat nconn} v"
    and d: "\<forall>j<nat ndgram. qp_in v (DgramQp j) IBV_QPS_RTS" and c: "\<forall>j<nat nconn. qp_in v (ConnQp j) IBV_QPS_INIT"
    and nc: "num_conn_qps cb = nconn"
    using hrd_ctrl_blk_init_run [OF assms(1)] assms(2) by blast
  have "nat n < nat nconn" using assms(3) nc by (auto simp: hrd_connect_qp_def vm_inv)
  then obtain v' where v': "vrun env v0 tr' = Some v'" "qp_in v' (ConnQp (nat n)) IBV_QPS_RTS"
    "\<forall>q. q \<noteq> ConnQp (nat n) \<longrightarrow> v_qps v' q = v_qps v q"
    and tr': "tr' = tr @ [ModifyQp (ConnQp (nat n)) (conn_rtr_attr cb remote) (conn_rtr_flags cb),
                 ModifyQp (ConnQp (nat n)) (conn_rts_attr cb) (conn_rts_flags cb)]"
    using connect_run [OF assms(3) v] c by blast
  have q: "qp_in v' q s = qp_in v q s" if "q \<noteq> ConnQp (nat n)" for q s using v'(3) that by (simp add: qp_in_def)
  show ?thesis
    using v'(1,2) d c q tr'
    by (intro exI [of _ v'] exI [of _ "conn_rtr_attr cb remote"] exI [of _ "conn_rtr_flags cb"])
      (simp add: conn_rtr_attr_def Let_def)
qed

theorem hrd_qps_ready_witness:
  "\<exists>tr cb tr' v. hrd_ctrl_blk_init (Some [two_port_dev]) 0 0 3 2 0 0 4096 5 2 4096 6 ok_env [] = (tr, Inr cb)
     \<and> hrd_connect_qp cb 1 \<lparr>qa_name = [], buf_addr = 0, buf_size = 0, rkey = 0, lid = 9, qpn = 33\<rparr> ok_env tr = (tr', Inr ())
     \<and> vrun ok_env v0 tr' = Some v \<and> qp_in v (DgramQp 1) IBV_QPS_RTS \<and> qp_in v (ConnQp 1) IBV_QPS_RTS
     \<and> qp_in v (ConnQp 0) IBV_QPS_INIT"
proof -
  let ?r = "\<lparr>qa_name = [], buf_addr = 0, buf_size = 0, rkey = 0, lid = 9, qpn = 33\<rparr>"
  obtain tr cb where i: "hrd_ctrl_blk_init (Some [two_port_dev]) 0 0 3 2 0 0 4096 5 2 4096 6 ok_env [] = (tr, Inr cb)"
    using ok_init by blast
  have n: "num_conn_qps cb = 2" "1 \<le> dev_port_id cb" using init_fields [OF i ok_resolve] by simp_all
  have a: "all_inits_ok ok_env cb" by (simp add: all_inits_ok_def ok_env_def)
  have "retv ok_env (hrd_connect_qp cb 1 ?r) (\<lambda>_. True)"
    unfolding hrd_connect_qp_def using n by (auto intro!: retv_intros ok_env_good)
  from retvD [OF this, of tr] obtain tr' where c: "hrd_connect_qp cb 1 ?r ok_env tr = (tr', Inr ())" by auto
  from hrd_qps_ready [OF i a c] obtain v where v: "vrun ok_env v0 tr' = Some v"
    "\<forall>j<nat 2. qp_in v (DgramQp j) IBV_QPS_RTS" "qp_in v (ConnQp (nat 1)) IBV_QPS_RTS"
    "\<forall>j<nat 2. j \<noteq> nat 1 \<longrightarrow> qp_in v (ConnQp j) IBV_QPS_INIT" by blast
  have "qp_in v (DgramQp 1) IBV_QPS_RTS" "qp_in v (ConnQp 0) IBV_QPS_INIT" using v(2,4) by simp_all
  moreover have "qp_in v (ConnQp 1) IBV_QPS_RTS" using v(3) by simp
  ultimately show ?thesis using i c v(1) by blast
qed

text \<open>
  C34: A published connected queue pair is read back unchanged from the registry, also after any
  peer has announced itself ready: the name, the buffer address and size, the remote key, the
  local identifier of the port and the queue pair number.
\<close>

theorem hrd_publish_conn_roundtrip:
  assumes laws: "memc_laws mset mget"
    and pub: "hrd_publish_conn_qp mset m junk cb n name rk ctx lid_of q = Inr m1"
    and ready: "hrd_publish_ready mset m1 peer = Inr m2"
    and nul: "CHR 0x00 \<notin> set name"
  shows "\<exists>l. lid_of (dev_port_id cb) = Some l \<and> hrd_get_published_qp mget m2 name =
    Inr (Some \<lparr>qa_name = name, buf_addr = word_of_int (conn_buf cb), buf_size = word_of_int (conn_buf_size cb),
      rkey = rk, lid = ucast l, qpn = q\<rparr>)"
proof -
  obtain l where l: "lid_of (dev_port_id cb) = Some l" and nm: "check_qp_name name = Inr ()"
    and p: "hrd_publish mset m name (qp_attr_bytes junk \<lparr>qa_name = name, buf_addr = word_of_int (conn_buf cb),
      buf_size = word_of_int (conn_buf_size cb), rkey = rk, lid = ucast l, qpn = q\<rparr>) = Inr m1"
    using pub by (auto simp: hrd_publish_conn_qp_def hrd_get_local_lid_def bind_res_def check_def
      split: sum.splits option.splits if_splits)
  have ns: "\<not> strstr name HRD_RESERVED_NAME_PREFIX" and len: "length name < HRD_QP_NAME_SIZE - 1"
    using nm by (auto simp: check_qp_name_Inr)
  have r: "hrd_publish mset m1 (HRD_RESERVED_NAME_PREFIX @ peer) hrd_ready_value = Inr m2"
    using ready by (auto simp: hrd_publish_ready_def bind_res_def check_def split: if_splits)
  have "name \<noteq> HRD_RESERVED_NAME_PREFIX @ peer" using ns strstr_append by metis
  hence "hrd_get_published mget m2 name = Inr (Some (qp_attr_bytes junk \<lparr>qa_name = name,
      buf_addr = word_of_int (conn_buf cb), buf_size = word_of_int (conn_buf_size cb), rkey = rk, lid = ucast l, qpn = q\<rparr>))"
    using publish_get(2) [OF laws r] publish_get(1) [OF laws p] by metis
  thus ?thesis using l nm nul len
    by (simp add: hrd_get_published_qp_def qp_attr_bytes_inverse)
qed

theorem hrd_publish_conn_roundtrip_witness:
  "\<exists>m1 m2. hrd_publish_conn_qp map_set Map.empty (\<lambda>_. 255) small_cb 0 ''server-0'' 77 (Some two_port_dev) (\<lambda>p. Some 4) 33 = Inr m1
     \<and> hrd_publish_ready map_set m1 ''server-0'' = Inr m2
     \<and> hrd_get_published_qp map_get m2 ''server-0'' = Inr (Some \<lparr>qa_name = ''server-0'', buf_addr = 4096, buf_size = 64,
         rkey = 77, lid = 4, qpn = 33\<rparr>)"
proof -
  obtain m1 where p: "hrd_publish_conn_qp map_set Map.empty (\<lambda>_. 255) small_cb 0 ''server-0'' 77 (Some two_port_dev)
      (\<lambda>p. Some 4) 33 = Inr m1"
    by (auto simp: hrd_publish_conn_qp_def hrd_get_local_lid_def hrd_publish_def check_qp_name_def small_cb_def map_set_def
      HRD_QP_NAME_SIZE_def HRD_RESERVED_NAME_PREFIX_def qp_attr_bytes_def bind_res_def check_def)
  obtain m2 where r: "hrd_publish_ready map_set m1 ''server-0'' = Inr m2"
    by (auto simp: hrd_publish_ready_def hrd_publish_def map_set_def HRD_QP_NAME_SIZE_def bind_res_def check_def)
  from hrd_publish_conn_roundtrip [OF map_laws p r] p r show ?thesis
    by (simp add: small_cb_def)
qed

text \<open>
  The buffer of a control block on hugepages is registered with the least multiple of 128 KB
  that holds the requested bytes.
\<close>

theorem hrd_reg_size_least:
  assumes "0 \<le> size0"
  shows "size0 \<le> reg_size_loop size0 0 \<and> reg_size_loop size0 0 < size0 + 131072 \<and> reg_size_loop size0 0 mod 131072 = 0"
  using reg_size_loop_spec [of 0 size0] assms by (simp add: K_128_def)

theorem hrd_reg_size_least_witness: "reg_size_loop 131073 0 = 262144"
proof -
  have r: "131073 \<le> reg_size_loop 131073 0" "reg_size_loop 131073 0 < 262145" "reg_size_loop 131073 0 mod 131072 = 0"
    using hrd_reg_size_least [of 131073] by simp_all
  then obtain d where "reg_size_loop 131073 0 = 131072 * d" by (auto simp: mod_eq_0_iff_dvd dvd_def)
  moreover from this have "1 < d" "d < 3" using r(1,2) by linarith+
  ultimately show ?thesis by simp
qed

text \<open>
  A failed transition of a datagram queue pair to INIT goes unnoticed: creation with two or more
  datagram queue pairs still returns a control block that claims all of them, only the first was
  created and it is still in RESET, and destroying the control block reads an array entry that
  was never written.
\<close>

theorem hrd_dgram_init_failure_unnoticed:
  assumes "2 \<le> n" "n \<le> M_2"
  shows "\<exists>tr cb v tr'. hrd_ctrl_blk_init (Some [two_port_dev]) 0 0 (-1) 0 0 0 0 0 n 4096 1 no_init_env [] = (tr, Inr cb)
    \<and> num_dgram_qps cb = n \<and> dgram_made cb = 1
    \<and> vrun no_init_env v0 tr = Some v \<and> qp_in v (DgramQp 0) IBV_QPS_RESET \<and> v_qps v (DgramQp 1) = None
    \<and> hrd_ctrl_blk_destroy cb no_init_env tr = (tr', Inl OutOfBounds)"
proof -
  obtain k where k: "nat n = Suc (Suc k)" using assms(1) by (metis Suc_le_D numeral_2_eq_2 nat_le_iff nat_mono nat_numeral Suc_le_mono)
  have a: "check_init_args 0 (-1) 0 0 0 0 0 n 4096 = Inr ()"
    using assms by (simp add: check_init_args_def M_1024_def bind_res_def check_def)
  have n1: "1 \<le> n" "0 < n" using assms(1) by simp_all
  show ?thesis
    unfolding hrd_ctrl_blk_init_def hrd_ctrl_blk_destroy_def liftv_def a ok_resolve
    using n1 k
    by (simp add: bindv_def needv_def callv_def ret_def failv_def liftv_def dgram_phase_def conn_phase_def
      hrd_create_dgram_qps_def alloc_reg_buf_def memalignv_def check_def no_init_env_def ok_env_def tryv_def
      dgram_create_attr_def v0_def qp_in_def Let_def)
qed

theorem hrd_dgram_init_failure_unnoticed_witness:
  "\<exists>tr cb tr'. hrd_ctrl_blk_init (Some [two_port_dev]) 0 0 (-1) 0 0 0 0 0 3 4096 1 no_init_env [] = (tr, Inr cb)
    \<and> num_dgram_qps cb = 3 \<and> dgram_made cb = 1 \<and> hrd_ctrl_blk_destroy cb no_init_env tr = (tr', Inl OutOfBounds)"
  using hrd_dgram_init_failure_unnoticed [of 3] by (auto simp: M_2_def)

end
