(* ===== verification/Signaling.thy ===== *)
theory Signaling
  imports Hrd
begin

text \<open>
  Selective signaling, as the senders of the benchmarks do it (herd/worker.c, herd/client.c,
  ws-sequencer, ss-sequencer): one work request in \<open>u\<close> is signaled, the first of each group, and
  its completion is polled when the last of the group is prepared. Prepared requests wait in a
  postlist until they are posted. A poll that waits for a completion no posted request will
  give is \<open>Stuck\<close>; the device refuses a post that leaves more than \<open>HRD_Q_DEPTH\<close> requests
  without an acknowledgement. The counters are 64 bits wide in the code and do not overflow.
\<close>

record txq =
  nb_tx :: nat
  posted :: nat
  polled :: nat

definition tx0 :: txq where
  "tx0 = \<lparr>nb_tx = 0, posted = 0, polled = 0\<rparr>"

text \<open>Completions the posted requests give, and requests whose slots polling has freed.\<close>

definition completions :: "nat \<Rightarrow> txq \<Rightarrow> nat" where
  "completions u q = (posted q + u - 1) div u"

definition acked :: "nat \<Rightarrow> txq \<Rightarrow> nat" where
  "acked u q = (if polled q = 0 then 0 else (polled q - 1) * u + 1)"

text \<open>Prepare one work request: whether it is signaled, and the queue afterwards.\<close>

definition tx_prepare :: "nat \<Rightarrow> txq \<Rightarrow> (bool \<times> txq) res" where
  "tx_prepare u q =
     (let sig = (nb_tx q AND (u - 1) = 0) in
      if nb_tx q AND (u - 1) = u - 1
      then bind_res (check (polled q < completions u q) Stuck) (\<lambda>_.
             Inr (sig, q\<lparr>nb_tx := nb_tx q + 1, polled := polled q + 1\<rparr>))
      else Inr (sig, q\<lparr>nb_tx := nb_tx q + 1\<rparr>))"

text \<open>Post everything prepared.\<close>

definition tx_post :: "nat \<Rightarrow> txq \<Rightarrow> txq res" where
  "tx_post u q =
     bind_res (check (nb_tx q - acked u q \<le> HRD_Q_DEPTH) (ExitWith 12)) (\<lambda>_.
     Inr (q\<lparr>posted := nb_tx q\<rparr>))"

subsection \<open>The invariant\<close>

lemma mod_add_range: "-1 \<le> x \<Longrightarrow> x < n \<Longrightarrow> 0 < n \<Longrightarrow> 0 \<le> HRD_MOD_ADD x n \<and> HRD_MOD_ADD x n < n"
  by (auto simp: HRD_MOD_ADD_def Let_def)

text \<open>At most \<open>p\<close> requests are prepared and not posted; every group that is full was polled.\<close>

definition tx_ok :: "nat \<Rightarrow> nat \<Rightarrow> txq \<Rightarrow> bool" where
  "tx_ok u p q \<longleftrightarrow> posted q \<le> nb_tx q \<and> nb_tx q \<le> posted q + p \<and> polled q = nb_tx q div u"

lemma tx_ok_tx0 [simp]: "tx_ok u p tx0"
  by (simp add: tx_ok_def tx0_def)

lemma and_pred_mod: "(n :: nat) AND (2 ^ k - 1) = n mod 2 ^ k"
  unfolding mask_eq_exp_minus_1 [symmetric] take_bit_eq_mask [symmetric] take_bit_eq_mod ..

lemma tx_ok_mono: "tx_ok u p q \<Longrightarrow> p \<le> p' \<Longrightarrow> tx_ok u p' q"
  by (auto simp: tx_ok_def)

lemma last_of_group:
  fixes n u :: nat
  assumes "0 < u" "n mod u = u - 1"
  shows "(n + 1) div u = n div u + 1"
proof -
  have "n + 1 = u * (n div u + 1)" using assms div_mult_mod_eq [of n u] by (simp add: algebra_simps)
  thus ?thesis using assms(1) by (metis nonzero_mult_div_cancel_left not_gr_zero)
qed

lemma inside_group:
  fixes n u :: nat
  assumes "0 < u" "n mod u \<noteq> u - 1"
  shows "(n + 1) div u = n div u"
proof -
  have "n mod u + 1 < u" using assms by (metis Suc_eq_plus1 Suc_lessI diff_Suc_1 mod_less_divisor)
  moreover have n: "n = u * (n div u) + n mod u" by simp
  ultimately have "u * (n div u) \<le> n + 1" "n + 1 < u * Suc (n div u)" unfolding mult_Suc_right by linarith+
  thus ?thesis by (rule div_nat_eqI)
qed

lemma tx_prepare_ok:
  assumes u: "u = 2 ^ k" "p < u" and q: "tx_ok u p q" "nb_tx q < posted q + p"
  shows "tx_prepare u q = Inr (nb_tx q mod u = 0, q\<lparr>nb_tx := nb_tx q + 1, polled := (nb_tx q + 1) div u\<rparr>)"
    and "tx_ok u p (q\<lparr>nb_tx := nb_tx q + 1, polled := (nb_tx q + 1) div u\<rparr>)"
proof -
  let ?n = "nb_tx q"
  have u0: "0 < u" using u(1) by simp
  have m: "?n AND (u - 1) = ?n mod u" unfolding u(1) by (rule and_pred_mod)
  show "tx_ok u p (q\<lparr>nb_tx := ?n + 1, polled := (?n + 1) div u\<rparr>)" using q by (auto simp: tx_ok_def)
  show "tx_prepare u q = Inr (?n mod u = 0, q\<lparr>nb_tx := ?n + 1, polled := (?n + 1) div u\<rparr>)"
  proof (cases "?n mod u = u - 1")
    case True
    have "u * (?n div u) + (u - 1) = ?n" using True div_mult_mod_eq [of ?n u] by (simp add: mult.commute)
    hence "u * (?n div u) + 1 \<le> posted q" using q(2) u(2) by linarith
    hence "u * (?n div u + 1) \<le> posted q + u - 1" using u0 by simp
    hence "?n div u + 1 \<le> (posted q + u - 1) div u" using u0 by (metis div_le_mono nonzero_mult_div_cancel_left not_gr_zero)
    hence "polled q < completions u q" using q(1) by (simp add: completions_def tx_ok_def)
    thus ?thesis using True q(1) last_of_group [OF u0 True] m by (simp add: tx_prepare_def tx_ok_def)
  next
    case False
    have "q\<lparr>nb_tx := ?n + 1, polled := polled q\<rparr> = q\<lparr>nb_tx := ?n + 1\<rparr>" by simp
    thus ?thesis using False q(1) inside_group [OF u0 False] m by (simp add: tx_prepare_def tx_ok_def)
  qed
qed

lemma tx_outstanding:
  assumes "0 < u" "tx_ok u p q"
  shows "nb_tx q - acked u q \<le> 2 * u - 2"
proof (cases "nb_tx q div u = 0")
  case True
  hence "nb_tx q < u" using assms(1) by (simp add: div_eq_0_iff)
  thus ?thesis using assms True by (simp add: acked_def tx_ok_def)
next
  case False
  have "nb_tx q = u * (nb_tx q div u) + nb_tx q mod u" by simp
  moreover have "u * (nb_tx q div u) = (nb_tx q div u - 1) * u + u" using False by (simp add: mult.commute diff_mult_distrib2)
  moreover have "nb_tx q mod u \<le> u - 1" using assms(1) by (simp add: Suc_leI less_Suc_eq_le [symmetric])
  ultimately show ?thesis using assms False by (simp add: acked_def tx_ok_def)
qed

lemma tx_post_ok:
  assumes "0 < u" "2 * u \<le> HRD_Q_DEPTH" "tx_ok u p q"
  shows "tx_post u q = Inr (q\<lparr>posted := nb_tx q\<rparr>)" and "tx_ok u 0 (q\<lparr>posted := nb_tx q\<rparr>)"
proof -
  have "nb_tx q - acked u q \<le> HRD_Q_DEPTH" using tx_outstanding [OF assms(1,3)] assms(2) by linarith
  thus "tx_post u q = Inr (q\<lparr>posted := nb_tx q\<rparr>)" by (simp add: tx_post_def)
  show "tx_ok u 0 (q\<lparr>posted := nb_tx q\<rparr>)" using assms(3) by (simp add: tx_ok_def)
qed

end
