(* ===== verification/Req_Region.thy ===== *)
theory Req_Region
  imports Signaling
begin

text \<open>
  The request region shared by HERD and the ws-sequencer (herd/main.h, worker.c;
  ws-sequencer/main.h, worker.c): each pair of a worker and a client owns a window of
  \<open>WINDOW_SIZE\<close> slots that the client fills with RDMA writes and the worker polls, both round
  robin. The two programs run the same polling loop and differ in the test for a request and in
  the way a request is consumed; these are the arguments \<open>is_req\<close> and \<open>clear\<close>. The locale
  \<open>req_slots\<close> holds what the ring of slots relies on.
\<close>

definition NUM_CLIENTS :: nat where "NUM_CLIENTS = 70"
definition WINDOW_SIZE :: nat where "WINDOW_SIZE = 32"
definition UNSIG_BATCH :: nat where "UNSIG_BATCH = 64"

definition OFFSET :: "nat \<Rightarrow> nat \<Rightarrow> nat \<Rightarrow> nat" where
  "OFFSET wn cn ws = (wn * NUM_CLIENTS * WINDOW_SIZE) + (cn * WINDOW_SIZE) + ws"

subsection \<open>One turn of the polling loop\<close>

text \<open>A work request for a response: the client, the port, the slot of the request, the signal flag.\<close>

record resp_wr =
  wr_clt :: nat
  wr_cb :: nat
  wr_off :: nat
  wr_sig :: bool

text \<open>The variables of the loop; \<open>s_poll\<close> is \<open>poll_i\<close>, at \<open>NUM_CLIENTS\<close> after a break.\<close>

record scan_state =
  s_ws :: "nat \<Rightarrow> int"
  s_clt :: int
  s_cb :: int
  s_qp :: int
  s_poll :: nat
  s_wrs :: "resp_wr list"
  s_tx :: "nat \<Rightarrow> nat \<Rightarrow> txq"

definition scan0 :: "scan_state" where
  "scan0 = \<lparr>s_ws = (\<lambda>_. 0), s_clt = -1, s_cb = -1, s_qp = 0, s_poll = 0, s_wrs = [], s_tx = (\<lambda>_ _. tx0)\<rparr>"

definition poll_turn ::
  "('r \<Rightarrow> bool) \<Rightarrow> ('r \<Rightarrow> 'r) \<Rightarrow> nat \<Rightarrow> int \<Rightarrow> nat \<Rightarrow> (nat \<Rightarrow> 'r) \<Rightarrow> scan_state \<Rightarrow> ((nat \<Rightarrow> 'r) \<times> scan_state) res" where
  "poll_turn is_req clear wn num_server_ports postlist reg s =
     (let clt = HRD_MOD_ADD (s_clt s) (int NUM_CLIENTS);
          cb = HRD_MOD_ADD (s_cb s) num_server_ports;
          off = OFFSET wn (nat clt) (nat (s_ws s (nat clt)));
          s1 = s\<lparr>s_clt := clt, s_cb := cb\<rparr>
      in
      if \<not> is_req (reg off) then Inr (reg, s1\<lparr>s_poll := s_poll s + 1\<rparr>)
      else
        bind_res (tx_prepare UNSIG_BATCH (s_tx s (nat cb) (nat (s_qp s)))) (\<lambda>(sig, q).
        let wrs = s_wrs s @ [\<lparr>wr_clt = nat clt, wr_cb = nat cb, wr_off = off, wr_sig = sig\<rparr>]
        in
        Inr (reg(off := clear (reg off)),
             s1\<lparr>s_tx := (s_tx s)(nat cb := (s_tx s (nat cb))(nat (s_qp s) := q)),
                s_ws := (s_ws s)(nat clt := HRD_MOD_ADD (s_ws s (nat clt)) (int WINDOW_SIZE)),
                s_wrs := wrs,
                s_poll := (if length wrs = postlist then NUM_CLIENTS else s_poll s + 1)\<rparr>)))"

text \<open>Posting the responses: one list for every port that has new requests.\<close>

fun post_ports :: "resp_wr list \<Rightarrow> nat \<Rightarrow> nat list \<Rightarrow> (nat \<Rightarrow> nat \<Rightarrow> txq) \<Rightarrow> (nat \<Rightarrow> nat \<Rightarrow> txq) res" where
  "post_ports wrs qp [] tx = Inr tx"
| "post_ports wrs qp (i # is) tx =
     (if \<not> list_ex (\<lambda>w. wr_cb w = i) wrs then post_ports wrs qp is tx
      else bind_res (tx_post UNSIG_BATCH (tx i qp)) (\<lambda>q.
           post_ports wrs qp is (tx(i := (tx i)(qp := q)))))"

text \<open>
  What a run of such a program shows: client \<open>c\<close> sends a request to worker \<open>w\<close>; worker \<open>w\<close> executes
  a batch of requests of clients.
\<close>

datatype 'q win_event = Sent nat nat 'q | Ran nat "(nat \<times> 'q) list" | Internal

subsection \<open>The ring of slots\<close>

definition slot :: "nat \<Rightarrow> nat \<Rightarrow> nat \<Rightarrow> nat" where
  "slot w c i = OFFSET w c (i mod WINDOW_SIZE)"

text \<open>The window of \<open>w\<close> and \<open>c\<close> holds the queue \<open>q\<close>, oldest first, from slot \<open>h\<close> on.\<close>

definition ring :: "('r \<Rightarrow> bool) \<Rightarrow> (nat \<Rightarrow> 'r) \<Rightarrow> nat \<Rightarrow> nat \<Rightarrow> nat \<Rightarrow> 'r list \<Rightarrow> bool" where
  "ring is_req reg w c h q \<longleftrightarrow> length q \<le> WINDOW_SIZE \<and>
     (\<forall>i<WINDOW_SIZE. if i < length q then is_req (q ! i) \<and> reg (slot w c (h + i)) = q ! i
                      else \<not> is_req (reg (slot w c (h + i))))"

lemma radix_inj:
  fixes a b x y n :: nat
  assumes "a * n + x = b * n + y" "x < n" "y < n"
  shows "a = b \<and> x = y"
proof -
  have "(a * n + x) div n = a" "(a * n + x) mod n = x" "(b * n + y) div n = b" "(b * n + y) mod n = y"
    using assms(2,3) by simp_all
  thus ?thesis using assms(1) by metis
qed

lemma mod_window_inj:
  fixes h i j n :: nat
  assumes "(h + i) mod n = (h + j) mod n" "i < n" "j < n"
  shows "i = j"
proof -
  have *: "i = j" if "(h + i) mod n = (h + j) mod n" "i < n" "j \<le> i" for i j
  proof -
    have "n dvd (h + i) - (h + j)" using that(1,3) by (metis mod_eq_dvd_iff_nat add_le_mono le_refl)
    hence "n dvd i - j" by simp
    thus ?thesis using that(2,3) by (metis dvd_imp_le less_imp_diff_less linorder_not_le zero_less_diff le_neq_implies_less)
  qed
  show ?thesis using * [of i j] * [of j i] assms by (cases "j \<le> i") auto
qed

lemma slot_inj:
  assumes "slot w c i = slot w' c' i'" "c < NUM_CLIENTS" "c' < NUM_CLIENTS"
  shows "w = w' \<and> c = c' \<and> i mod WINDOW_SIZE = i' mod WINDOW_SIZE"
proof -
  have "(w * NUM_CLIENTS + c) * WINDOW_SIZE + i mod WINDOW_SIZE = (w' * NUM_CLIENTS + c') * WINDOW_SIZE + i' mod WINDOW_SIZE"
    using assms(1) by (simp add: slot_def OFFSET_def algebra_simps)
  from radix_inj [OF this] have "w * NUM_CLIENTS + c = w' * NUM_CLIENTS + c'" "i mod WINDOW_SIZE = i' mod WINDOW_SIZE"
    by (simp_all add: WINDOW_SIZE_def)
  thus ?thesis using radix_inj [of w NUM_CLIENTS c w' c'] assms(2,3) by simp
qed

lemma slot_window:
  assumes "slot w c (h + i) = slot w c (h + j)" "i < WINDOW_SIZE" "j < WINDOW_SIZE" "c < NUM_CLIENTS"
  shows "i = j"
proof -
  have "(h + i) mod WINDOW_SIZE = (h + j) mod WINDOW_SIZE" using slot_inj [OF assms(1,4,4)] by simp
  thus ?thesis using mod_window_inj assms(2,3) by blast
qed

lemma ring_frame:
  assumes "(w, c) \<noteq> (w', c')" "c < NUM_CLIENTS" "c' < NUM_CLIENTS"
  shows "ring is_req (reg(slot w' c' k := x)) w c h q = ring is_req reg w c h q"
proof -
  have "slot w c i \<noteq> slot w' c' k" for i using slot_inj [of w c i w' c' k] assms by auto
  thus ?thesis by (simp add: ring_def)
qed

lemma ring_push:
  assumes "ring is_req reg w c h q" "length q < WINDOW_SIZE" "is_req r" "c < NUM_CLIENTS"
  shows "ring is_req (reg(slot w c (h + length q) := r)) w c h (q @ [r])"
proof -
  have "slot w c (h + i) \<noteq> slot w c (h + length q)" if "i < WINDOW_SIZE" "i \<noteq> length q" for i
    using slot_window [of w c h i "length q"] that assms(2,4) by blast
  thus ?thesis using assms(1-3) by (auto simp: ring_def nth_append less_Suc_eq)
qed

lemma ring_pop:
  assumes "ring is_req reg w c h (r # q)" "\<not> is_req r'" "c < NUM_CLIENTS"
  shows "ring is_req (reg(slot w c h := r')) w c (h + 1) q"
proof -
  have r: "length q < WINDOW_SIZE" using assms(1) by (simp add: ring_def)
  have s: "if i < length q then is_req (q ! i) \<and> (reg(slot w c h := r')) (slot w c (h + 1 + i)) = q ! i
      else \<not> is_req ((reg(slot w c h := r')) (slot w c (h + 1 + i)))" if i: "i < WINDOW_SIZE" for i
  proof (cases "i + 1 < WINDOW_SIZE")
    case True
    have "slot w c (h + (i + 1)) \<noteq> slot w c (h + 0)"
      using slot_window [of w c h "i + 1" 0] True assms(3) by force
    moreover have "if i + 1 < length (r # q) then is_req ((r # q) ! (i + 1)) \<and> reg (slot w c (h + (i + 1))) = (r # q) ! (i + 1)
        else \<not> is_req (reg (slot w c (h + (i + 1))))"
      using assms(1) True unfolding ring_def by blast
    ultimately show ?thesis by (auto split: if_splits)
  next
    case False
    hence "i + 1 = WINDOW_SIZE" using i by simp
    hence "h + 1 + i = h + WINDOW_SIZE" by simp
    hence "slot w c (h + 1 + i) = slot w c h" unfolding slot_def by (simp only: mod_add_self2)
    thus ?thesis using r assms(2) \<open>i + 1 = WINDOW_SIZE\<close> by simp
  qed
  show ?thesis unfolding ring_def
  proof (intro conjI allI impI)
    show "length q \<le> WINDOW_SIZE" using r by simp
  qed (rule s)
qed

text \<open>What polling relies on: a request is recognised until it is consumed, and not afterwards.\<close>

locale req_slots =
  fixes is_req :: "'r \<Rightarrow> bool" and clear :: "'r \<Rightarrow> 'r" and valid :: "'r \<Rightarrow> bool"
  assumes clear_consumes: "valid r \<Longrightarrow> \<not> is_req (clear r)"
begin

text \<open>Polling an empty window finds nothing; polling another one takes its oldest request.\<close>

lemma poll_empty:
  assumes "ring is_req reg w c h []"
  shows "\<not> is_req (reg (slot w c h))"
proof -
  have "0 < WINDOW_SIZE" by (simp add: WINDOW_SIZE_def)
  thus ?thesis using assms by (auto simp: ring_def)
qed

lemma poll_oldest:
  assumes "ring is_req reg w c h (r # q)"
  shows "is_req (reg (slot w c h)) \<and> reg (slot w c h) = r"
proof -
  have "0 < WINDOW_SIZE" by (simp add: WINDOW_SIZE_def)
  hence "if 0 < length (r # q) then is_req ((r # q) ! 0) \<and> reg (slot w c (h + 0)) = (r # q) ! 0
      else \<not> is_req (reg (slot w c (h + 0)))"
    using assms unfolding ring_def by blast
  thus ?thesis by simp
qed

lemma poll_window:
  assumes "ring is_req reg w c h q" "c < NUM_CLIENTS" "\<forall>r\<in>set q. valid r"
  shows "if is_req (reg (slot w c h))
    then \<exists>r q'. q = r # q' \<and> reg (slot w c h) = r \<and> ring is_req (reg(slot w c h := clear r)) w c (h + 1) q'
    else q = []"
proof (cases q)
  case Nil
  thus ?thesis using poll_empty assms(1) by simp
next
  case (Cons r q')
  hence n: "\<not> is_req (clear r)" using assms(3) clear_consumes by simp
  note p = ring_pop [OF assms(1) [unfolded Cons] n assms(2)]
  have o: "is_req (reg (slot w c h))" "reg (slot w c h) = r" using poll_oldest [OF assms(1) [unfolded Cons]] by auto
  show ?thesis unfolding if_P [OF o(1)] using Cons o(2) p by blast
qed

end

subsection \<open>The polling loop and selective signaling\<close>

text \<open>
  The invariant of the loop variables for \<open>nports\<close> ports: the prepared responses of each port are
  those of the current batch, which is shorter than the postlist while polling goes on.
\<close>

definition wk_ok :: "int \<Rightarrow> nat \<Rightarrow> scan_state \<Rightarrow> bool" where
  "wk_ok nports postlist s \<longleftrightarrow> -1 \<le> s_clt s \<and> s_clt s < int NUM_CLIENTS \<and> -1 \<le> s_cb s \<and> s_cb s < nports
     \<and> length (s_wrs s) \<le> postlist \<and> (s_poll s < NUM_CLIENTS \<longrightarrow> length (s_wrs s) < postlist)
     \<and> (\<forall>x\<in>set (s_wrs s). wr_clt x < NUM_CLIENTS \<and> wr_cb x < nat nports)
     \<and> (\<forall>cb<nat nports. tx_ok UNSIG_BATCH (length (filter (\<lambda>x. wr_cb x = cb) (s_wrs s))) (s_tx s cb (nat (s_qp s))))
     \<and> (\<forall>cb<nat nports. \<forall>qp. qp \<noteq> nat (s_qp s) \<longrightarrow> tx_ok UNSIG_BATCH 0 (s_tx s cb qp))"

lemma unsig_batch: "UNSIG_BATCH = 2 ^ 6" "0 < UNSIG_BATCH" "2 * UNSIG_BATCH \<le> HRD_Q_DEPTH"
  by (simp_all add: UNSIG_BATCH_def HRD_Q_DEPTH_def)

text \<open>After the batch is posted, the loop starts over with any queue pair.\<close>

lemma wk_ok_restart:
  assumes "wk_ok nports postlist s" "0 < postlist" "\<forall>cb<nat nports. tx_ok UNSIG_BATCH 0 (tx cb (nat (s_qp s)))"
    and "\<And>cb qp. qp \<noteq> nat (s_qp s) \<Longrightarrow> tx cb qp = s_tx s cb qp"
  shows "wk_ok nports postlist (s\<lparr>s_tx := tx, s_wrs := [], s_poll := 0, s_qp := qp'\<rparr>)"
proof -
  have "tx_ok UNSIG_BATCH 0 (tx cb qp)" if "cb < nat nports" for cb qp
    using assms that by (cases "qp = nat (s_qp s)") (auto simp: wk_ok_def)
  thus ?thesis using assms(1,2) by (simp add: wk_ok_def)
qed

lemma wk_ok_scan0: "0 < nports \<Longrightarrow> 0 < postlist \<Longrightarrow> wk_ok nports postlist scan0"
  by (simp add: wk_ok_def scan0_def NUM_CLIENTS_def)

text \<open>A turn of polling always ends; with a request it consumes it and adds one response.\<close>

lemma poll_turn_ok:
  fixes w :: nat
  assumes ok: "wk_ok nports postlist s" and go: "s_poll s < NUM_CLIENTS" and p: "postlist < UNSIG_BATCH" and np: "0 < nports"
  defines "clt \<equiv> nat (HRD_MOD_ADD (s_clt s) (int NUM_CLIENTS))"
  defines "off \<equiv> OFFSET w clt (nat (s_ws s clt))"
  shows "clt < NUM_CLIENTS"
    and "\<exists>reg' s'. poll_turn is_req clear w nports postlist reg s = Inr (reg', s') \<and> wk_ok nports postlist s'
      \<and> (if is_req (reg off)
         then reg' = reg(off := clear (reg off)) \<and> s_ws s' = (s_ws s)(clt := HRD_MOD_ADD (s_ws s clt) (int WINDOW_SIZE))
           \<and> (\<exists>x. s_wrs s' = s_wrs s @ [x] \<and> wr_clt x = clt \<and> wr_off x = off)
         else reg' = reg \<and> s_ws s' = s_ws s \<and> s_wrs s' = s_wrs s)"
proof -
  let ?clt = "HRD_MOD_ADD (s_clt s) (int NUM_CLIENTS)" and ?cb = "HRD_MOD_ADD (s_cb s) nports"
  have clt: "0 \<le> ?clt" "?clt < int NUM_CLIENTS"
    using mod_add_range [of "s_clt s" "int NUM_CLIENTS"] ok by (simp_all add: wk_ok_def NUM_CLIENTS_def)
  have cb: "0 \<le> ?cb" "?cb < nports" using mod_add_range [of "s_cb s" nports] ok np by (simp_all add: wk_ok_def)
  show c: "clt < NUM_CLIENTS" using clt by (simp add: clt_def)
  show "\<exists>reg' s'. poll_turn is_req clear w nports postlist reg s = Inr (reg', s') \<and> wk_ok nports postlist s'
      \<and> (if is_req (reg off)
         then reg' = reg(off := clear (reg off)) \<and> s_ws s' = (s_ws s)(clt := HRD_MOD_ADD (s_ws s clt) (int WINDOW_SIZE))
           \<and> (\<exists>x. s_wrs s' = s_wrs s @ [x] \<and> wr_clt x = clt \<and> wr_off x = off)
         else reg' = reg \<and> s_ws s' = s_ws s \<and> s_wrs s' = s_wrs s)"
  proof (cases "is_req (reg off)")
    case False
    thus ?thesis
      using ok go clt cb unfolding poll_turn_def Let_def clt_def [symmetric] off_def [symmetric] by (simp add: wk_ok_def)
  next
    case True
    define q k where "q = s_tx s (nat ?cb) (nat (s_qp s))" and "k = length (filter (\<lambda>x. wr_cb x = nat ?cb) (s_wrs s))"
    have len: "length (s_wrs s) < postlist" using ok go by (simp add: wk_ok_def)
    have "tx_ok UNSIG_BATCH k q" using ok cb by (simp add: wk_ok_def q_def k_def)
    moreover have "k \<le> length (s_wrs s)" by (simp add: k_def)
    ultimately have q: "tx_ok UNSIG_BATCH (k + 1) q" "nb_tx q < posted q + (k + 1)" "k + 1 < UNSIG_BATCH"
      using len p by (auto simp: tx_ok_def)
    let ?q = "q\<lparr>nb_tx := nb_tx q + 1, polled := (nb_tx q + 1) div UNSIG_BATCH\<rparr>"
    note prep = tx_prepare_ok [OF unsig_batch(1) q(3,1,2)]
    let ?x = "\<lparr>wr_clt = clt, wr_cb = nat ?cb, wr_off = off, wr_sig = (nb_tx q mod UNSIG_BATCH = 0)\<rparr>"
    let ?s = "s\<lparr>s_clt := ?clt, s_cb := ?cb, s_tx := (s_tx s)(nat ?cb := (s_tx s (nat ?cb))(nat (s_qp s) := ?q)),
        s_ws := (s_ws s)(clt := HRD_MOD_ADD (s_ws s clt) (int WINDOW_SIZE)), s_wrs := s_wrs s @ [?x],
        s_poll := (if length (s_wrs s @ [?x]) = postlist then NUM_CLIENTS else s_poll s + 1)\<rparr>"
    have "poll_turn is_req clear w nports postlist reg s = Inr (reg(off := clear (reg off)), ?s)"
      using True prep(1) unfolding poll_turn_def Let_def clt_def [symmetric] off_def [symmetric] q_def by simp
    moreover have "wk_ok nports postlist ?s"
      using ok clt cb c len prep(2) by (auto simp: wk_ok_def k_def)
    ultimately show ?thesis using True by auto
  qed
qed

text \<open>Posting the batch always succeeds and leaves nothing prepared.\<close>

lemma post_ports_ok:
  assumes "distinct is" "\<And>i. i \<in> set is \<Longrightarrow> tx_ok UNSIG_BATCH (length (filter (\<lambda>x. wr_cb x = i) wrs)) (tx i qp)"
  shows "\<exists>tx'. post_ports wrs qp is tx = Inr tx' \<and> (\<forall>i\<in>set is. tx_ok UNSIG_BATCH 0 (tx' i qp))
    \<and> (\<forall>i. i \<notin> set is \<longrightarrow> tx' i = tx i) \<and> (\<forall>i qp'. qp' \<noteq> qp \<longrightarrow> tx' i qp' = tx i qp')"
  using assms
proof (induction "is" arbitrary: tx)
  case (Cons i "is")
  show ?case
  proof (cases "list_ex (\<lambda>x. wr_cb x = i) wrs")
    case False
    hence e: "filter (\<lambda>x. wr_cb x = i) wrs = []" by (auto simp: list_ex_iff filter_empty_conv)
    obtain tx' where t: "post_ports wrs qp is tx = Inr tx'" "\<forall>i\<in>set is. tx_ok UNSIG_BATCH 0 (tx' i qp)"
      "\<forall>i. i \<notin> set is \<longrightarrow> tx' i = tx i" "\<forall>i qp'. qp' \<noteq> qp \<longrightarrow> tx' i qp' = tx i qp'"
      using Cons.IH [of tx] Cons.prems by auto
    have "tx_ok UNSIG_BATCH 0 (tx' i qp)" using t(3) Cons.prems(1) Cons.prems(2) [of i] e by simp
    thus ?thesis using False t by auto
  next
    case True
    note post = tx_post_ok [OF unsig_batch(2,3) Cons.prems(2) [of i]]
    let ?q = "(tx i qp)\<lparr>posted := nb_tx (tx i qp)\<rparr>"
    let ?tx = "tx(i := (tx i)(qp := ?q))"
    have o: "distinct is" "\<And>j. j \<in> set is \<Longrightarrow> tx_ok UNSIG_BATCH (length (filter (\<lambda>x. wr_cb x = j) wrs)) (?tx j qp)"
      using Cons.prems by auto
    obtain tx' where t: "post_ports wrs qp is ?tx = Inr tx'" "\<forall>i\<in>set is. tx_ok UNSIG_BATCH 0 (tx' i qp)"
      "\<forall>i. i \<notin> set is \<longrightarrow> tx' i = ?tx i" "\<forall>i qp'. qp' \<noteq> qp \<longrightarrow> tx' i qp' = ?tx i qp'"
      using Cons.IH [of ?tx] o by blast
    have "tx_ok UNSIG_BATCH 0 (tx' i qp)" using t(3) Cons.prems(1) post(2) by simp
    thus ?thesis using True t post(1) by auto
  qed
qed simp

text \<open>Posting a batch succeeds, whatever the batch.\<close>

lemma worker_post:
  assumes "wk_ok nports postlist s" "0 < postlist"
  shows "\<exists>tx. post_ports (s_wrs s) (nat (s_qp s)) [0..<nat nports] (s_tx s) = Inr tx
    \<and> wk_ok nports postlist (s\<lparr>s_tx := tx, s_wrs := [], s_poll := 0, s_qp := qp'\<rparr>)"
proof -
  have "tx_ok UNSIG_BATCH (length (filter (\<lambda>x. wr_cb x = i) (s_wrs s))) (s_tx s i (nat (s_qp s)))"
    if "i \<in> set [0..<nat nports]" for i using assms(1) that by (simp add: wk_ok_def)
  from post_ports_ok [where tx = "s_tx s" and qp = "nat (s_qp s)" and wrs = "s_wrs s", OF distinct_upt this] obtain tx where tx: "post_ports (s_wrs s) (nat (s_qp s)) [0..<nat nports] (s_tx s) = Inr tx"
    "\<forall>i\<in>set [0..<nat nports]. tx_ok UNSIG_BATCH 0 (tx i (nat (s_qp s)))"
    "\<forall>i qp'. qp' \<noteq> nat (s_qp s) \<longrightarrow> tx i qp' = s_tx s i qp'" by blast
  have "wk_ok nports postlist (s\<lparr>s_tx := tx, s_wrs := [], s_poll := 0, s_qp := qp'\<rparr>)"
    by (rule wk_ok_restart [OF assms]) (use tx in auto)
  thus ?thesis using tx(1) by blast
qed

end
