(* ===== verification/Herd.thy ===== *)
theory Herd
  imports Req_Region Mica
begin

text \<open>
  The HERD key-value store (herd/main.h, client.c, worker.c, main.c): clients write requests into
  the request region with RDMA writes, workers poll the region, run batches of requests on their
  MICA instance and answer over datagrams. A worker and a client are the bodies of their infinite
  loops as step functions on the loop variables; throughput counters and printing are left out.
\<close>

subsection \<open>Constants and requests\<close>

definition HERD_MICA_OFFSET :: u8 where "HERD_MICA_OFFSET = 10"
definition HERD_OP_GET :: u8 where "HERD_OP_GET = MICA_OP_GET + HERD_MICA_OFFSET"
definition HERD_OP_PUT :: u8 where "HERD_OP_PUT = MICA_OP_PUT + HERD_MICA_OFFSET"
definition HERD_NUM_BKTS :: int where "HERD_NUM_BKTS = 2 * 1024 * 1024"
definition HERD_LOG_CAP :: int where "HERD_LOG_CAP = 1024 * 1024 * 1024"
definition HERD_NUM_KEYS :: nat where "HERD_NUM_KEYS = 8 * 1024 * 1024"
definition HERD_VALUE_SIZE :: nat where "HERD_VALUE_SIZE = 32"
definition MAX_SERVER_PORTS :: int where "MAX_SERVER_PORTS = 4"
definition NUM_WORKERS :: nat where "NUM_WORKERS = 12"
definition NUM_UD_QPS :: int where "NUM_UD_QPS = 1"
definition MASTER_SHM_KEY :: int where "MASTER_SHM_KEY = 24"
definition RR_SIZE :: int where "RR_SIZE = 16 * 1024 * 1024"
definition sizeof_mica_op :: nat where "sizeof_mica_op = 64"

datatype herd_req = HGet mica_key | HPut mica_key "u8 list"

text \<open>
  The RDMA write of a request into a slot. A GET is \<open>HERD_GET_REQ_SIZE\<close> bytes, the key and the
  opcode, so the length and value bytes of the slot stay; a PUT is \<open>HERD_PUT_REQ_SIZE\<close> bytes.
\<close>

fun write_req :: "herd_req \<Rightarrow> mica_op \<Rightarrow> mica_op" where
  "write_req (HGet k) old = old\<lparr>op_key := k, opcode := HERD_OP_GET\<rparr>"
| "write_req (HPut k v) old =
     old\<lparr>op_key := k, opcode := HERD_OP_PUT, val_len := of_nat HERD_VALUE_SIZE,
         op_value := take HERD_VALUE_SIZE v @ drop HERD_VALUE_SIZE (op_value old)\<rparr>"

text \<open>The polling test and the conversion to a MICA opcode.\<close>

definition herd_is_req :: "mica_op \<Rightarrow> bool" where
  "herd_is_req op \<longleftrightarrow> \<not> opcode op < HERD_OP_GET"

definition herd_clear :: "mica_op \<Rightarrow> mica_op" where
  "herd_clear op = op\<lparr>opcode := opcode op - HERD_MICA_OFFSET\<rparr>"

subsection \<open>The start of a process\<close>

text \<open>The parsed options and what a thread gets.\<close>

record herd_args =
  a_is_master :: int
  a_num_threads :: int
  a_is_client :: int
  a_machine_id :: int
  a_postlist :: int
  a_update_percentage :: int
  a_base_port_index :: int
  a_num_server_ports :: int
  a_num_client_ports :: int

record thread_params =
  tp_id :: int
  tp_base_port_index :: int
  tp_num_server_ports :: int
  tp_num_client_ports :: int
  tp_update_percentage :: int
  tp_postlist :: int

datatype herd_process = Master thread_params | Clients "thread_params list" | Workers "thread_params list"

text \<open>The assertions at the start of \<open>main\<close>.\<close>

definition herd_static_checks :: "unit res" where
  "herd_static_checks =
     bind_res (check (HRD_Q_DEPTH = 128) AssertFail) (\<lambda>_.
     bind_res (check (int (sizeof_mica_op * NUM_CLIENTS * NUM_WORKERS * WINDOW_SIZE) < RR_SIZE) AssertFail) (\<lambda>_.
     bind_res (check (UNSIG_BATCH \<ge> WINDOW_SIZE) AssertFail) (\<lambda>_.
     check (HRD_Q_DEPTH \<ge> 2 * UNSIG_BATCH) AssertFail)))"

text \<open>
  The rest of \<open>main\<close> after parsing: the checks and the parameters of the threads it starts. Fields
  it does not set (\<open>garbage\<close>) hold what malloc or the stack left there.
\<close>

definition herd_main :: "thread_params \<Rightarrow> herd_args \<Rightarrow> herd_process res" where
  "herd_main garbage a =
     bind_res herd_static_checks (\<lambda>_.
     bind_res (check (a_is_master a = -1 \<or> a_is_master a = 1) AssertFail) (\<lambda>_.
     bind_res (check (a_base_port_index a \<ge> 0 \<and> a_base_port_index a \<le> 8) AssertFail) (\<lambda>_.
     bind_res (check (a_num_server_ports a \<ge> 1 \<and> a_num_server_ports a \<le> 8) AssertFail) (\<lambda>_.
     let g = garbage\<lparr>tp_base_port_index := a_base_port_index a, tp_num_server_ports := a_num_server_ports a\<rparr> in
     if a_is_master a = 1 then Inr (Master g)
     else
       bind_res (check (a_is_client a = 0 \<or> a_is_client a = 1) AssertFail) (\<lambda>_.
       let p = g\<lparr>tp_num_client_ports := a_num_client_ports a, tp_postlist := a_postlist a\<rparr> in
       if a_is_client a = 1 then
         bind_res (check (a_num_client_ports a \<ge> 1 \<and> a_num_client_ports a \<le> 8) AssertFail) (\<lambda>_.
         bind_res (check (a_num_threads a \<ge> 1) AssertFail) (\<lambda>_.
         bind_res (check (a_machine_id a \<ge> 0) AssertFail) (\<lambda>_.
         bind_res (check (a_update_percentage a \<ge> 0 \<and> a_update_percentage a \<le> 100) AssertFail) (\<lambda>_.
         bind_res (check (a_postlist a = -1) AssertFail) (\<lambda>_.
         Inr (Clients (map (\<lambda>i. p\<lparr>tp_id := a_machine_id a * a_num_threads a + int i,
                                   tp_update_percentage := a_update_percentage a\<rparr>) [0..<nat (a_num_threads a)])))))))
       else
         bind_res (check (a_num_threads a = -1) AssertFail) (\<lambda>_.
         bind_res (check (a_machine_id a = -1) AssertFail) (\<lambda>_.
         bind_res (check (a_update_percentage a = -1) AssertFail) (\<lambda>_.
         bind_res (check (a_postlist a \<ge> 1) AssertFail) (\<lambda>_.
         Inr (Workers (map (\<lambda>i. p\<lparr>tp_id := int i\<rparr>) [0..<NUM_WORKERS])))))))))))"

subsection \<open>The client\<close>

fun skip_rand :: "nat \<Rightarrow> u64 \<Rightarrow> u64" where
  "skip_rand 0 seed = seed"
| "skip_rand (Suc n) seed = skip_rand n (snd (hrd_fastrand seed))"

text \<open>The shuffle from index \<open>i\<close> down to 1.\<close>

fun shuffle :: "nat \<Rightarrow> int list \<Rightarrow> u64 \<Rightarrow> int list \<times> u64" where
  "shuffle 0 log seed = (log, seed)"
| "shuffle (Suc i) log seed =
     (let (r, seed) = hrd_fastrand seed;
          j = unat r mod (Suc i + 1);
          temp = log ! Suc i;
          log = log[Suc i := log ! j];
          log = log[j := temp]
      in shuffle i log seed)"

definition get_random_permutation :: "int \<Rightarrow> nat \<Rightarrow> u64 \<Rightarrow> (int list \<times> u64) res" where
  "get_random_permutation n clt_gid seed =
     bind_res (check (n > 0) AssertFail) (\<lambda>_.
     let seed = skip_rand (clt_gid * HERD_NUM_KEYS) seed
     in Inr (shuffle (nat n - 1) (map int [0..<nat n]) seed))"

text \<open>
  The loop variables of a client. \<open>nb_tx\<close> is in \<open>c_tx\<close>; \<open>c_filled\<close> says that the RECVs of this turn
  are posted and the responses are awaited; \<open>c_val\<close> is the value field of the request buffer.
\<close>

record herd_client =
  c_tx :: txq
  c_ws :: "nat \<Rightarrow> int"
  c_seed :: u64
  key_arr :: "int list"
  c_val :: "u8 list"
  recvs :: nat
  c_filled :: bool

text \<open>Is this a turn that re-fills RECVs and polls for responses?\<close>

definition refill_turn :: "herd_client \<Rightarrow> bool" where
  "refill_turn cl \<longleftrightarrow> nb_tx (c_tx cl) mod WINDOW_SIZE = 0 \<and> nb_tx (c_tx cl) > 0"

definition client_refill :: "herd_client \<Rightarrow> herd_client" where
  "client_refill cl = cl\<lparr>recvs := recvs cl + WINDOW_SIZE, c_filled := True\<rparr>"

text \<open>
  The rest of a turn, with \<open>avail\<close> responses in the RECV completion queue: the client afterwards,
  the responses left, the worker and window slot of the request and the request. Before this,
  the turn waits until there are \<open>WINDOW_SIZE\<close> responses when it is a refill turn.
\<close>

definition client_send :: "nat \<Rightarrow> nat \<Rightarrow> herd_client \<Rightarrow> (herd_client \<times> nat \<times> nat \<times> nat \<times> herd_req) res" where
  "client_send update_percentage avail cl =
     (let avail = (if refill_turn cl then avail - WINDOW_SIZE else avail);
          (r, seed) = hrd_fastrand (c_seed cl);
          wn = unat r mod NUM_WORKERS;
          (r, seed) = hrd_fastrand seed;
          is_update = (unat r mod 100 < update_percentage);
          (r, seed) = hrd_fastrand seed;
          key_i = unat r mod HERD_NUM_KEYS
      in
      bind_res (check (key_i < length (key_arr cl)) OutOfBounds) (\<lambda>_.
      bind_res (CityHash128 (le_bytes 4 (word_of_int (key_arr cl ! key_i) :: u32))) (\<lambda>h.
      let k = key_of_u128 h;
          req = (if is_update then HPut k (take HERD_VALUE_SIZE (c_val cl)) else HGet k)
      in
      bind_res (tx_prepare UNSIG_BATCH (c_tx cl)) (\<lambda>(sig, q).
      bind_res (tx_post UNSIG_BATCH q) (\<lambda>q.
      Inr (cl\<lparr>c_tx := q, c_seed := seed, c_filled := False,
              c_ws := (c_ws cl)(wn := HRD_MOD_ADD (c_ws cl wn) (int WINDOW_SIZE))\<rparr>,
           avail, wn, nat (c_ws cl wn), req))))))"

subsection \<open>The worker\<close>

record herd_worker =
  w_scan :: scan_state
  w_kv :: mica_kv

text \<open>
  The start of \<open>run_worker\<close>: the checks, the MICA instance and its population. Control blocks and
  address handles are those of libhrd and of the verbs.
\<close>

definition herd_worker_init ::
  "(int \<Rightarrow> int \<Rightarrow> int \<Rightarrow> (nat \<Rightarrow> mica_bkt) res) \<Rightarrow> (int \<Rightarrow> int \<Rightarrow> int \<Rightarrow> store res) \<Rightarrow> int \<Rightarrow> int \<Rightarrow> int \<Rightarrow> herd_worker res" where
  "herd_worker_init malloc_index malloc_log wrkr_lid num_server_ports postlist =
     bind_res (check (int MICA_MAX_BATCH_SIZE \<ge> postlist) AssertFail) (\<lambda>_.
     bind_res (check (HERD_VALUE_SIZE \<le> MICA_MAX_VALUE) AssertFail) (\<lambda>_.
     bind_res (check (int UNSIG_BATCH \<ge> postlist) AssertFail) (\<lambda>_.
     bind_res (check (postlist \<le> int NUM_CLIENTS) AssertFail) (\<lambda>_.
     bind_res (mica_init malloc_index malloc_log wrkr_lid 0 HERD_NUM_BKTS HERD_LOG_CAP) (\<lambda>kv.
     bind_res (mica_populate_fixed_len kv (int HERD_NUM_KEYS) (int HERD_VALUE_SIZE)) (\<lambda>kv.
     bind_res (check (num_server_ports < MAX_SERVER_PORTS) AssertFail) (\<lambda>_.
     bind_res (check (num_server_ports \<noteq> 0) DivByZero) (\<lambda>_.
     bind_res (check (int NUM_CLIENTS mod num_server_ports = 0) AssertFail) (\<lambda>_.
     Inr \<lparr>w_scan = scan0, w_kv = kv\<rparr>)))))))))"

text \<open>
  The loop of \<open>run_worker\<close> in steps: a turn of the polling loop, or, when polling is over, the
  batch on MICA and the posting of the responses, which are returned with their clients. MICA
  gets pointers into the request region (\<open>op_ptr_arr\<close>), so it reads the slots when the batch runs.
\<close>

definition worker_poll :: "nat \<Rightarrow> int \<Rightarrow> nat \<Rightarrow> (nat \<Rightarrow> mica_op) \<Rightarrow> herd_worker \<Rightarrow> ((nat \<Rightarrow> mica_op) \<times> herd_worker) res" where
  "worker_poll wn num_server_ports postlist reg wk =
     bind_res (poll_turn herd_is_req herd_clear wn num_server_ports postlist reg (w_scan wk)) (\<lambda>(reg, s).
     Inr (reg, wk\<lparr>w_scan := s\<rparr>))"

definition worker_finish :: "int \<Rightarrow> (nat \<Rightarrow> mica_op) \<Rightarrow> herd_worker \<Rightarrow> (herd_worker \<times> (nat \<times> mica_resp) list) res" where
  "worker_finish num_server_ports reg wk =
     (let s = w_scan wk; wrs = s_wrs s in
      bind_res (mica_batch_op (w_kv wk) (map (\<lambda>x. reg (wr_off x)) wrs)) (\<lambda>(kv, resp_arr).
      bind_res (post_ports wrs (nat (s_qp s)) [0..<nat num_server_ports] (s_tx s)) (\<lambda>tx.
      Inr (wk\<lparr>w_kv := kv,
              w_scan := s\<lparr>s_tx := tx, s_wrs := [], s_poll := 0, s_qp := HRD_MOD_ADD (s_qp s) NUM_UD_QPS\<rparr>\<rparr>,
           zip (map wr_clt wrs) resp_arr))))"

subsection \<open>The system\<close>

text \<open>
  All threads together. RDMA writes of a client are delivered in the order of the connected
  transport (\<open>snet\<close>: worker, window slot, request); responses travel as datagrams (\<open>sresp\<close> in
  flight, \<open>savail\<close> received, \<open>slost\<close> arrived without a posted RECV).
\<close>

record herd_sys =
  sreg :: "nat \<Rightarrow> mica_op"
  sworkers :: "nat \<Rightarrow> herd_worker"
  sclients :: "nat \<Rightarrow> herd_client"
  snet :: "nat \<Rightarrow> (nat \<times> nat \<times> herd_req) list"
  sresp :: "nat \<Rightarrow> nat"
  savail :: "nat \<Rightarrow> nat"
  slost :: "nat \<Rightarrow> nat"

text \<open>The request MICA finds in a slot.\<close>

definition req_of :: "mica_op \<Rightarrow> herd_req" where
  "req_of op = (if opcode op = MICA_OP_PUT then HPut (op_key op) (take (unat (val_len op)) (op_value op))
                else HGet (op_key op))"

definition herd_init :: "herd_sys \<Rightarrow> bool" where
  "herd_init s \<longleftrightarrow> (\<forall>i. opcode (sreg s i) = 0 \<and> length (op_value (sreg s i)) = MICA_MAX_VALUE)
     \<and> (\<forall>w. w_scan (sworkers s w) = scan0)
     \<and> (\<forall>c. c_tx (sclients s c) = tx0 \<and> c_ws (sclients s c) = (\<lambda>_. 0) \<and> recvs (sclients s c) = WINDOW_SIZE
          \<and> \<not> c_filled (sclients s c) \<and> length (key_arr (sclients s c)) = HERD_NUM_KEYS
          \<and> length (c_val (sclients s c)) = MICA_MAX_VALUE)
     \<and> snet s = (\<lambda>_. []) \<and> sresp s = (\<lambda>_. 0) \<and> savail s = (\<lambda>_. 0) \<and> slost s = (\<lambda>_. 0)"

definition add_resps :: "(nat \<times> mica_resp) list \<Rightarrow> (nat \<Rightarrow> nat) \<Rightarrow> nat \<Rightarrow> nat" where
  "add_resps out resp c = resp c + length (filter (\<lambda>(c', r). c' = c) out)"

inductive herd_run :: "int \<Rightarrow> nat \<Rightarrow> nat \<Rightarrow> herd_req win_event list \<Rightarrow> herd_sys \<Rightarrow> bool"
  for num_server_ports :: int and postlist :: nat and update_percentage :: nat where
  init: "herd_init s \<Longrightarrow> herd_run num_server_ports postlist update_percentage [] s"
| refill: "herd_run num_server_ports postlist update_percentage tr s \<Longrightarrow> c < NUM_CLIENTS \<Longrightarrow>
    refill_turn (sclients s c) \<Longrightarrow> \<not> c_filled (sclients s c) \<Longrightarrow>
    herd_run num_server_ports postlist update_percentage (tr @ [Internal])
      (s\<lparr>sclients := (sclients s)(c := client_refill (sclients s c))\<rparr>)"
| send: "herd_run num_server_ports postlist update_percentage tr s \<Longrightarrow> c < NUM_CLIENTS \<Longrightarrow>
    refill_turn (sclients s c) \<longrightarrow> c_filled (sclients s c) \<and> WINDOW_SIZE \<le> savail s c \<Longrightarrow>
    client_send update_percentage (savail s c) (sclients s c) = Inr (cl, avail, wn, ws, r) \<Longrightarrow>
    herd_run num_server_ports postlist update_percentage (tr @ [Sent c wn r])
      (s\<lparr>sclients := (sclients s)(c := cl), savail := (savail s)(c := avail),
         snet := (snet s)(c := snet s c @ [(wn, ws, r)])\<rparr>)"
| deliver: "herd_run num_server_ports postlist update_percentage tr s \<Longrightarrow> c < NUM_CLIENTS \<Longrightarrow>
    snet s c = (wn, ws, r) # rest \<Longrightarrow>
    herd_run num_server_ports postlist update_percentage (tr @ [Internal])
      (s\<lparr>sreg := (sreg s)(OFFSET wn c ws := write_req r (sreg s (OFFSET wn c ws))), snet := (snet s)(c := rest)\<rparr>)"
| poll: "herd_run num_server_ports postlist update_percentage tr s \<Longrightarrow> w < NUM_WORKERS \<Longrightarrow>
    s_poll (w_scan (sworkers s w)) < NUM_CLIENTS \<Longrightarrow>
    worker_poll w num_server_ports postlist (sreg s) (sworkers s w) = Inr (reg, wk) \<Longrightarrow>
    herd_run num_server_ports postlist update_percentage (tr @ [Internal])
      (s\<lparr>sreg := reg, sworkers := (sworkers s)(w := wk)\<rparr>)"
| finish: "herd_run num_server_ports postlist update_percentage tr s \<Longrightarrow> w < NUM_WORKERS \<Longrightarrow>
    s_poll (w_scan (sworkers s w)) \<ge> NUM_CLIENTS \<Longrightarrow>
    worker_finish num_server_ports (sreg s) (sworkers s w) = Inr (wk, out) \<Longrightarrow>
    herd_run num_server_ports postlist update_percentage
      (tr @ [Ran w (map (\<lambda>x. (wr_clt x, req_of (sreg s (wr_off x)))) (s_wrs (w_scan (sworkers s w))))])
      (s\<lparr>sworkers := (sworkers s)(w := wk), sresp := add_resps out (sresp s)\<rparr>)"
| respond: "herd_run num_server_ports postlist update_percentage tr s \<Longrightarrow> c < NUM_CLIENTS \<Longrightarrow> sresp s c = Suc n \<Longrightarrow>
    s' = (if recvs (sclients s c) > 0
          then s\<lparr>sclients := (sclients s)(c := (sclients s c)\<lparr>recvs := recvs (sclients s c) - 1\<rparr>),
                 savail := (savail s)(c := savail s c + 1), sresp := (sresp s)(c := n)\<rparr>
          else s\<lparr>slost := (slost s)(c := slost s c + 1), sresp := (sresp s)(c := n)\<rparr>) \<Longrightarrow>
    herd_run num_server_ports postlist update_percentage (tr @ [Internal]) s'"

end
