(* ===== verification/Window_Spec.thy ===== *)
theory Window_Spec
  imports Req_Region "HOL-Library.Sublist"
begin

text \<open>
  The window protocol of the request region, as HERD and the ws-sequencer use it, apart from what
  a request is: an abstract system of clients, of which any may send any request at any time its
  window allows, and workers that poll, execute and answer. Its invariant is proved once, for every
  encoding of requests that satisfies the laws of the locale \<open>req_channel\<close>. For every worker and
  client the window in the region, the RDMA writes under way and the two window counters together
  represent the queue of requests sent and not yet executed; the counters of each client bound
  the requests without a response.
\<close>

subsection \<open>The abstract system\<close>

record win_client =
  k_tx :: txq
  k_ws :: "nat \<Rightarrow> int"
  k_recvs :: nat
  k_filled :: bool

text \<open>
  RDMA writes of a client are delivered in the order of the connected transport (\<open>v_net\<close>: worker,
  window slot, request); responses travel as datagrams (\<open>v_resp\<close> in flight, \<open>v_avail\<close> received,
  \<open>v_lost\<close> arrived without a posted RECV).
\<close>

record ('r, 'q) win_sys =
  v_reg :: "nat \<Rightarrow> 'r"
  v_scan :: "nat \<Rightarrow> scan_state"
  v_cli :: "nat \<Rightarrow> win_client"
  v_net :: "nat \<Rightarrow> (nat \<times> nat \<times> 'q) list"
  v_resp :: "nat \<Rightarrow> nat"
  v_avail :: "nat \<Rightarrow> nat"
  v_lost :: "nat \<Rightarrow> nat"

definition refills :: "win_client \<Rightarrow> bool" where
  "refills k \<longleftrightarrow> nb_tx (k_tx k) mod WINDOW_SIZE = 0 \<and> nb_tx (k_tx k) > 0"

definition win_client0 :: win_client where
  "win_client0 = \<lparr>k_tx = tx0, k_ws = (\<lambda>_. 0), k_recvs = WINDOW_SIZE, k_filled = False\<rparr>"

text \<open>Sending one request: the signaling, the post, and the window counter of the worker.\<close>

definition win_send :: "nat \<Rightarrow> win_client \<Rightarrow> win_client res" where
  "win_send w k =
     bind_res (tx_prepare UNSIG_BATCH (k_tx k)) (\<lambda>(sig, q).
     bind_res (tx_post UNSIG_BATCH q) (\<lambda>q.
     Inr (k\<lparr>k_tx := q, k_filled := False, k_ws := (k_ws k)(w := HRD_MOD_ADD (k_ws k w) (int WINDOW_SIZE))\<rparr>)))"

definition win_respond :: "nat \<Rightarrow> ('r, 'q) win_sys \<Rightarrow> ('r, 'q) win_sys" where
  "win_respond c s =
     (if k_recvs (v_cli s c) > 0
      then s\<lparr>v_cli := (v_cli s)(c := (v_cli s c)\<lparr>k_recvs := k_recvs (v_cli s c) - 1\<rparr>),
             v_avail := (v_avail s)(c := v_avail s c + 1), v_resp := (v_resp s)(c := v_resp s c - 1)\<rparr>
      else s\<lparr>v_lost := (v_lost s)(c := v_lost s c + 1), v_resp := (v_resp s)(c := v_resp s c - 1)\<rparr>)"

inductive win_run ::
  "('r \<Rightarrow> bool) \<Rightarrow> ('r \<Rightarrow> 'r) \<Rightarrow> ('q \<Rightarrow> 'r \<Rightarrow> 'r) \<Rightarrow> ('r \<Rightarrow> 'q) \<Rightarrow> ('q \<Rightarrow> bool) \<Rightarrow> nat \<Rightarrow> int \<Rightarrow> nat \<Rightarrow>
   'q win_event list \<Rightarrow> ('r, 'q) win_sys \<Rightarrow> bool"
  for is_req :: "'r \<Rightarrow> bool" and clear :: "'r \<Rightarrow> 'r" and put :: "'q \<Rightarrow> 'r \<Rightarrow> 'r" and req_of :: "'r \<Rightarrow> 'q"
    and ok_req :: "'q \<Rightarrow> bool" and nw :: nat and nports :: int and postlist :: nat where
  init: "(\<forall>i. \<not> is_req (v_reg s i)) \<Longrightarrow> v_scan s = (\<lambda>_. scan0) \<Longrightarrow> v_cli s = (\<lambda>_. win_client0) \<Longrightarrow> v_net s = (\<lambda>_. []) \<Longrightarrow>
    v_resp s = (\<lambda>_. 0) \<Longrightarrow> v_avail s = (\<lambda>_. 0) \<Longrightarrow> v_lost s = (\<lambda>_. 0) \<Longrightarrow>
    win_run is_req clear put req_of ok_req nw nports postlist [] s"
| refill: "win_run is_req clear put req_of ok_req nw nports postlist tr s \<Longrightarrow> c < NUM_CLIENTS \<Longrightarrow>
    refills (v_cli s c) \<Longrightarrow> \<not> k_filled (v_cli s c) \<Longrightarrow>
    win_run is_req clear put req_of ok_req nw nports postlist (tr @ [Internal])
      (s\<lparr>v_cli := (v_cli s)(c := (v_cli s c)\<lparr>k_recvs := k_recvs (v_cli s c) + WINDOW_SIZE, k_filled := True\<rparr>)\<rparr>)"
| send: "win_run is_req clear put req_of ok_req nw nports postlist tr s \<Longrightarrow> c < NUM_CLIENTS \<Longrightarrow> w < nw \<Longrightarrow> ok_req r \<Longrightarrow>
    refills (v_cli s c) \<longrightarrow> k_filled (v_cli s c) \<and> WINDOW_SIZE \<le> v_avail s c \<Longrightarrow>
    win_send w (v_cli s c) = Inr k \<Longrightarrow>
    win_run is_req clear put req_of ok_req nw nports postlist (tr @ [Sent c w r])
      (s\<lparr>v_cli := (v_cli s)(c := k),
         v_avail := (v_avail s)(c := if refills (v_cli s c) then v_avail s c - WINDOW_SIZE else v_avail s c),
         v_net := (v_net s)(c := v_net s c @ [(w, nat (k_ws (v_cli s c) w), r)])\<rparr>)"
| deliver: "win_run is_req clear put req_of ok_req nw nports postlist tr s \<Longrightarrow> c < NUM_CLIENTS \<Longrightarrow>
    v_net s c = (w, ws, r) # rest \<Longrightarrow>
    win_run is_req clear put req_of ok_req nw nports postlist (tr @ [Internal])
      (s\<lparr>v_reg := (v_reg s)(OFFSET w c ws := put r (v_reg s (OFFSET w c ws))), v_net := (v_net s)(c := rest)\<rparr>)"
| poll: "win_run is_req clear put req_of ok_req nw nports postlist tr s \<Longrightarrow> w < nw \<Longrightarrow>
    s_poll (v_scan s w) < NUM_CLIENTS \<Longrightarrow>
    poll_turn is_req clear w nports postlist (v_reg s) (v_scan s w) = Inr (reg, sc) \<Longrightarrow>
    win_run is_req clear put req_of ok_req nw nports postlist (tr @ [Internal])
      (s\<lparr>v_reg := reg, v_scan := (v_scan s)(w := sc)\<rparr>)"
| finish: "win_run is_req clear put req_of ok_req nw nports postlist tr s \<Longrightarrow> w < nw \<Longrightarrow>
    s_poll (v_scan s w) \<ge> NUM_CLIENTS \<Longrightarrow>
    post_ports (s_wrs (v_scan s w)) (nat (s_qp (v_scan s w))) [0..<nat nports] (s_tx (v_scan s w)) = Inr tx \<Longrightarrow>
    win_run is_req clear put req_of ok_req nw nports postlist
      (tr @ [Ran w (map (\<lambda>x. (wr_clt x, req_of (v_reg s (wr_off x)))) (s_wrs (v_scan s w)))])
      (s\<lparr>v_scan := (v_scan s)(w := (v_scan s w)\<lparr>s_tx := tx, s_wrs := [], s_poll := 0, s_qp := qp\<rparr>),
         v_resp := (\<lambda>c. v_resp s c + length (filter (\<lambda>x. wr_clt x = c) (s_wrs (v_scan s w))))\<rparr>)"
| respond: "win_run is_req clear put req_of ok_req nw nports postlist tr s \<Longrightarrow> c < NUM_CLIENTS \<Longrightarrow> v_resp s c > 0 \<Longrightarrow>
    win_run is_req clear put req_of ok_req nw nports postlist (tr @ [Internal]) (win_respond c s)"

subsection \<open>Traces and counts\<close>

text \<open>The requests a client has sent to a worker and those the worker has run for it, in order.\<close>

definition sent :: "'q win_event list \<Rightarrow> nat \<Rightarrow> nat \<Rightarrow> 'q list" where
  "sent tr c w = concat (map (\<lambda>e. case e of Sent c' w' r \<Rightarrow> if c' = c \<and> w' = w then [r] else [] | _ \<Rightarrow> []) tr)"

definition executed :: "'q win_event list \<Rightarrow> nat \<Rightarrow> nat \<Rightarrow> 'q list" where
  "executed tr c w = concat (map (\<lambda>e. case e of Ran w' rs \<Rightarrow> if w' = w then map snd (filter (\<lambda>p. fst p = c) rs) else [] | _ \<Rightarrow> []) tr)"

lemma trace_simps [simp]:
  "sent [] c w = []" "executed [] c w = []"
  "sent (tr @ [Internal]) c w = sent tr c w" "executed (tr @ [Internal]) c w = executed tr c w"
  "sent (tr @ [Ran w' rs]) c w = sent tr c w" "executed (tr @ [Sent c' w' r]) c w = executed tr c w"
  "sent (tr @ [Sent c' w' r]) c w = sent tr c w @ (if c' = c \<and> w' = w then [r] else [])"
  "executed (tr @ [Ran w' rs]) c w = executed tr c w @ (if w' = w then map snd (filter (\<lambda>p. fst p = c) rs) else [])"
  by (simp_all add: sent_def executed_def)

definition tot :: "nat \<Rightarrow> (nat \<Rightarrow> nat) \<Rightarrow> nat" where
  "tot nw f = (\<Sum>w<nw. f w)"

lemma tot_split: "w < nw \<Longrightarrow> tot nw f = f w + (\<Sum>w'\<in>{..<nw} - {w}. f w')"
  unfolding tot_def by (rule sum.remove) auto

lemma tot_update:
  assumes "w < nw" "\<And>w'. w' \<noteq> w \<Longrightarrow> g w' = f w'"
  shows "tot nw g + f w = tot nw f + g w"
proof -
  have "(\<Sum>w'\<in>{..<nw} - {w}. g w') = (\<Sum>w'\<in>{..<nw} - {w}. f w')"
    by (intro sum.cong refl assms(2)) auto
  thus ?thesis using tot_split [OF assms(1), of g] tot_split [OF assms(1), of f] by simp
qed

lemma tot_cong: "(\<And>w. w < nw \<Longrightarrow> g w = f w) \<Longrightarrow> tot nw g = tot nw f"
  unfolding tot_def by (intro sum.cong) auto

lemma tot_incr: "w < nw \<Longrightarrow> tot nw (\<lambda>w'. f w' + (if w' = w then 1 else 0)) = tot nw f + 1"
  using tot_update [of w nw "\<lambda>w'. f w' + (if w' = w then 1 else 0)" f] by simp

lemma tot_gap:
  assumes "w < nw" "\<And>w. w < nw \<Longrightarrow> g w \<le> f w"
  shows "f w + tot nw g \<le> tot nw f + g w"
proof -
  have "(\<Sum>w'\<in>{..<nw} - {w}. g w') \<le> (\<Sum>w'\<in>{..<nw} - {w}. f w')"
    by (intro sum_mono assms(2)) auto
  thus ?thesis using tot_split [OF assms(1), of g] tot_split [OF assms(1), of f] by simp
qed

lemma tot_mono: "(\<And>w. w < nw \<Longrightarrow> g w \<le> f w) \<Longrightarrow> tot nw g \<le> tot nw f"
  unfolding tot_def by (intro sum_mono) auto

lemma window_pos: "0 < WINDOW_SIZE" by (simp add: WINDOW_SIZE_def)

lemma window_div: "n \<le> WINDOW_SIZE * ((n - 1) div WINDOW_SIZE) + WINDOW_SIZE"
  using div_mult_mod_eq [of "n - 1" 32] mod_less_divisor [of 32 "n - 1"] by (simp add: WINDOW_SIZE_def)

lemma window_multiple:
  assumes "n mod WINDOW_SIZE = 0" "0 < n"
  obtains k where "n = WINDOW_SIZE * Suc k" "(n - 1) div WINDOW_SIZE = k" "n div WINDOW_SIZE = Suc k"
proof -
  obtain m where m: "n = WINDOW_SIZE * m" "0 < m" using assms by (auto elim: dvdE simp: mod_eq_0_iff_dvd)
  then obtain k where k: "n = WINDOW_SIZE * Suc k" by (cases m) auto
  have "(n - 1) div WINDOW_SIZE = k" "n div WINDOW_SIZE = Suc k" by (simp_all add: k WINDOW_SIZE_def)
  thus ?thesis using that k by blast
qed

subsection \<open>Clients\<close>

lemma send_one:
  assumes "tx_ok UNSIG_BATCH 0 (k_tx k)"
  shows "\<exists>q. win_send w k = Inr (k\<lparr>k_tx := q, k_filled := False, k_ws := (k_ws k)(w := HRD_MOD_ADD (k_ws k w) (int WINDOW_SIZE))\<rparr>)
    \<and> nb_tx q = nb_tx (k_tx k) + 1 \<and> tx_ok UNSIG_BATCH 0 q"
proof -
  let ?q = "k_tx k" and ?q1 = "(k_tx k)\<lparr>nb_tx := nb_tx (k_tx k) + 1, polled := (nb_tx (k_tx k) + 1) div UNSIG_BATCH\<rparr>"
  have 1: "tx_ok UNSIG_BATCH 1 ?q" "nb_tx ?q < posted ?q + 1" "1 < UNSIG_BATCH"
    using assms by (auto simp: tx_ok_def UNSIG_BATCH_def)
  note p = tx_prepare_ok [OF unsig_batch(1) 1(3,1,2)]
  note post = tx_post_ok [OF unsig_batch(2,3) p(2)]
  have "win_send w k = Inr (k\<lparr>k_tx := ?q1\<lparr>posted := nb_tx ?q1\<rparr>, k_filled := False, k_ws := (k_ws k)(w := HRD_MOD_ADD (k_ws k w) (int WINDOW_SIZE))\<rparr>)"
    unfolding win_send_def p(1) by (simp add: post(1) [simplified])
  thus ?thesis using post(2) by (intro exI [of _ "?q1\<lparr>posted := nb_tx ?q1\<rparr>"]) simp
qed

definition client_ok :: "nat \<Rightarrow> ('q \<Rightarrow> bool) \<Rightarrow> win_client \<Rightarrow> (nat \<times> nat \<times> 'q) list \<Rightarrow> bool" where
  "client_ok nw ok_req k net \<longleftrightarrow> tx_ok UNSIG_BATCH 0 (k_tx k) \<and> (k_filled k \<longrightarrow> refills k)
     \<and> (\<forall>e\<in>set net. fst e < nw \<and> ok_req (snd (snd e)))"

text \<open>
  The counts of a client: sent requests \<open>n\<close>, executed ones \<open>t\<close>, responses on the way \<open>rs\<close> and
  received \<open>av\<close>; the polled ones are a multiple of the window.
\<close>

definition counts_ok :: "win_client \<Rightarrow> nat \<Rightarrow> nat \<Rightarrow> nat \<Rightarrow> nat \<Rightarrow> nat \<Rightarrow> bool" where
  "counts_ok k n t rs av lost \<longleftrightarrow> nb_tx (k_tx k) = n \<and> t = rs + av + WINDOW_SIZE * ((n - 1) div WINDOW_SIZE)
     \<and> k_recvs k + av = WINDOW_SIZE + (if k_filled k then WINDOW_SIZE else 0) \<and> lost = 0"

lemma counts_send:
  assumes "counts_ok k n t rs av lost" "k_filled k \<longrightarrow> refills k" "win_send w k = Inr k'" "tx_ok UNSIG_BATCH 0 (k_tx k)"
    and "refills k \<longrightarrow> k_filled k \<and> WINDOW_SIZE \<le> av"
  shows "counts_ok k' (n + 1) t rs (if refills k then av - WINDOW_SIZE else av) lost"
proof -
  obtain q where q: "k' = k\<lparr>k_tx := q, k_filled := False, k_ws := (k_ws k)(w := HRD_MOD_ADD (k_ws k w) (int WINDOW_SIZE))\<rparr>"
    "nb_tx q = nb_tx (k_tx k) + 1" using send_one [OF assms(4), of w] assms(3) by auto
  have n: "nb_tx (k_tx k) = n" using assms(1) by (simp add: counts_ok_def)
  show ?thesis
  proof (cases "refills k")
    case True
    hence "n mod WINDOW_SIZE = 0" "0 < n" using n by (simp_all add: refills_def)
    then obtain m where "(n - 1) div WINDOW_SIZE = m" "n div WINDOW_SIZE = Suc m" by (rule window_multiple)
    thus ?thesis using True assms(1,5) q n by (auto simp: counts_ok_def)
  next
    case False
    hence "n div WINDOW_SIZE = (n - 1) div WINDOW_SIZE"
      using n by (cases n) (auto simp: refills_def div_Suc)
    thus ?thesis using False assms(1,2) q n by (auto simp: counts_ok_def)
  qed
qed

text \<open>A client whose requests are all answered has a full window of responses on a refill turn.\<close>

lemma full_window:
  assumes "counts_ok k n n 0 av lost" "refills k"
  shows "av = WINDOW_SIZE"
proof -
  have "n mod WINDOW_SIZE = 0" "0 < n" using assms by (simp_all add: refills_def counts_ok_def)
  then obtain m where "n = WINDOW_SIZE * Suc m" "(n - 1) div WINDOW_SIZE = m" by (rule window_multiple)
  thus ?thesis using assms(1) by (auto simp: counts_ok_def)
qed

subsection \<open>One pair of a worker and a client\<close>

text \<open>
  The laws of an encoding of requests in slots: a written request is recognised, and when it is
  consumed the slot still tells the request.
\<close>

locale req_channel = req_slots is_req clear valid
  for is_req :: "'r \<Rightarrow> bool" and clear :: "'r \<Rightarrow> 'r" and valid :: "'r \<Rightarrow> bool" +
  fixes put :: "'q \<Rightarrow> 'r \<Rightarrow> 'r" and req_of :: "'r \<Rightarrow> 'q" and ok_req :: "'q \<Rightarrow> bool"
  assumes write_valid: "valid (put r x)"
    and write_is_req: "is_req (put r x)"
    and req_of_write: "ok_req r \<Longrightarrow> req_of (clear (put r x)) = r"
begin

text \<open>
  \<open>S\<close> are the requests sent, \<open>R\<close> those whose batch has run, \<open>B\<close> the slots of the current batch and
  \<open>N\<close> the writes under way; the rest of \<open>S\<close> is in the window, after the slots of \<open>B\<close>.
\<close>

definition pair_ok ::
  "'q list \<Rightarrow> 'q list \<Rightarrow> nat list \<Rightarrow> (nat \<Rightarrow> 'r) \<Rightarrow> nat \<Rightarrow> nat \<Rightarrow> (nat \<times> 'q) list \<Rightarrow> int \<Rightarrow> int \<Rightarrow> bool" where
  "pair_ok S R B reg w c N hws cws \<longleftrightarrow> (\<exists>q. ring is_req reg w c (length R + length B) q \<and> (\<forall>op\<in>set q. valid op)
     \<and> S = R @ map (\<lambda>o'. req_of (reg o')) B @ map (\<lambda>op. req_of (clear op)) q @ map snd N
     \<and> B = map (\<lambda>i. slot w c (length R + i)) [0..<length B]
     \<and> map fst N = map (\<lambda>i. (length R + length B + length q + i) mod WINDOW_SIZE) [0..<length N]
     \<and> hws = int ((length R + length B) mod WINDOW_SIZE) \<and> cws = int (length S mod WINDOW_SIZE))"

lemma pair_okE:
  assumes "pair_ok S R B reg w c N hws cws"
  obtains q where "ring is_req reg w c (length R + length B) q" "\<forall>op\<in>set q. valid op"
    "S = R @ map (\<lambda>o'. req_of (reg o')) B @ map (\<lambda>op. req_of (clear op)) q @ map snd N"
    "B = map (\<lambda>i. slot w c (length R + i)) [0..<length B]"
    "map fst N = map (\<lambda>i. (length R + length B + length q + i) mod WINDOW_SIZE) [0..<length N]"
    "hws = int ((length R + length B) mod WINDOW_SIZE)" "cws = int (length S mod WINDOW_SIZE)"
  using assms unfolding pair_ok_def by blast

lemma mod_add_window: "HRD_MOD_ADD (int (n mod WINDOW_SIZE)) (int WINDOW_SIZE) = int (Suc n mod WINDOW_SIZE)"
  by (simp add: HRD_MOD_ADD_def WINDOW_SIZE_def mod_Suc)

lemma pair_prefix: "pair_ok S R B reg w c N hws cws \<Longrightarrow> prefix (R @ map (\<lambda>o'. req_of (reg o')) B) S"
  by (auto simp: pair_ok_def)

text \<open>The slots of the batch are none of the slots of the window that follow them.\<close>

lemma batch_slots:
  assumes "B = map (\<lambda>i. slot w c (h + i)) [0..<length B]" "length B + i < WINDOW_SIZE" "c < NUM_CLIENTS"
  shows "slot w c (h + length B + i) \<notin> set B"
proof
  assume "slot w c (h + length B + i) \<in> set B"
  then obtain j where "j < length B" "slot w c (h + j) = slot w c (h + (length B + i))"
    by (subst (asm) assms(1)) (auto simp: add.assoc)
  thus False using slot_window [of w c h j "length B + i"] assms(2,3) by auto
qed

lemma pair_send:
  assumes "pair_ok S R B reg w c N hws cws"
  shows "pair_ok (S @ [r]) R B reg w c (N @ [(nat cws, r)]) hws (HRD_MOD_ADD cws (int WINDOW_SIZE))"
  using assms
proof (rule pair_okE)
  fix q assume q: "ring is_req reg w c (length R + length B) q" "\<forall>op\<in>set q. valid op"
    "S = R @ map (\<lambda>o'. req_of (reg o')) B @ map (\<lambda>op. req_of (clear op)) q @ map snd N"
    "B = map (\<lambda>i. slot w c (length R + i)) [0..<length B]"
    "map fst N = map (\<lambda>i. (length R + length B + length q + i) mod WINDOW_SIZE) [0..<length N]"
    "hws = int ((length R + length B) mod WINDOW_SIZE)" "cws = int (length S mod WINDOW_SIZE)"
  have "length S = length R + length B + length q + length N" by (simp add: q(3))
  hence "nat cws = (length R + length B + length q + length N) mod WINDOW_SIZE" by (simp only: q(7) nat_int)
  hence "map fst (N @ [(nat cws, r)]) = map (\<lambda>i. (length R + length B + length q + i) mod WINDOW_SIZE) [0..<length (N @ [(nat cws, r)])]"
    using q(5) by simp
  moreover have "HRD_MOD_ADD cws (int WINDOW_SIZE) = int (length (S @ [r]) mod WINDOW_SIZE)"
    unfolding q(7) mod_add_window by simp
  moreover have "S @ [r] = R @ map (\<lambda>o'. req_of (reg o')) B @ map (\<lambda>op. req_of (clear op)) q @ map snd (N @ [(nat cws, r)])"
    using q(3) by simp
  ultimately show ?thesis unfolding pair_ok_def using q(1,2,4,6) by blast
qed

lemma pair_deliver:
  assumes "pair_ok S R B reg w c ((ws, r) # N) hws cws" "length S \<le> length R + WINDOW_SIZE" "ok_req r" "c < NUM_CLIENTS"
  shows "pair_ok S R B (reg(OFFSET w c ws := put r (reg (OFFSET w c ws)))) w c N hws cws \<and> (\<exists>i. OFFSET w c ws = slot w c i)"
  using assms(1)
proof (rule pair_okE)
  fix q assume q: "ring is_req reg w c (length R + length B) q" "\<forall>op\<in>set q. valid op"
    "S = R @ map (\<lambda>o'. req_of (reg o')) B @ map (\<lambda>op. req_of (clear op)) q @ map snd ((ws, r) # N)"
    "B = map (\<lambda>i. slot w c (length R + i)) [0..<length B]"
    "map fst ((ws, r) # N) = map (\<lambda>i. (length R + length B + length q + i) mod WINDOW_SIZE) [0..<length ((ws, r) # N)]"
    "hws = int ((length R + length B) mod WINDOW_SIZE)" "cws = int (length S mod WINDOW_SIZE)"
  have "[0..<Suc (length N)] = 0 # map Suc [0..<length N]" by (simp add: map_Suc_upt upt_conv_Cons del: upt_Suc)
  hence w: "ws = (length R + length B + length q) mod WINDOW_SIZE"
    "map fst N = map (\<lambda>i. (length R + length B + length (q @ [x]) + i) mod WINDOW_SIZE) [0..<length N]" for x :: 'r
    using q(5) by (simp_all add: comp_def)
  hence o: "OFFSET w c ws = slot w c (length R + length B + length q)" by (simp add: slot_def)
  define x where "x = put r (reg (OFFSET w c ws))"
  have l: "length B + length q < WINDOW_SIZE" using assms(2) q(3) by simp
  hence "ring is_req (reg(OFFSET w c ws := x)) w c (length R + length B) (q @ [x])"
    unfolding o using ring_push [OF q(1)] write_is_req assms(4) by (simp add: x_def)
  moreover have "\<forall>op\<in>set (q @ [x]). valid op" using q(2) write_valid by (auto simp: x_def)
  moreover have "OFFSET w c ws \<notin> set B" unfolding o by (rule batch_slots [OF q(4) l assms(4)])
  hence "map (\<lambda>o'. req_of ((reg(OFFSET w c ws := x)) o')) B = map (\<lambda>o'. req_of (reg o')) B" by auto
  hence "S = R @ map (\<lambda>o'. req_of ((reg(OFFSET w c ws := x)) o')) B @ map (\<lambda>op. req_of (clear op)) (q @ [x]) @ map snd N"
    using q(3) req_of_write [OF assms(3)] by (simp add: x_def)
  ultimately have "pair_ok S R B (reg(OFFSET w c ws := x)) w c N hws cws"
    unfolding pair_ok_def using w(2) [of x] q(4,6,7) by blast
  thus ?thesis using o by (auto simp: x_def)
qed

lemma pair_frame:
  assumes "(w, c) \<noteq> (w', c')" "c < NUM_CLIENTS" "c' < NUM_CLIENTS" "pair_ok S R B reg w c N hws cws"
  shows "pair_ok S R B (reg(slot w' c' k := x)) w c N hws cws"
  using assms(4)
proof (rule pair_okE)
  fix q assume q: "ring is_req reg w c (length R + length B) q" "\<forall>op\<in>set q. valid op"
    "S = R @ map (\<lambda>o'. req_of (reg o')) B @ map (\<lambda>op. req_of (clear op)) q @ map snd N"
    "B = map (\<lambda>i. slot w c (length R + i)) [0..<length B]"
    "map fst N = map (\<lambda>i. (length R + length B + length q + i) mod WINDOW_SIZE) [0..<length N]"
    "hws = int ((length R + length B) mod WINDOW_SIZE)" "cws = int (length S mod WINDOW_SIZE)"
  have "slot w c i \<noteq> slot w' c' k" for i using slot_inj [of w c i w' c' k] assms(1-3) by auto
  hence "slot w' c' k \<notin> set B" by (subst q(4)) (auto dest: sym)
  hence "map (\<lambda>o'. req_of ((reg(slot w' c' k := x)) o')) B = map (\<lambda>o'. req_of (reg o')) B" by auto
  thus ?thesis unfolding pair_ok_def ring_frame [OF assms(1-3)] using q by (intro exI [of _ q]) simp
qed

text \<open>Polling a pair: nothing is there, or the oldest request is taken into the batch.\<close>

lemma pair_poll:
  assumes "pair_ok S R B reg w c N hws cws" "c < NUM_CLIENTS" "length S \<le> length R + WINDOW_SIZE"
  defines "off \<equiv> OFFSET w c (nat hws)"
  shows "off = slot w c (length R + length B)"
    and "is_req (reg off) \<Longrightarrow> pair_ok S R (B @ [off]) (reg(off := clear (reg off))) w c N
      (HRD_MOD_ADD hws (int WINDOW_SIZE)) cws"
proof -
  obtain q where q: "ring is_req reg w c (length R + length B) q" "\<forall>op\<in>set q. valid op"
    "S = R @ map (\<lambda>o'. req_of (reg o')) B @ map (\<lambda>op. req_of (clear op)) q @ map snd N"
    "B = map (\<lambda>i. slot w c (length R + i)) [0..<length B]"
    "map fst N = map (\<lambda>i. (length R + length B + length q + i) mod WINDOW_SIZE) [0..<length N]"
    "hws = int ((length R + length B) mod WINDOW_SIZE)" "cws = int (length S mod WINDOW_SIZE)"
    using assms(1) by (rule pair_okE)
  show o: "off = slot w c (length R + length B)" by (simp add: off_def slot_def q(6))
  assume r: "is_req (reg off)"
  obtain x q' where x: "q = x # q'" "reg off = x" "ring is_req (reg(off := clear x)) w c (length R + length B + 1) q'"
    using poll_window [OF q(1) assms(2) q(2)] r unfolding o by auto
  have "length B + 0 < WINDOW_SIZE" using assms(3) q(3) x(1) by simp
  hence n: "off \<notin> set B" using batch_slots [OF q(4) _ assms(2), of 0] o by simp
  hence m: "map (\<lambda>o'. req_of ((reg(off := clear x)) o')) B = map (\<lambda>o'. req_of (reg o')) B" by auto
  have "S = R @ map (\<lambda>o'. req_of ((reg(off := clear x)) o')) (B @ [off]) @ map (\<lambda>op. req_of (clear op)) q' @ map snd N"
    using q(3) x(1) m by simp
  moreover have "B @ [off] = map (\<lambda>i. slot w c (length R + i)) [0..<length (B @ [off])]" using q(4) o by simp
  moreover have "map fst N = map (\<lambda>i. (length R + length (B @ [off]) + length q' + i) mod WINDOW_SIZE) [0..<length N]"
    using q(5) x(1) by simp
  moreover have "HRD_MOD_ADD hws (int WINDOW_SIZE) = int ((length R + length (B @ [off])) mod WINDOW_SIZE)"
    unfolding q(6) mod_add_window by simp
  moreover have "ring is_req (reg(off := clear x)) w c (length R + length (B @ [off])) q'" using x(3) by simp
  ultimately show "pair_ok S R (B @ [off]) (reg(off := clear (reg off))) w c N
      (HRD_MOD_ADD hws (int WINDOW_SIZE)) cws"
    unfolding pair_ok_def x(2) using x(1) q(2,7) by (intro exI [of _ q']) simp
qed

text \<open>Running the batch.\<close>

lemma pair_finish:
  assumes "pair_ok S R B reg w c N hws cws"
  shows "pair_ok S (R @ map (\<lambda>o'. req_of (reg o')) B) [] reg w c N hws cws"
  using assms unfolding pair_ok_def by auto

subsection \<open>The invariant\<close>

text \<open>The slots in a worker's current batch that are of client \<open>c\<close>.\<close>

definition batch :: "('r, 'q) win_sys \<Rightarrow> nat \<Rightarrow> nat \<Rightarrow> nat list" where
  "batch s c w = map wr_off (filter (\<lambda>x. wr_clt x = c) (s_wrs (v_scan s w)))"

abbreviation sys_pair_ok :: "'q win_event list \<Rightarrow> ('r, 'q) win_sys \<Rightarrow> nat \<Rightarrow> nat \<Rightarrow> bool" where
  "sys_pair_ok tr s w c \<equiv> pair_ok (sent tr c w) (executed tr c w) (batch s c w) (v_reg s) w c
     (map snd (filter (\<lambda>e. fst e = w) (v_net s c))) (s_ws (v_scan s w) c) (k_ws (v_cli s c) w)"

abbreviation sys_counts_ok :: "nat \<Rightarrow> 'q win_event list \<Rightarrow> ('r, 'q) win_sys \<Rightarrow> nat \<Rightarrow> bool" where
  "sys_counts_ok nw tr s c \<equiv> counts_ok (v_cli s c) (tot nw (\<lambda>w. length (sent tr c w))) (tot nw (\<lambda>w. length (executed tr c w)))
     (v_resp s c) (v_avail s c) (v_lost s c)"

definition win_inv :: "nat \<Rightarrow> int \<Rightarrow> nat \<Rightarrow> 'q win_event list \<Rightarrow> ('r, 'q) win_sys \<Rightarrow> bool" where
  "win_inv nw nports postlist tr s \<longleftrightarrow>
     (\<forall>w<nw. \<forall>c<NUM_CLIENTS. sys_pair_ok tr s w c)
     \<and> (\<forall>c<NUM_CLIENTS. client_ok nw ok_req (v_cli s c) (v_net s c) \<and> sys_counts_ok nw tr s c)
     \<and> (\<forall>w<nw. wk_ok nports postlist (v_scan s w))"

lemma win_invI:
  assumes "\<And>w c. w < nw \<Longrightarrow> c < NUM_CLIENTS \<Longrightarrow> sys_pair_ok tr s w c"
    and "\<And>c. c < NUM_CLIENTS \<Longrightarrow> client_ok nw ok_req (v_cli s c) (v_net s c)"
    and "\<And>c. c < NUM_CLIENTS \<Longrightarrow> sys_counts_ok nw tr s c"
    and "\<And>w. w < nw \<Longrightarrow> wk_ok nports postlist (v_scan s w)"
  shows "win_inv nw nports postlist tr s"
  using assms unfolding win_inv_def by blast

lemma win_invD:
  assumes "win_inv nw nports postlist tr s"
  shows "\<And>w c. w < nw \<Longrightarrow> c < NUM_CLIENTS \<Longrightarrow> sys_pair_ok tr s w c"
    and "\<And>c. c < NUM_CLIENTS \<Longrightarrow> client_ok nw ok_req (v_cli s c) (v_net s c)"
    and "\<And>c. c < NUM_CLIENTS \<Longrightarrow> sys_counts_ok nw tr s c"
    and "\<And>w. w < nw \<Longrightarrow> wk_ok nports postlist (v_scan s w)"
  using assms unfolding win_inv_def by blast+

lemma win_inv_prefix:
  assumes "win_inv nw nports postlist tr s" "w < nw" "c < NUM_CLIENTS"
  shows "prefix (executed tr c w) (sent tr c w)"
  using pair_prefix [OF win_invD(1) [OF assms]] by (rule append_prefixD)

text \<open>A pair never has more than a window of requests that are sent and not executed.\<close>

lemma executed_le_sent:
  assumes inv: "win_inv nw nports postlist tr s" and c: "c < NUM_CLIENTS"
  shows "tot nw (\<lambda>w. length (executed tr c w)) \<le> tot nw (\<lambda>w. length (sent tr c w))"
  by (rule tot_mono) (rule prefix_length_le [OF win_inv_prefix [OF inv _ c]])

lemma window_bound:
  assumes inv: "win_inv nw nports postlist tr s" and w: "w < nw" and c: "c < NUM_CLIENTS"
  shows "length (sent tr c w) \<le> length (executed tr c w) + WINDOW_SIZE"
proof -
  let ?S = "\<lambda>w. length (sent tr c w)" and ?T = "\<lambda>w. length (executed tr c w)"
  have "WINDOW_SIZE * ((tot nw ?S - 1) div WINDOW_SIZE) \<le> tot nw ?T"
    using win_invD(3) [OF inv c] by (simp add: counts_ok_def)
  hence "tot nw ?S \<le> tot nw ?T + WINDOW_SIZE" using window_div [of "tot nw ?S"] by linarith
  moreover have "?S w + tot nw ?T \<le> tot nw ?S + ?T w"
    by (rule tot_gap [OF w]) (rule prefix_length_le [OF win_inv_prefix [OF inv _ c]])
  ultimately show ?thesis by linarith
qed

text \<open>A response always finds a posted RECV.\<close>

lemma recv_posted:
  assumes inv: "win_inv nw nports postlist tr s" and c: "c < NUM_CLIENTS"
  shows "v_resp s c \<le> k_recvs (v_cli s c)"
  using executed_le_sent [OF inv c] window_div [of "tot nw (\<lambda>w. length (sent tr c w))"] win_invD(3) [OF inv c]
  by (auto simp: counts_ok_def split: if_splits)

subsection \<open>The steps keep the invariant\<close>

lemma inv_init:
  assumes "\<forall>i. \<not> is_req (v_reg s i)" "v_scan s = (\<lambda>_. scan0)" "v_cli s = (\<lambda>_. win_client0)" "v_net s = (\<lambda>_. [])"
    "v_resp s = (\<lambda>_. 0)" "v_avail s = (\<lambda>_. 0)" "v_lost s = (\<lambda>_. 0)" "0 < nports" "0 < postlist"
  shows "win_inv nw nports postlist [] s"
proof (rule win_invI)
  show "sys_pair_ok [] s w c" for w c
    using assms by (simp add: pair_ok_def batch_def scan0_def ring_def win_client0_def)
  show "sys_counts_ok nw [] s c" for c
    using assms by (simp add: counts_ok_def tot_def tx0_def win_client0_def)
qed (use assms wk_ok_scan0 in \<open>auto simp: client_ok_def win_client0_def\<close>)

lemma inv_refill:
  assumes inv: "win_inv nw nports postlist tr s" and c: "c < NUM_CLIENTS" and r: "refills (v_cli s c)" "\<not> k_filled (v_cli s c)"
  shows "win_inv nw nports postlist (tr @ [Internal])
    (s\<lparr>v_cli := (v_cli s)(c := (v_cli s c)\<lparr>k_recvs := k_recvs (v_cli s c) + WINDOW_SIZE, k_filled := True\<rparr>)\<rparr>)"
    (is "win_inv _ _ _ ?tr ?s")
proof (rule win_invI)
  have b: "batch ?s = batch s" by (simp add: batch_def fun_eq_iff)
  show "client_ok nw ok_req (v_cli ?s c') (v_net ?s c')" if "c' < NUM_CLIENTS" for c'
    using win_invD(2) [OF inv that] r by (auto simp: client_ok_def refills_def)
  show "sys_counts_ok nw ?tr ?s c'" if "c' < NUM_CLIENTS" for c'
    using win_invD(3) [OF inv that] r by (auto simp: counts_ok_def)
  show "sys_pair_ok ?tr ?s w c'" if "w < nw" "c' < NUM_CLIENTS" for w c'
    using win_invD(1) [OF inv that] b by auto
qed (use win_invD(4) [OF inv] in auto)

lemma inv_send:
  assumes inv: "win_inv nw nports postlist tr s" and c: "c < NUM_CLIENTS" and w: "w < nw" and r: "ok_req r"
    and g: "refills (v_cli s c) \<longrightarrow> k_filled (v_cli s c) \<and> WINDOW_SIZE \<le> v_avail s c"
    and send: "win_send w (v_cli s c) = Inr k"
  shows "win_inv nw nports postlist (tr @ [Sent c w r])
      (s\<lparr>v_cli := (v_cli s)(c := k),
         v_avail := (v_avail s)(c := if refills (v_cli s c) then v_avail s c - WINDOW_SIZE else v_avail s c),
         v_net := (v_net s)(c := v_net s c @ [(w, nat (k_ws (v_cli s c) w), r)])\<rparr>)" (is "win_inv _ _ _ ?tr ?s")
proof (rule win_invI)
  have ok: "client_ok nw ok_req (v_cli s c) (v_net s c)" by (rule win_invD(2) [OF inv c])
  hence tx: "tx_ok UNSIG_BATCH 0 (k_tx (v_cli s c))" "k_filled (v_cli s c) \<longrightarrow> refills (v_cli s c)" by (simp_all add: client_ok_def)
  obtain q where q: "k = (v_cli s c)\<lparr>k_tx := q, k_filled := False,
      k_ws := (k_ws (v_cli s c))(w := HRD_MOD_ADD (k_ws (v_cli s c) w) (int WINDOW_SIZE))\<rparr>" "tx_ok UNSIG_BATCH 0 q"
    using send_one [OF tx(1), of w] send by auto
  have b: "batch ?s = batch s" by (simp add: batch_def fun_eq_iff)
  show "sys_pair_ok ?tr ?s w' c'" if "w' < nw" "c' < NUM_CLIENTS" for w' c'
    using win_invD(1) [OF inv that] pair_send [OF win_invD(1) [OF inv w c], of r] q(1) b
    by (cases "c' = c \<and> w' = w") auto
  show "client_ok nw ok_req (v_cli ?s c') (v_net ?s c')" if "c' < NUM_CLIENTS" for c'
    using win_invD(2) [OF inv that] w r q by (auto simp: client_ok_def)
  show "sys_counts_ok nw ?tr ?s c'" if c': "c' < NUM_CLIENTS" for c'
  proof (cases "c' = c")
    case True
    have "(\<lambda>w'. length (sent ?tr c w')) = (\<lambda>w'. length (sent tr c w') + (if w' = w then 1 else 0))" by auto
    hence "tot nw (\<lambda>w. length (sent ?tr c w)) = tot nw (\<lambda>w. length (sent tr c w)) + 1" using tot_incr [OF w] by simp
    thus ?thesis using counts_send [OF win_invD(3) [OF inv c] tx(2) send tx(1) g] True by simp
  next
    case False
    thus ?thesis using win_invD(3) [OF inv c'] by simp
  qed
qed (use win_invD(4) [OF inv] in auto)

lemma inv_deliver:
  assumes inv: "win_inv nw nports postlist tr s" and c: "c < NUM_CLIENTS" and net: "v_net s c = (wn, ws, r) # rest"
  shows "win_inv nw nports postlist (tr @ [Internal])
      (s\<lparr>v_reg := (v_reg s)(OFFSET wn c ws := put r (v_reg s (OFFSET wn c ws))), v_net := (v_net s)(c := rest)\<rparr>)"
    (is "win_inv _ _ _ ?tr ?s")
proof (rule win_invI)
  have wf: "wn < nw" "ok_req r" using win_invD(2) [OF inv c] net by (auto simp: client_ok_def)
  have b: "batch ?s = batch s" by (simp add: batch_def fun_eq_iff)
  have "pair_ok (sent tr c wn) (executed tr c wn) (batch s c wn) (v_reg s) wn c ((ws, r) # map snd (filter (\<lambda>e. fst e = wn) rest))
      (s_ws (v_scan s wn) c) (k_ws (v_cli s c) wn)"
    using win_invD(1) [OF inv wf(1) c] net by simp
  note d = pair_deliver [OF this window_bound [OF inv wf(1) c] wf(2) c]
  then obtain i where o: "OFFSET wn c ws = slot wn c i" by blast
  show "sys_pair_ok ?tr ?s w c'" if "w < nw" "c' < NUM_CLIENTS" for w c'
  proof (cases "w = wn \<and> c' = c")
    case True
    thus ?thesis using d b by simp
  next
    case False
    hence "(w, c') \<noteq> (wn, c)" by simp
    note f = pair_frame [OF this that(2) c win_invD(1) [OF inv that]]
    have "filter (\<lambda>e. fst e = w) (v_net ?s c') = filter (\<lambda>e. fst e = w) (v_net s c')" using False net by auto
    thus ?thesis using f b by (simp add: o)
  qed
  show "client_ok nw ok_req (v_cli ?s c') (v_net ?s c')" if "c' < NUM_CLIENTS" for c'
    using win_invD(2) [OF inv that] net by (auto simp: client_ok_def)
  show "sys_counts_ok nw ?tr ?s c'" if "c' < NUM_CLIENTS" for c'
    using win_invD(3) [OF inv that] by simp
qed (use win_invD(4) [OF inv] in auto)

lemma inv_poll:
  assumes inv: "win_inv nw nports postlist tr s" and w: "w < nw" and go: "s_poll (v_scan s w) < NUM_CLIENTS"
    and p: "postlist < UNSIG_BATCH" "0 < nports"
  shows "\<exists>reg sc. poll_turn is_req clear w nports postlist (v_reg s) (v_scan s w) = Inr (reg, sc)
    \<and> win_inv nw nports postlist (tr @ [Internal]) (s\<lparr>v_reg := reg, v_scan := (v_scan s)(w := sc)\<rparr>)"
proof -
  let ?sc = "v_scan s w"
  define c where "c = nat (HRD_MOD_ADD (s_clt ?sc) (int NUM_CLIENTS))"
  define off where "off = OFFSET w c (nat (s_ws ?sc c))"
  note t = poll_turn_ok(1) [OF win_invD(4) [OF inv w] go p, folded c_def]
  note t2 = poll_turn_ok(2) [OF win_invD(4) [OF inv w] go p, where w = w and is_req = is_req and clear = clear
    and reg = "v_reg s", folded c_def, folded off_def]
  obtain reg sc where run: "poll_turn is_req clear w nports postlist (v_reg s) ?sc = Inr (reg, sc)"
    and ok: "wk_ok nports postlist sc"
    and eff: "if is_req (v_reg s off)
         then reg = (v_reg s)(off := clear (v_reg s off)) \<and> s_ws sc = (s_ws ?sc)(c := HRD_MOD_ADD (s_ws ?sc c) (int WINDOW_SIZE))
           \<and> (\<exists>x. s_wrs sc = s_wrs ?sc @ [x] \<and> wr_clt x = c \<and> wr_off x = off)
         else reg = v_reg s \<and> s_ws sc = s_ws ?sc \<and> s_wrs sc = s_wrs ?sc"
    using t2 by blast
  let ?s = "s\<lparr>v_reg := reg, v_scan := (v_scan s)(w := sc)\<rparr>"
  note pp = pair_poll [OF win_invD(1) [OF inv w t] t window_bound [OF inv w t], folded off_def]
  have "win_inv nw nports postlist (tr @ [Internal]) ?s"
  proof (rule win_invI)
    show "sys_pair_ok (tr @ [Internal]) ?s w' c'" if wc: "w' < nw" "c' < NUM_CLIENTS" for w' c'
    proof (cases "is_req (v_reg s off)")
      case False
      hence "batch ?s = batch s" using eff by (auto simp: batch_def fun_eq_iff)
      thus ?thesis using win_invD(1) [OF inv wc] False eff by auto
    next
      case True
      then obtain x where e: "reg = (v_reg s)(off := clear (v_reg s off))"
        "s_ws sc = (s_ws ?sc)(c := HRD_MOD_ADD (s_ws ?sc c) (int WINDOW_SIZE))"
        "s_wrs sc = s_wrs ?sc @ [x]" "wr_clt x = c" "wr_off x = off" using eff by auto
      have b: "batch ?s c' w' = (if w' = w \<and> c' = c then batch s c w @ [off] else batch s c' w')"
        using e by (simp add: batch_def)
      show ?thesis
      proof (cases "w' = w \<and> c' = c")
        case True
        thus ?thesis using pp(2) [OF \<open>is_req (v_reg s off)\<close>] b e(1,2) by simp
      next
        case False
        hence "(w', c') \<noteq> (w, c)" by simp
        note f = pair_frame [OF this wc(2) t win_invD(1) [OF inv wc], of "length (executed tr c w) + length (batch s c w)" "clear (v_reg s off)"]
        thus ?thesis using b False e(1,2) pp(1) by auto
      qed
    qed
    show "wk_ok nports postlist (v_scan ?s w')" if "w' < nw" for w'
      using win_invD(4) [OF inv that] ok by simp
  qed (use win_invD(2,3) [OF inv] in auto)
  thus ?thesis using run by blast
qed

lemma inv_finish:
  assumes inv: "win_inv nw nports postlist tr s" and w: "w < nw" and p: "0 < postlist"
    and post: "post_ports (s_wrs (v_scan s w)) (nat (s_qp (v_scan s w))) [0..<nat nports] (s_tx (v_scan s w)) = Inr tx"
  defines "rs \<equiv> map (\<lambda>x. (wr_clt x, req_of (v_reg s (wr_off x)))) (s_wrs (v_scan s w))"
  shows "win_inv nw nports postlist (tr @ [Ran w rs])
      (s\<lparr>v_scan := (v_scan s)(w := (v_scan s w)\<lparr>s_tx := tx, s_wrs := [], s_poll := 0, s_qp := qp\<rparr>),
         v_resp := (\<lambda>c. v_resp s c + length (filter (\<lambda>x. wr_clt x = c) (s_wrs (v_scan s w))))\<rparr>)"
    (is "win_inv _ _ _ ?tr ?s")
proof -
  have wk: "wk_ok nports postlist (v_scan ?s w)" using worker_post [OF win_invD(4) [OF inv w] p, of qp] post by auto
  have r: "map snd (filter (\<lambda>p. fst p = c) rs) = map (\<lambda>o'. req_of (v_reg s o')) (batch s c w)" for c
    by (simp add: rs_def batch_def filter_map comp_def)
  have b: "batch ?s c w' = (if w' = w then [] else batch s c w')" for c w' by (simp add: batch_def)
  show ?thesis
  proof (rule win_invI)
    show "sys_pair_ok ?tr ?s w' c" if "w' < nw" "c < NUM_CLIENTS" for w' c
      using win_invD(1) [OF inv that] pair_finish [OF win_invD(1) [OF inv that]] b r by (cases "w' = w") auto
    show "sys_counts_ok nw ?tr ?s c" if "c < NUM_CLIENTS" for c
    proof -
      have "tot nw (\<lambda>w'. length (executed ?tr c w')) = tot nw (\<lambda>w'. length (executed tr c w')) + length (batch s c w)"
        using tot_update [OF w, of "\<lambda>w'. length (executed ?tr c w')" "\<lambda>w'. length (executed tr c w')"] r [of c] by (auto simp: map_eq_conv)
      thus ?thesis using win_invD(3) [OF inv that] by (simp add: counts_ok_def batch_def)
    qed
    show "wk_ok nports postlist (v_scan ?s w')" if "w' < nw" for w'
      using win_invD(4) [OF inv that] wk by simp
  qed (use win_invD(2) [OF inv] in auto)
qed

lemma inv_respond:
  assumes inv: "win_inv nw nports postlist tr s" and c: "c < NUM_CLIENTS" and n: "v_resp s c > 0"
  shows "win_inv nw nports postlist (tr @ [Internal]) (win_respond c s)" (is "win_inv _ _ _ _ ?s")
proof -
  have r: "k_recvs (v_cli s c) > 0" using recv_posted [OF inv c] n by simp
  hence e: "?s = s\<lparr>v_cli := (v_cli s)(c := (v_cli s c)\<lparr>k_recvs := k_recvs (v_cli s c) - 1\<rparr>),
      v_avail := (v_avail s)(c := v_avail s c + 1), v_resp := (v_resp s)(c := v_resp s c - 1)\<rparr>" by (simp add: win_respond_def)
  have b: "batch ?s = batch s" by (simp add: e batch_def fun_eq_iff)
  show ?thesis
  proof (rule win_invI)
    show "sys_pair_ok (tr @ [Internal]) ?s w c'" if "w < nw" "c' < NUM_CLIENTS" for w c'
      using win_invD(1) [OF inv that] b by (auto simp: e)
    show "client_ok nw ok_req (v_cli ?s c') (v_net ?s c')" if "c' < NUM_CLIENTS" for c'
      using win_invD(2) [OF inv that] by (auto simp: e client_ok_def refills_def)
    show "sys_counts_ok nw (tr @ [Internal]) ?s c'" if "c' < NUM_CLIENTS" for c'
      using win_invD(3) [OF inv that] r n by (auto simp: e counts_ok_def)
  qed (use win_invD(4) [OF inv] in \<open>auto simp: e\<close>)
qed

theorem win_run_inv:
  assumes "win_run is_req clear put req_of ok_req nw nports postlist tr s" "0 < nports" "0 < postlist" "postlist < UNSIG_BATCH"
  shows "win_inv nw nports postlist tr s"
  using assms(1)
proof induction
  case (init s)
  thus ?case using inv_init assms(2,3) by blast
next
  case (refill tr s c)
  thus ?case using inv_refill by blast
next
  case (send tr s c w r k)
  show ?case by (rule inv_send [OF send.IH send.hyps(2-6)])
next
  case (deliver tr s c wn ws r rest)
  thus ?case using inv_deliver by blast
next
  case (poll tr s w reg sc)
  thus ?case using inv_poll [OF poll.IH poll.hyps(2,3) assms(4,2)] by auto
next
  case (finish tr s w tx qp)
  show ?case by (rule inv_finish [OF finish.IH finish.hyps(2) assms(3) finish.hyps(4)])
next
  case (respond tr s c)
  show ?case by (rule inv_respond [OF respond.IH respond.hyps(2,3)])
qed

end

end
