(* ===== verification/Herd_Proofs.thy ===== *)
theory Herd_Proofs
  imports Herd Window_Spec City_Proofs
begin

text \<open>
  HERD implements the window protocol: its requests satisfy the laws of \<open>req_channel\<close>, and every
  run of its threads is a run of the abstract system with the same requests sent and executed.
\<close>

subsection \<open>Requests in slots\<close>

definition herd_valid :: "mica_op \<Rightarrow> bool" where
  "herd_valid op \<longleftrightarrow> opcode op = HERD_OP_GET \<or> opcode op = HERD_OP_PUT"

fun req_wf :: "herd_req \<Rightarrow> bool" where
  "req_wf (HGet k) = True"
| "req_wf (HPut k v) = (length v = HERD_VALUE_SIZE)"

lemmas herd_ops = HERD_OP_GET_def HERD_OP_PUT_def HERD_MICA_OFFSET_def MICA_OP_GET_def MICA_OP_PUT_def

interpretation herd: req_channel herd_is_req herd_clear herd_valid write_req req_of req_wf
proof unfold_locales
  show "\<not> herd_is_req (herd_clear r)" if "herd_valid r" for r
    using that by (auto simp: herd_is_req_def herd_clear_def herd_valid_def herd_ops)
  show "herd_valid (write_req r x)" "herd_is_req (write_req r x)" for r x
    by (cases r; simp add: herd_valid_def herd_is_req_def herd_ops)+
  show "req_of (herd_clear (write_req r x)) = r" if "req_wf r" for r x
    using that by (cases r) (simp_all add: req_of_def herd_clear_def herd_ops HERD_VALUE_SIZE_def)
qed

subsection \<open>Clients\<close>

definition client_view :: "herd_client \<Rightarrow> win_client" where
  "client_view cl = \<lparr>k_tx = c_tx cl, k_ws = c_ws cl, k_recvs = recvs cl, k_filled = c_filled cl\<rparr>"

definition bufs_ok :: "herd_client \<Rightarrow> bool" where
  "bufs_ok cl \<longleftrightarrow> length (key_arr cl) = HERD_NUM_KEYS \<and> length (c_val cl) = MICA_MAX_VALUE"

lemma refill_turn_view: "refill_turn cl = refills (client_view cl)"
  by (simp add: refill_turn_def refills_def client_view_def)

lemma client_send_Inr:
  assumes "client_send u av cl = Inr (cl', av', wn, ws, r)" "bufs_ok cl"
  shows "wn < NUM_WORKERS" "ws = nat (c_ws cl wn)" "req_wf r" "bufs_ok cl'"
    "av' = (if refill_turn cl then av - WINDOW_SIZE else av)" "win_send wn (client_view cl) = Inr (client_view cl')"
proof -
  have v: "length (take HERD_VALUE_SIZE (c_val cl)) = HERD_VALUE_SIZE"
    using assms(2) by (simp add: bufs_ok_def HERD_VALUE_SIZE_def MICA_MAX_VALUE_def sizeof_mica_key_def)
  have "0 < NUM_WORKERS" by (simp add: NUM_WORKERS_def)
  thus "wn < NUM_WORKERS" "ws = nat (c_ws cl wn)" "req_wf r" "bufs_ok cl'"
    "av' = (if refill_turn cl then av - WINDOW_SIZE else av)"
    "win_send wn (client_view cl) = Inr (client_view cl')"
    using assms v unfolding client_send_def win_send_def client_view_def bufs_ok_def Let_def
    by (auto simp: res_simps split: prod.splits if_splits)
qed

lemma client_send_returns:
  assumes "bufs_ok cl" "returns (win_send w (client_view cl))"
  shows "returns (client_send u av cl)"
proof -
  obtain sig q1 q2 where "tx_prepare UNSIG_BATCH (c_tx cl) = Inr (sig, q1)" "tx_post UNSIG_BATCH q1 = Inr q2"
    using assms(2) by (auto simp: returns_def win_send_def client_view_def res_simps)
  moreover have "returns (CityHash128 (le_bytes 4 (word_of_int x :: u32)))" for x by (rule returns_CityHash128)
  moreover have "unat r mod HERD_NUM_KEYS < length (key_arr cl)" for r :: u32
    using assms(1) by (simp add: bufs_ok_def HERD_NUM_KEYS_def)
  ultimately show ?thesis
    unfolding client_send_def Let_def by (auto intro!: returns_intros split: prod.splits)
qed

subsection \<open>Workers\<close>

lemma exec_all_length: "exec_all kv ops = Inr (kv', rs) \<Longrightarrow> length rs = length ops"
  by (induction kv ops arbitrary: kv' rs rule: exec_all.induct) (auto simp: res_simps split: prod.splits)

lemma batch_length: "mica_batch_op kv ops = Inr (kv', rs) \<Longrightarrow> length rs = length ops"
  by (auto simp: mica_batch_op_def res_simps dest!: exec_all_length)

lemma zip_count: "length ys = length xs \<Longrightarrow> length (filter (\<lambda>(a, b). a = c) (zip xs ys)) = length (filter (\<lambda>a. a = c) xs)"
  by (induction xs ys rule: list_induct2') auto

lemma worker_finish_Inr:
  assumes "worker_finish nports reg wk = Inr (wk', out)"
  shows "\<exists>tx. post_ports (s_wrs (w_scan wk)) (nat (s_qp (w_scan wk))) [0..<nat nports] (s_tx (w_scan wk)) = Inr tx
    \<and> w_scan wk' = (w_scan wk)\<lparr>s_tx := tx, s_wrs := [], s_poll := 0, s_qp := HRD_MOD_ADD (s_qp (w_scan wk)) NUM_UD_QPS\<rparr>"
    and "add_resps out resp = (\<lambda>c. resp c + length (filter (\<lambda>x. wr_clt x = c) (s_wrs (w_scan wk))))"
proof -
  obtain kv resps tx where kv: "mica_batch_op (w_kv wk) (map (\<lambda>x. reg (wr_off x)) (s_wrs (w_scan wk))) = Inr (kv, resps)"
    and tx: "post_ports (s_wrs (w_scan wk)) (nat (s_qp (w_scan wk))) [0..<nat nports] (s_tx (w_scan wk)) = Inr tx"
    and o: "wk' = wk\<lparr>w_kv := kv, w_scan := (w_scan wk)\<lparr>s_tx := tx, s_wrs := [], s_poll := 0, s_qp := HRD_MOD_ADD (s_qp (w_scan wk)) NUM_UD_QPS\<rparr>\<rparr>"
      "out = zip (map wr_clt (s_wrs (w_scan wk))) resps"
    using assms unfolding worker_finish_def Let_def by (auto simp: res_simps)
  show "\<exists>tx. post_ports (s_wrs (w_scan wk)) (nat (s_qp (w_scan wk))) [0..<nat nports] (s_tx (w_scan wk)) = Inr tx
    \<and> w_scan wk' = (w_scan wk)\<lparr>s_tx := tx, s_wrs := [], s_poll := 0, s_qp := HRD_MOD_ADD (s_qp (w_scan wk)) NUM_UD_QPS\<rparr>"
    using tx o(1) by simp
  show "add_resps out resp = (\<lambda>c. resp c + length (filter (\<lambda>x. wr_clt x = c) (s_wrs (w_scan wk))))"
    using zip_count [of resps "map wr_clt (s_wrs (w_scan wk))"] batch_length [OF kv]
    by (simp add: add_resps_def o(2) filter_map comp_def fun_eq_iff)
qed

subsection \<open>The simulation\<close>

definition herd_view :: "herd_sys \<Rightarrow> (mica_op, herd_req) win_sys" where
  "herd_view s = \<lparr>v_reg = sreg s, v_scan = (\<lambda>w. w_scan (sworkers s w)), v_cli = (\<lambda>c. client_view (sclients s c)),
     v_net = snet s, v_resp = sresp s, v_avail = savail s, v_lost = slost s\<rparr>"

abbreviation herd_win_run :: "int \<Rightarrow> nat \<Rightarrow> herd_req win_event list \<Rightarrow> (mica_op, herd_req) win_sys \<Rightarrow> bool" where
  "herd_win_run \<equiv> win_run herd_is_req herd_clear write_req req_of req_wf NUM_WORKERS"

lemma herd_view_sel [simp]:
  "v_reg (herd_view s) = sreg s" "v_scan (herd_view s) w = w_scan (sworkers s w)" "v_cli (herd_view s) c = client_view (sclients s c)"
  "v_net (herd_view s) = snet s" "v_resp (herd_view s) = sresp s" "v_avail (herd_view s) = savail s" "v_lost (herd_view s) = slost s"
  by (simp_all add: herd_view_def)

lemma herd_sim:
  assumes "herd_run nports postlist upd tr s"
  shows "herd_win_run nports postlist tr (herd_view s) \<and> (\<forall>c. bufs_ok (sclients s c))"
  using assms
proof induction
  case (init s)
  have "client_view (sclients s c) = win_client0" "\<not> herd_is_req (sreg s i)" for c i
    using init by (simp_all add: herd_init_def client_view_def win_client0_def herd_is_req_def herd_ops)
  thus ?case using init by (auto simp: herd_init_def bufs_ok_def fun_eq_iff herd_view_def intro!: win_run.init)
next
  case (refill tr s c)
  have "herd_view (s\<lparr>sclients := (sclients s)(c := client_refill (sclients s c))\<rparr>) =
      (herd_view s)\<lparr>v_cli := (v_cli (herd_view s))(c := (v_cli (herd_view s) c)\<lparr>k_recvs := k_recvs (v_cli (herd_view s) c) + WINDOW_SIZE, k_filled := True\<rparr>)\<rparr>"
    by (simp add: herd_view_def client_view_def client_refill_def fun_eq_iff)
  thus ?case
    using win_run.refill [of _ _ _ _ _ _ _ _ _ "herd_view s" c] refill by (auto simp: refill_turn_view client_view_def bufs_ok_def client_refill_def)
next
  case (send tr s c cl avail wn ws r)
  have b: "bufs_ok (sclients s c)" using send.IH by blast
  note c = client_send_Inr [OF send.hyps(4) b]
  have "herd_view (s\<lparr>sclients := (sclients s)(c := cl), savail := (savail s)(c := avail), snet := (snet s)(c := snet s c @ [(wn, ws, r)])\<rparr>) =
      (herd_view s)\<lparr>v_cli := (v_cli (herd_view s))(c := client_view cl),
         v_avail := (v_avail (herd_view s))(c := if refills (v_cli (herd_view s) c) then v_avail (herd_view s) c - WINDOW_SIZE else v_avail (herd_view s) c),
         v_net := (v_net (herd_view s))(c := v_net (herd_view s) c @ [(wn, nat (k_ws (v_cli (herd_view s) c) wn), r)])\<rparr>"
    using c(2,5) by (simp add: herd_view_def fun_eq_iff refill_turn_view client_view_def)
  moreover have "refills (client_view (sclients s c)) \<longrightarrow> k_filled (client_view (sclients s c)) \<and> WINDOW_SIZE \<le> savail s c"
    using send.hyps(3) by (auto simp: refill_turn_view client_view_def)
  ultimately show ?case using win_run.send [OF conjunct1 [OF send.IH] send.hyps(2) c(1,3), of "client_view cl"] c(4,6) send.IH by simp
next
  case (deliver tr s c wn ws r rest)
  have "herd_view (s\<lparr>sreg := (sreg s)(OFFSET wn c ws := write_req r (sreg s (OFFSET wn c ws))), snet := (snet s)(c := rest)\<rparr>) =
      (herd_view s)\<lparr>v_reg := (v_reg (herd_view s))(OFFSET wn c ws := write_req r (v_reg (herd_view s) (OFFSET wn c ws))),
        v_net := (v_net (herd_view s))(c := rest)\<rparr>"
    by (simp add: herd_view_def)
  thus ?case using win_run.deliver [OF conjunct1 [OF deliver.IH] deliver.hyps(2)] deliver.hyps(3) deliver.IH by simp
next
  case (poll tr s w reg wk)
  obtain sc where sc: "poll_turn herd_is_req herd_clear w nports postlist (sreg s) (w_scan (sworkers s w)) = Inr (reg, sc)" "w_scan wk = sc"
    using poll.hyps(4) by (auto simp: worker_poll_def res_simps)
  have "herd_view (s\<lparr>sreg := reg, sworkers := (sworkers s)(w := wk)\<rparr>) = (herd_view s)\<lparr>v_reg := reg, v_scan := (v_scan (herd_view s))(w := sc)\<rparr>"
    using sc(2) by (simp add: herd_view_def fun_eq_iff)
  thus ?case using win_run.poll [OF conjunct1 [OF poll.IH] poll.hyps(2)] poll.hyps(3) sc(1) poll.IH by simp
next
  case (finish tr s w wk out)
  obtain tx where tx: "post_ports (s_wrs (w_scan (sworkers s w))) (nat (s_qp (w_scan (sworkers s w)))) [0..<nat nports] (s_tx (w_scan (sworkers s w))) = Inr tx"
    "w_scan wk = (w_scan (sworkers s w))\<lparr>s_tx := tx, s_wrs := [], s_poll := 0, s_qp := HRD_MOD_ADD (s_qp (w_scan (sworkers s w))) NUM_UD_QPS\<rparr>"
    using worker_finish_Inr(1) [OF finish.hyps(4)] by blast
  have "herd_view (s\<lparr>sworkers := (sworkers s)(w := wk), sresp := add_resps out (sresp s)\<rparr>) =
      (herd_view s)\<lparr>v_scan := (v_scan (herd_view s))(w := (v_scan (herd_view s) w)\<lparr>s_tx := tx, s_wrs := [], s_poll := 0,
          s_qp := HRD_MOD_ADD (s_qp (w_scan (sworkers s w))) NUM_UD_QPS\<rparr>),
         v_resp := (\<lambda>c. v_resp (herd_view s) c + length (filter (\<lambda>x. wr_clt x = c) (s_wrs (v_scan (herd_view s) w))))\<rparr>"
    unfolding worker_finish_Inr(2) [OF finish.hyps(4)] using tx(2) by (simp add: herd_view_def fun_eq_iff)
  thus ?case using win_run.finish [OF conjunct1 [OF finish.IH] finish.hyps(2)] finish.hyps(3) tx(1) finish.IH by simp
next
  case (respond tr s c n s')
  have "herd_view s' = win_respond c (herd_view s)"
    using respond.hyps(3,4) by (simp add: herd_view_def win_respond_def client_view_def fun_eq_iff)
  thus ?case using win_run.respond [OF conjunct1 [OF respond.IH] respond.hyps(2)] respond by (auto simp: bufs_ok_def)
qed

text \<open>So the invariant of the protocol holds of HERD.\<close>

lemma herd_run_inv:
  assumes "herd_run nports postlist upd tr s" "0 < nports" "0 < postlist" "postlist < UNSIG_BATCH"
  shows "herd.win_inv NUM_WORKERS nports postlist tr (herd_view s)"
  by (rule herd.win_run_inv [OF conjunct1 [OF herd_sim [OF assms(1)]] assms(2-4)])

end
