(* ===== verification/Herd_Props.thy ===== *)
theory Herd_Props
  imports Herd_Proofs Mica_Props "HOL-Library.Multiset"
begin

text \<open>
  The properties of HERD: the protocol between clients and workers over the request region, the
  queues it uses, its configuration, and the permutation of keys of a client.
\<close>

subsection \<open>A concrete run\<close>

definition zero_op :: mica_op where
  "zero_op = \<lparr>op_key = \<lparr>key_unused = 0, key_bkt = 0, key_server = 0, key_tag = 0\<rparr>, opcode = 0, val_len = 0,
     op_value = replicate MICA_MAX_VALUE 0\<rparr>"

definition client0 :: herd_client where
  "client0 = \<lparr>c_tx = tx0, c_ws = (\<lambda>_. 0), c_seed = 0xdeadbeef, key_arr = replicate HERD_NUM_KEYS 0,
     c_val = replicate MICA_MAX_VALUE 0, recvs = WINDOW_SIZE, c_filled = False\<rparr>"

definition sys0 :: herd_sys where
  "sys0 = \<lparr>sreg = (\<lambda>_. zero_op), sworkers = (\<lambda>_. \<lparr>w_scan = scan0, w_kv = small_kv\<rparr>), sclients = (\<lambda>_. client0),
     snet = (\<lambda>_. []), sresp = (\<lambda>_. 0), savail = (\<lambda>_. 0), slost = (\<lambda>_. 0)\<rparr>"

lemma sys0_init: "herd_init sys0"
  by (simp add: herd_init_def sys0_def zero_op_def client0_def)

lemma client0_ok: "bufs_ok client0" "returns (win_send w (client_view client0))"
  using send_one [of "client_view client0" w] by (auto simp: bufs_ok_def client0_def client_view_def returns_def)

lemma client0_sends:
  obtains cl w k where "client_send 0 0 client0 = Inr (cl, 0, w, 0, HGet k)" "w < NUM_WORKERS"
proof -
  obtain x where x: "client_send 0 0 client0 = Inr x"
    using client_send_returns [OF client0_ok, of 0 0] by (auto simp: returns_def)
  obtain cl av w ws r where e: "x = (cl, av, w, ws, r)" by (cases x) auto
  note c = client_send_Inr [OF x [unfolded e] client0_ok(1)]
  have "\<exists>k. r = HGet k" using x unfolding e client_send_def Let_def by (auto simp: res_simps split: prod.splits)
  moreover have "av = 0" "ws = 0" using c(2,5) by (simp_all add: client0_def)
  ultimately show ?thesis using that x e c(1) by auto
qed

text \<open>Client 0 sends a GET, it is delivered, polled and executed.\<close>

lemma sys0_run:
  obtains s w k where "herd_run 1 1 0 [Sent 0 w (HGet k), Internal, Internal, Ran w [(0, HGet k)]] s" "w < NUM_WORKERS"
proof -
  obtain cl w k where cs: "client_send 0 0 client0 = Inr (cl, 0, w, 0, HGet k)" and w: "w < NUM_WORKERS"
    using client0_sends by blast
  have c: "0 < NUM_CLIENTS" by (simp add: NUM_CLIENTS_def)
  define op where "op = write_req (HGet k) zero_op"
  have op: "herd_is_req op" "opcode (herd_clear op) = MICA_OP_GET" "req_of (herd_clear op) = HGet k"
    by (simp_all add: op_def herd_is_req_def herd_clear_def req_of_def herd_ops)
  define off where "off = OFFSET w 0 0"
  let ?s1 = "sys0\<lparr>sclients := (sclients sys0)(0 := cl), savail := (savail sys0)(0 := 0), snet := (snet sys0)(0 := snet sys0 0 @ [(w, 0, HGet k)])\<rparr>"
  have r1: "herd_run 1 1 0 ([] @ [Sent 0 w (HGet k)]) ?s1"
    by (rule herd_run.send [OF herd_run.init [OF sys0_init] c, where cl = cl and avail = 0 and ws = 0])
      (simp_all add: sys0_def cs, simp add: client0_def refill_turn_def tx0_def)
  let ?s2 = "?s1\<lparr>sreg := (sreg ?s1)(off := op), snet := (snet ?s1)(0 := [])\<rparr>"
  have r2: "herd_run 1 1 0 (([] @ [Sent 0 w (HGet k)]) @ [Internal]) ?s2"
    using herd_run.deliver [OF r1 c, of w 0 "HGet k" "[]"] by (simp add: sys0_def op_def off_def)
  let ?x = "\<lparr>wr_clt = 0, wr_cb = 0, wr_off = off, wr_sig = True\<rparr>"
  let ?q = "tx0\<lparr>nb_tx := 1\<rparr>"
  let ?sc = "scan0\<lparr>s_clt := 0, s_cb := 0, s_tx := (s_tx scan0)(0 := (s_tx scan0 0)(0 := ?q)), s_ws := (s_ws scan0)(0 := 1),
      s_wrs := [?x], s_poll := NUM_CLIENTS\<rparr>"
  let ?wk = "\<lparr>w_scan = ?sc, w_kv = small_kv\<rparr>"
  have p: "worker_poll w 1 1 (sreg ?s2) (sworkers ?s2 w) = Inr ((sreg ?s2)(off := herd_clear op), ?wk)"
    using op(1) by (simp add: worker_poll_def poll_turn_def Let_def sys0_def scan0_def off_def [symmetric] HRD_MOD_ADD_def
        NUM_CLIENTS_def WINDOW_SIZE_def tx_prepare_def tx0_def UNSIG_BATCH_def)
  let ?s3 = "?s2\<lparr>sreg := (sreg ?s2)(off := herd_clear op), sworkers := (sworkers ?s2)(w := ?wk)\<rparr>"
  have r3: "herd_run 1 1 0 ((([] @ [Sent 0 w (HGet k)]) @ [Internal]) @ [Internal]) ?s3"
    using herd_run.poll [OF r2 w _ p] by (simp add: sys0_def scan0_def NUM_CLIENTS_def)
  have b: "mica_batch_op small_kv [herd_clear op] = Inr (small_kv\<lparr>num_get_fail := num_get_fail small_kv + 1\<rparr>, [fail_resp MICA_RESP_GET_FAIL])"
    using batch_get [OF small_inv(1) op(2)] small_inv(2) by simp
  have "\<exists>wk out. worker_finish 1 (sreg ?s3) (sworkers ?s3 w) = Inr (wk, out)"
    using b by (simp add: worker_finish_def Let_def scan0_def tx_post_def tx0_def acked_def HRD_Q_DEPTH_def)
  then obtain wk out where f: "worker_finish 1 (sreg ?s3) (sworkers ?s3 w) = Inr (wk, out)" by blast
  note r4 = herd_run.finish [OF r3 w _ f]
  have "map (\<lambda>x. (wr_clt x, req_of (sreg ?s3 (wr_off x)))) (s_wrs (w_scan (sworkers ?s3 w))) = [(0, HGet k)]"
    using op(3) by simp
  with r4 show ?thesis using that w by simp
qed

subsection \<open>The protocol\<close>

text \<open>
  C2: Between any client and any worker the requests that worker executes are a prefix of those
  the client sent: in order, none twice, none invented, each with the key and value it was sent
  with, although the worker hands MICA pointers into a region that clients write concurrently. At
  most a window of requests is sent and not executed.
\<close>

theorem herd_exactly_once:
  assumes "herd_run nports postlist upd tr s" "0 < nports" "0 < postlist" "postlist < UNSIG_BATCH"
    and "w < NUM_WORKERS" "c < NUM_CLIENTS"
  shows "prefix (executed tr c w) (sent tr c w) \<and> length (sent tr c w) \<le> length (executed tr c w) + WINDOW_SIZE"
  using herd.win_inv_prefix herd.window_bound herd_run_inv [OF assms(1-4)] assms(5,6) by blast

theorem herd_exactly_once_witness:
  "\<exists>s w k. let tr = [Sent 0 w (HGet k), Internal, Internal, Ran w [(0, HGet k)]] in
     herd_run 1 1 0 tr s \<and> executed tr 0 w = [HGet k] \<and> prefix (executed tr 0 w) (sent tr 0 w)"
proof -
  obtain s w k where r: "herd_run 1 1 0 [Sent 0 w (HGet k), Internal, Internal, Ran w [(0, HGet k)]] s" "w < NUM_WORKERS"
    using sys0_run by blast
  have "prefix (executed [Sent 0 w (HGet k), Internal, Internal, Ran w [(0, HGet k)]] 0 w) (sent [Sent 0 w (HGet k), Internal, Internal, Ran w [(0, HGet k)]] 0 w)"
    using herd_exactly_once [OF r(1) _ _ _ r(2), of 0] by (simp add: UNSIG_BATCH_def NUM_CLIENTS_def)
  thus ?thesis using r(1) by (intro exI [of _ s] exI [of _ w] exI [of _ k]) (simp add: executed_def)
qed

text \<open>
  C8: Responses are unreliable datagrams that the network card drops when no RECV is posted. None
  is: as many RECVs are posted as responses are on the way, and never more than the RECV queue holds.
\<close>

theorem herd_no_response_lost:
  assumes "herd_run nports postlist upd tr s" "0 < nports" "0 < postlist" "postlist < UNSIG_BATCH" "c < NUM_CLIENTS"
  shows "slost s c = 0 \<and> sresp s c \<le> recvs (sclients s c) \<and> recvs (sclients s c) + savail s c \<le> HRD_Q_DEPTH"
  using herd.recv_posted [OF herd_run_inv [OF assms(1-4)] assms(5)] herd.win_invD(3) [OF herd_run_inv [OF assms(1-4)] assms(5)]
  by (auto simp: counts_ok_def WINDOW_SIZE_def HRD_Q_DEPTH_def client_view_def)

theorem herd_no_response_lost_witness:
  "\<exists>tr s. herd_run 1 1 0 tr s \<and> tr \<noteq> [] \<and> slost s 0 = 0 \<and> sresp s 0 \<le> recvs (sclients s 0)"
proof -
  obtain s w k where r: "herd_run 1 1 0 [Sent 0 w (HGet k), Internal, Internal, Ran w [(0, HGet k)]] s"
    using sys0_run by blast
  show ?thesis using r herd_no_response_lost [OF r, of 0]
    by (intro exI [of _ "[Sent 0 w (HGet k), Internal, Internal, Ran w [(0, HGet k)]]"] exI [of _ s])
      (simp add: UNSIG_BATCH_def NUM_CLIENTS_def)
qed

text \<open>
  C9: No thread of HERD gets stuck or stops with an error of its queues. A client whose turn it is
  to send does so; a polling turn of a worker returns, without waiting for a completion that never
  comes; a worker that is done polling posts its responses if MICA runs the batch. A client that
  waits for a window of responses has one once its requests are executed and answered.
\<close>

theorem herd_never_stuck:
  assumes "herd_run nports postlist upd tr s" "0 < nports" "0 < postlist" "postlist < UNSIG_BATCH"
    and "w < NUM_WORKERS" "c < NUM_CLIENTS"
  shows "returns (client_send upd (savail s c) (sclients s c))
    \<and> (s_poll (w_scan (sworkers s w)) < NUM_CLIENTS \<longrightarrow> returns (worker_poll w nports postlist (sreg s) (sworkers s w)))
    \<and> (returns (mica_batch_op (w_kv (sworkers s w)) (map (\<lambda>x. sreg s (wr_off x)) (s_wrs (w_scan (sworkers s w)))))
        \<longrightarrow> returns (worker_finish nports (sreg s) (sworkers s w)))
    \<and> (refill_turn (sclients s c) \<and> (\<forall>w<NUM_WORKERS. executed tr c w = sent tr c w) \<and> sresp s c = 0
        \<longrightarrow> savail s c = WINDOW_SIZE)"
proof -
  note inv = herd_run_inv [OF assms(1-4)]
  have "returns (client_send upd (savail s c) (sclients s c))"
    using client_send_returns herd_sim [OF assms(1)] send_one herd.win_invD(2) [OF inv assms(6)]
    by (fastforce simp: client_ok_def returns_def)
  moreover have "returns (worker_poll w nports postlist (sreg s) (sworkers s w))" if "s_poll (w_scan (sworkers s w)) < NUM_CLIENTS"
    using herd.inv_poll [OF inv assms(5) _ assms(4,2)] that by (auto simp: returns_def worker_poll_def)
  moreover have "returns (worker_finish nports (sreg s) (sworkers s w))"
    if "returns (mica_batch_op (w_kv (sworkers s w)) (map (\<lambda>x. sreg s (wr_off x)) (s_wrs (w_scan (sworkers s w)))))"
  proof -
    obtain tx where "post_ports (s_wrs (w_scan (sworkers s w))) (nat (s_qp (w_scan (sworkers s w)))) [0..<nat nports]
        (s_tx (w_scan (sworkers s w))) = Inr tx"
      using worker_post [OF herd.win_invD(4) [OF inv assms(5)] assms(3)] by auto
    then show ?thesis using that by (auto simp: worker_finish_def Let_def returns_def)
  qed
  moreover have "savail s c = WINDOW_SIZE"
    if "refill_turn (sclients s c)" "\<forall>w<NUM_WORKERS. executed tr c w = sent tr c w" "sresp s c = 0"
  proof -
    have "tot NUM_WORKERS (\<lambda>w. length (executed tr c w)) = tot NUM_WORKERS (\<lambda>w. length (sent tr c w))" using that(2) by (intro tot_cong) simp
    then show ?thesis using full_window [OF _ that(1) [unfolded refill_turn_view]] herd.win_invD(3) [OF inv assms(6)] that(3) by fastforce
  qed
  ultimately show ?thesis by blast
qed

theorem herd_never_stuck_witness:
  "\<exists>tr s w. herd_run 1 1 0 tr s \<and> tr \<noteq> [] \<and> returns (client_send 0 (savail s 0) (sclients s 0))
     \<and> (s_poll (w_scan (sworkers s w)) < NUM_CLIENTS \<longrightarrow> returns (worker_poll w 1 1 (sreg s) (sworkers s w)))"
proof -
  obtain s w k where r: "herd_run 1 1 0 [Sent 0 w (HGet k), Internal, Internal, Ran w [(0, HGet k)]] s" "w < NUM_WORKERS"
    using sys0_run by blast
  show ?thesis using r(1) herd_never_stuck [OF r(1) _ _ _ r(2), of 0]
    by (intro exI [of _ "[Sent 0 w (HGet k), Internal, Internal, Ran w [(0, HGet k)]]"] exI [of _ s] exI [of _ w])
      (simp add: UNSIG_BATCH_def NUM_CLIENTS_def)
qed

subsection \<open>Configuration\<close>

text \<open>
  The checks of \<open>main\<close> and of \<open>run_worker\<close> admit exactly the configurations the protocol is
  correct for: a worker process that passes those of \<open>main\<close> starts, with its MICA instance
  populated by all keys, if and only if the postlist is at most 32 and there are one or two ports.
\<close>

theorem herd_workers_start:
  assumes "herd_main g a = Inr (Workers ps)" "p \<in> set ps"
    and "\<And>key sz node. returns (mi key sz node)" "\<And>key sz node. returns (ml key sz node)"
  shows "0 < tp_postlist p \<and> 0 \<le> tp_id p \<and> tp_id p < int NUM_WORKERS
    \<and> (returns (herd_worker_init mi ml (tp_id p) (tp_num_server_ports p) (tp_postlist p))
        \<longleftrightarrow> tp_postlist p \<le> 32 \<and> tp_num_server_ports p \<in> {1, 2})"
proof -
  have p: "0 < tp_postlist p" "0 \<le> tp_id p" "tp_id p < int NUM_WORKERS" "1 \<le> tp_num_server_ports p" "tp_num_server_ports p \<le> 8"
    using assms(1,2) by (auto simp: herd_main_def Let_def res_simps split: if_splits)
  obtain idx log where "mi (MICA_INDEX_SHM_KEY + tp_id p) (HERD_NUM_BKTS * 64) 0 = Inr idx"
    "ml (MICA_LOG_SHM_KEY + tp_id p) HERD_LOG_CAP 0 = Inr log"
    using assms(3,4) by (meson returnsE)
  then obtain kv where kv: "mica_init mi ml (tp_id p) 0 HERD_NUM_BKTS HERD_LOG_CAP = Inr kv"
    by (auto simp: mica_init_def HERD_NUM_BKTS_def HERD_LOG_CAP_def is_power_of_2_def)
  obtain kv' where kv': "mica_populate_fixed_len kv (int HERD_NUM_KEYS) (int HERD_VALUE_SIZE) = Inr kv'"
    using populate_first_lap [OF kv, of "int HERD_NUM_KEYS" "int HERD_VALUE_SIZE"]
    by (auto simp: HERD_NUM_KEYS_def HERD_VALUE_SIZE_def HERD_LOG_CAP_def MICA_MAX_VALUE_def sizeof_mica_key_def round8_def)
  have "tp_num_server_ports p \<in> {1, 2, 3, 4, 5, 6, 7, 8}" using p(4,5) by auto
  then have "tp_num_server_ports p < MAX_SERVER_PORTS \<and> int NUM_CLIENTS mod tp_num_server_ports p = 0 \<longleftrightarrow> tp_num_server_ports p \<in> {1, 2}"
    by (auto simp: MAX_SERVER_PORTS_def NUM_CLIENTS_def)
  then show ?thesis using p kv kv'
    by (auto simp: herd_worker_init_def returns_def res_simps MICA_MAX_BATCH_SIZE_def HERD_VALUE_SIZE_def
        MICA_MAX_VALUE_def sizeof_mica_key_def UNSIG_BATCH_def NUM_CLIENTS_def)
qed

theorem herd_workers_start_witness:
  "returns (herd_worker_init zero_index zero_log 0 2 32)"
proof -
  define p where "p = \<lparr>tp_id = 0, tp_base_port_index = 0, tp_num_server_ports = 2, tp_num_client_ports = 1, tp_update_percentage = -1, tp_postlist = 32\<rparr>"
  let ?a = "\<lparr>a_is_master = -1, a_num_threads = -1, a_is_client = 0, a_machine_id = -1, a_postlist = 32, a_update_percentage = -1,
    a_base_port_index = 0, a_num_server_ports = 2, a_num_client_ports = 1\<rparr>"
  obtain ps where ps: "herd_main p ?a = Inr (Workers ps)" "p \<in> set ps"
    by (auto simp: herd_main_def herd_static_checks_def p_def Let_def HRD_Q_DEPTH_def sizeof_mica_op_def NUM_CLIENTS_def
        NUM_WORKERS_def WINDOW_SIZE_def RR_SIZE_def UNSIG_BATCH_def)
  show ?thesis using herd_workers_start [OF ps, of zero_index zero_log]
    by (simp add: p_def zero_index_def [abs_def] zero_log_def [abs_def] returns_def)
qed

subsection \<open>The keys of a client\<close>

lemma shuffle_mset: "i < length log \<Longrightarrow> mset (fst (shuffle i log seed)) = mset log"
proof (induction i log seed rule: shuffle.induct)
  case (2 i log seed)
  obtain r seed' where r: "hrd_fastrand seed = (r, seed')" by fastforce
  define j where "j = unat r mod (Suc i + 1)"
  have j: "j < length log" using 2(2) mod_less_divisor [of "Suc i + 1" "unat r"] unfolding j_def by linarith
  have "mset (log[Suc i := log ! j, j := log ! Suc i]) = mset log" using mset_swap [OF j 2(2)] by simp
  then show ?case using 2(1) [OF r [symmetric] refl j_def refl refl refl] 2(2) by (simp add: r Let_def j_def)
qed simp

text \<open>
  \<open>get_random_permutation\<close> returns a permutation of 0, ..., n - 1, whatever the seed and the
  client, so that the clients look up every populated key and no other.
\<close>

theorem herd_random_permutation:
  assumes "0 < n"
  shows "\<exists>log seed'. get_random_permutation n clt_gid seed = Inr (log, seed') \<and> mset log = mset (map int [0..<nat n])"
proof -
  obtain log seed' where s: "shuffle (nat n - 1) (map int [0..<nat n]) (skip_rand (clt_gid * HERD_NUM_KEYS) seed) = (log, seed')" by fastforce
  moreover have "mset log = mset (map int [0..<nat n])"
    using shuffle_mset [of "nat n - 1" "map int [0..<nat n]" "skip_rand (clt_gid * HERD_NUM_KEYS) seed"] assms s by simp
  ultimately show ?thesis using assms by (simp add: get_random_permutation_def)
qed

theorem herd_random_permutation_witness:
  "\<exists>log seed'. get_random_permutation 5 0 0xdeadbeef = Inr (log, seed') \<and> mset log = {#0, 1, 2, 3, 4#}"
  using herd_random_permutation [of 5, where clt_gid = 0 and seed = "0xdeadbeef"] by (simp add: upt_rec)

end
