(* ===== verification/Sequencer.thy ===== *)
theory Sequencer
  imports Req_Region
begin

text \<open>
  The sequencer over RDMA writes and datagrams (ws-sequencer/main.h, client.c, worker.c, main.c):
  clients write requests into the request region with RDMA writes, workers poll it, take a range
  of the shared counter for each batch and send every client a number. The region and the polling
  loop are those of the theory \<open>Req_Region\<close>; its constants have the same values in this program.
\<close>

subsection \<open>Constants and requests\<close>

definition CACHELINE_SIZE :: nat where "CACHELINE_SIZE = 64"
definition SEQ_MAX_SERVER_PORTS :: int where "SEQ_MAX_SERVER_PORTS = 4"
definition SEQ_NUM_WORKERS :: nat where "SEQ_NUM_WORKERS = 6"
definition SEQ_NUM_UD_QPS :: int where "SEQ_NUM_UD_QPS = 3"
definition SEQ_RR_SIZE :: nat where "SEQ_RR_SIZE = 2 * 1024 * 1024"
definition DGRAM_BUF_SIZE :: nat where "DGRAM_BUF_SIZE = 4096"

definition seq_is_req :: "u64 \<Rightarrow> bool" where
  "seq_is_req x \<longleftrightarrow> x \<noteq> 0"

definition seq_clear :: "u64 \<Rightarrow> u64" where
  "seq_clear x = 0"

text \<open>The value a client writes.\<close>

definition seq_write :: "u64 \<Rightarrow> u64" where
  "seq_write x = 1"

subsection \<open>The start of a process\<close>

record seq_args =
  q_is_master :: int
  q_num_threads :: int
  q_is_client :: int
  q_machine_id :: int
  q_postlist :: int
  q_base_port_index :: int
  q_num_server_ports :: int
  q_num_client_ports :: int

text \<open>Parameters of a thread; every worker also gets a pointer to the one shared counter.\<close>

record seq_params =
  qp_id :: int
  qp_base_port_index :: int
  qp_num_server_ports :: int
  qp_num_client_ports :: int
  qp_postlist :: int

datatype seq_process = SeqMaster seq_params | SeqClients "seq_params list" | SeqWorkers "seq_params list"

definition seq_static_checks :: "unit res" where
  "seq_static_checks =
     bind_res (check (HRD_Q_DEPTH = 128) AssertFail) (\<lambda>_.
     bind_res (check (CACHELINE_SIZE * NUM_CLIENTS * SEQ_NUM_WORKERS * WINDOW_SIZE < SEQ_RR_SIZE) AssertFail) (\<lambda>_.
     bind_res (check (UNSIG_BATCH \<ge> WINDOW_SIZE) AssertFail) (\<lambda>_.
     check (HRD_Q_DEPTH \<ge> 2 * UNSIG_BATCH) AssertFail)))"

definition seq_main :: "seq_params \<Rightarrow> seq_args \<Rightarrow> seq_process res" where
  "seq_main garbage a =
     bind_res seq_static_checks (\<lambda>_.
     bind_res (check (q_is_master a = -1 \<or> q_is_master a = 1) AssertFail) (\<lambda>_.
     bind_res (check (q_base_port_index a \<ge> 0 \<and> q_base_port_index a \<le> 8) AssertFail) (\<lambda>_.
     bind_res (check (q_num_server_ports a \<ge> 1 \<and> q_num_server_ports a \<le> 8) AssertFail) (\<lambda>_.
     let g = garbage\<lparr>qp_base_port_index := q_base_port_index a, qp_num_server_ports := q_num_server_ports a\<rparr> in
     if q_is_master a = 1 then Inr (SeqMaster g)
     else
       bind_res (check (q_is_client a = 0 \<or> q_is_client a = 1) AssertFail) (\<lambda>_.
       let p = g\<lparr>qp_num_client_ports := q_num_client_ports a, qp_postlist := q_postlist a\<rparr> in
       if q_is_client a = 1 then
         bind_res (check (q_num_client_ports a \<ge> 1 \<and> q_num_client_ports a \<le> 8) AssertFail) (\<lambda>_.
         bind_res (check (q_num_threads a \<ge> 1) AssertFail) (\<lambda>_.
         bind_res (check (q_machine_id a \<ge> 0) AssertFail) (\<lambda>_.
         bind_res (check (q_postlist a = -1) AssertFail) (\<lambda>_.
         Inr (SeqClients (map (\<lambda>i. p\<lparr>qp_id := q_machine_id a * q_num_threads a + int i\<rparr>) [0..<nat (q_num_threads a)]))))))
       else
         bind_res (check (q_num_threads a = -1) AssertFail) (\<lambda>_.
         bind_res (check (q_machine_id a = -1) AssertFail) (\<lambda>_.
         bind_res (check (q_postlist a \<ge> 1) AssertFail) (\<lambda>_.
         Inr (SeqWorkers (map (\<lambda>i. p\<lparr>qp_id := int i\<rparr>) [0..<SEQ_NUM_WORKERS]))))))))))"

subsection \<open>The client\<close>

text \<open>
  The loop variables; \<open>q_recvs\<close> are the posted RECVs, oldest first, each an offset in \<open>dgram_buf\<close>
  and a length.
\<close>

record seq_client =
  q_tx :: txq
  q_ws :: "nat \<Rightarrow> int"
  q_recvs :: "(nat \<times> nat) list"
  q_filled :: bool

definition seq_client_init :: "seq_client res" where
  "seq_client_init =
     bind_res (check (WINDOW_SIZE * CACHELINE_SIZE \<le> DGRAM_BUF_SIZE) AssertFail) (\<lambda>_.
     Inr \<lparr>q_tx = tx0, q_ws = (\<lambda>_. 0), q_recvs = map (\<lambda>i. (i * CACHELINE_SIZE, CACHELINE_SIZE)) [0..<WINDOW_SIZE],
          q_filled = False\<rparr>)"

definition seq_refill_turn :: "seq_client \<Rightarrow> bool" where
  "seq_refill_turn cl \<longleftrightarrow> nb_tx (q_tx cl) mod WINDOW_SIZE = 0 \<and> nb_tx (q_tx cl) > 0"

definition seq_client_refill :: "seq_client \<Rightarrow> seq_client" where
  "seq_client_refill cl =
     cl\<lparr>q_recvs := q_recvs cl @ map (\<lambda>i. (i * CACHELINE_SIZE, DGRAM_BUF_SIZE)) [0..<WINDOW_SIZE], q_filled := True\<rparr>"

text \<open>
  The rest of a turn, with \<open>avail\<close> responses in the RECV completion queue: the client afterwards,
  the responses left, the worker and the window slot written to.
\<close>

definition seq_client_send :: "nat \<Rightarrow> seq_client \<Rightarrow> (seq_client \<times> nat \<times> nat \<times> nat) res" where
  "seq_client_send avail cl =
     (let avail = (if seq_refill_turn cl then avail - WINDOW_SIZE else avail);
          wn = nb_tx (q_tx cl) mod SEQ_NUM_WORKERS
      in
      bind_res (tx_prepare UNSIG_BATCH (q_tx cl)) (\<lambda>(sig, q).
      bind_res (tx_post UNSIG_BATCH q) (\<lambda>q.
      Inr (cl\<lparr>q_tx := q, q_filled := False, q_ws := (q_ws cl)(wn := HRD_MOD_ADD (q_ws cl wn) (int WINDOW_SIZE))\<rparr>,
           avail, wn, nat (q_ws cl wn)))))"

subsection \<open>The worker\<close>

definition seq_worker_init :: "int \<Rightarrow> int \<Rightarrow> scan_state res" where
  "seq_worker_init num_server_ports postlist =
     bind_res (check (int UNSIG_BATCH \<ge> postlist) AssertFail) (\<lambda>_.
     bind_res (check (postlist \<le> int NUM_CLIENTS) AssertFail) (\<lambda>_.
     bind_res (check (num_server_ports < SEQ_MAX_SERVER_PORTS) AssertFail) (\<lambda>_.
     bind_res (check (num_server_ports \<noteq> 0) DivByZero) (\<lambda>_.
     bind_res (check (int NUM_CLIENTS mod num_server_ports = 0) AssertFail) (\<lambda>_.
     Inr scan0)))))"

definition seq_worker_poll :: "nat \<Rightarrow> int \<Rightarrow> nat \<Rightarrow> (nat \<Rightarrow> u64) \<Rightarrow> scan_state \<Rightarrow> ((nat \<Rightarrow> u64) \<times> scan_state) res" where
  "seq_worker_poll wn num_server_ports postlist reg s = poll_turn seq_is_req seq_clear wn num_server_ports postlist reg s"

text \<open>
  The end of a pass, with the shared counter: nothing when no request was found; otherwise one
  atomic fetch-and-add, and a response with its own number for every request.
\<close>

definition seq_worker_finish :: "int \<Rightarrow> u64 \<Rightarrow> scan_state \<Rightarrow> (u64 \<times> scan_state \<times> (nat \<times> u64) list) res" where
  "seq_worker_finish num_server_ports counter s =
     (let wrs = s_wrs s in
      if wrs = [] then Inr (counter, s\<lparr>s_poll := 0\<rparr>, [])
      else
        let base = counter;
            counter = counter + of_nat (length wrs);
            resp_buf = map (\<lambda>i. base + of_nat i) [0..<length wrs]
        in
        bind_res (post_ports wrs (nat (s_qp s)) [0..<nat num_server_ports] (s_tx s)) (\<lambda>tx.
        Inr (counter, s\<lparr>s_tx := tx, s_wrs := [], s_poll := 0, s_qp := HRD_MOD_ADD (s_qp s) SEQ_NUM_UD_QPS\<rparr>,
             zip (map wr_clt wrs) resp_buf)))"

subsection \<open>The system\<close>

record seq_sys =
  qreg :: "nat \<Rightarrow> u64"
  qcounter :: u64
  qworkers :: "nat \<Rightarrow> scan_state"
  qclients :: "nat \<Rightarrow> seq_client"
  qnet :: "nat \<Rightarrow> (nat \<times> nat) list"
  qresp :: "nat \<Rightarrow> u64 list"
  qavail :: "nat \<Rightarrow> nat"
  qlost :: "nat \<Rightarrow> nat"

text \<open>A client asks a worker; a worker hands out numbers to clients.\<close>

datatype seq_event = Asked nat nat | Gave nat "(nat \<times> u64) list" | Silent

definition seq_init :: "seq_sys \<Rightarrow> bool" where
  "seq_init s \<longleftrightarrow> qreg s = (\<lambda>_. 0) \<and> qcounter s = 0 \<and> qworkers s = (\<lambda>_. scan0)
     \<and> (\<forall>c. seq_client_init = Inr (qclients s c))
     \<and> qnet s = (\<lambda>_. []) \<and> qresp s = (\<lambda>_. []) \<and> qavail s = (\<lambda>_. 0) \<and> qlost s = (\<lambda>_. 0)"

inductive seq_run :: "int \<Rightarrow> nat \<Rightarrow> seq_event list \<Rightarrow> seq_sys \<Rightarrow> bool"
  for num_server_ports :: int and postlist :: nat where
  init: "seq_init s \<Longrightarrow> seq_run num_server_ports postlist [] s"
| refill: "seq_run num_server_ports postlist tr s \<Longrightarrow> c < NUM_CLIENTS \<Longrightarrow>
    seq_refill_turn (qclients s c) \<Longrightarrow> \<not> q_filled (qclients s c) \<Longrightarrow>
    seq_run num_server_ports postlist (tr @ [Silent])
      (s\<lparr>qclients := (qclients s)(c := seq_client_refill (qclients s c))\<rparr>)"
| send: "seq_run num_server_ports postlist tr s \<Longrightarrow> c < NUM_CLIENTS \<Longrightarrow>
    seq_refill_turn (qclients s c) \<longrightarrow> q_filled (qclients s c) \<and> WINDOW_SIZE \<le> qavail s c \<Longrightarrow>
    seq_client_send (qavail s c) (qclients s c) = Inr (cl, avail, wn, ws) \<Longrightarrow>
    seq_run num_server_ports postlist (tr @ [Asked c wn])
      (s\<lparr>qclients := (qclients s)(c := cl), qavail := (qavail s)(c := avail), qnet := (qnet s)(c := qnet s c @ [(wn, ws)])\<rparr>)"
| deliver: "seq_run num_server_ports postlist tr s \<Longrightarrow> c < NUM_CLIENTS \<Longrightarrow> qnet s c = (wn, ws) # rest \<Longrightarrow>
    seq_run num_server_ports postlist (tr @ [Silent])
      (s\<lparr>qreg := (qreg s)(OFFSET wn c ws := seq_write (qreg s (OFFSET wn c ws))), qnet := (qnet s)(c := rest)\<rparr>)"
| poll: "seq_run num_server_ports postlist tr s \<Longrightarrow> w < SEQ_NUM_WORKERS \<Longrightarrow> s_poll (qworkers s w) < NUM_CLIENTS \<Longrightarrow>
    seq_worker_poll w num_server_ports postlist (qreg s) (qworkers s w) = Inr (reg, sc) \<Longrightarrow>
    seq_run num_server_ports postlist (tr @ [Silent]) (s\<lparr>qreg := reg, qworkers := (qworkers s)(w := sc)\<rparr>)"
| finish: "seq_run num_server_ports postlist tr s \<Longrightarrow> w < SEQ_NUM_WORKERS \<Longrightarrow> s_poll (qworkers s w) \<ge> NUM_CLIENTS \<Longrightarrow>
    seq_worker_finish num_server_ports (qcounter s) (qworkers s w) = Inr (counter, sc, out) \<Longrightarrow>
    seq_run num_server_ports postlist (tr @ [Gave w out])
      (s\<lparr>qcounter := counter, qworkers := (qworkers s)(w := sc),
         qresp := (\<lambda>c. qresp s c @ map snd (filter (\<lambda>p. fst p = c) out))\<rparr>)"
| respond: "seq_run num_server_ports postlist tr s \<Longrightarrow> c < NUM_CLIENTS \<Longrightarrow> qresp s c = ys @ x # xs \<Longrightarrow>
    s' = (if q_recvs (qclients s c) \<noteq> []
          then s\<lparr>qclients := (qclients s)(c := (qclients s c)\<lparr>q_recvs := tl (q_recvs (qclients s c))\<rparr>),
                 qavail := (qavail s)(c := qavail s c + 1), qresp := (qresp s)(c := ys @ xs)\<rparr>
          else s\<lparr>qlost := (qlost s)(c := qlost s c + 1), qresp := (qresp s)(c := ys @ xs)\<rparr>) \<Longrightarrow>
    seq_run num_server_ports postlist (tr @ [Silent]) s'"

end
