(* ===== verification/Sequencer_Props.thy ===== *)
theory Sequencer_Props
  imports Sequencer Window_Spec
begin

text \<open>
  The sequencer implements the window protocol and hands out every number once. At the end, the
  configuration in which a worker waits forever.
\<close>

subsection \<open>The simulation\<close>

interpretation sequencer: req_channel seq_is_req seq_clear "\<lambda>_. True" "\<lambda>_ :: unit. seq_write" "\<lambda>_. ()" "\<lambda>_. True"
  by unfold_locales (simp_all add: seq_is_req_def seq_clear_def seq_write_def)

fun abs_event :: "seq_event \<Rightarrow> unit win_event" where
  "abs_event (Asked c w) = Sent c w ()"
| "abs_event (Gave w out) = Ran w (map (\<lambda>p. (fst p, ())) out)"
| "abs_event Silent = Internal"

definition seq_client_view :: "seq_client \<Rightarrow> win_client" where
  "seq_client_view cl = \<lparr>k_tx = q_tx cl, k_ws = q_ws cl, k_recvs = length (q_recvs cl), k_filled = q_filled cl\<rparr>"

definition seq_view :: "seq_sys \<Rightarrow> (u64, unit) win_sys" where
  "seq_view s = \<lparr>v_reg = qreg s, v_scan = qworkers s, v_cli = (\<lambda>c. seq_client_view (qclients s c)),
     v_net = (\<lambda>c. map (\<lambda>(w, ws). (w, ws, ())) (qnet s c)), v_resp = (\<lambda>c. length (qresp s c)), v_avail = qavail s, v_lost = qlost s\<rparr>"

abbreviation seq_win_run :: "int \<Rightarrow> nat \<Rightarrow> unit win_event list \<Rightarrow> (u64, unit) win_sys \<Rightarrow> bool" where
  "seq_win_run \<equiv> win_run seq_is_req seq_clear (\<lambda>_ :: unit. seq_write) (\<lambda>_. ()) (\<lambda>_. True) SEQ_NUM_WORKERS"

lemma seq_view_sel [simp]:
  "v_reg (seq_view s) = qreg s" "v_scan (seq_view s) = qworkers s" "v_cli (seq_view s) c = seq_client_view (qclients s c)"
  "v_net (seq_view s) c = map (\<lambda>(w, ws). (w, ws, ())) (qnet s c)" "v_resp (seq_view s) c = length (qresp s c)"
  "v_avail (seq_view s) = qavail s" "v_lost (seq_view s) = qlost s"
  by (simp_all add: seq_view_def)

lemma seq_refill_view: "seq_refill_turn cl = refills (seq_client_view cl)"
  by (simp add: seq_refill_turn_def refills_def seq_client_view_def)

lemma seq_send_Inr:
  assumes "seq_client_send av cl = Inr (cl', av', wn, ws)"
  shows "wn < SEQ_NUM_WORKERS" "ws = nat (q_ws cl wn)" "av' = (if seq_refill_turn cl then av - WINDOW_SIZE else av)"
    "win_send wn (seq_client_view cl) = Inr (seq_client_view cl')" "q_recvs cl' = q_recvs cl"
proof -
  have "0 < SEQ_NUM_WORKERS" by (simp add: SEQ_NUM_WORKERS_def)
  thus "wn < SEQ_NUM_WORKERS" "ws = nat (q_ws cl wn)" "av' = (if seq_refill_turn cl then av - WINDOW_SIZE else av)"
    "win_send wn (seq_client_view cl) = Inr (seq_client_view cl')" "q_recvs cl' = q_recvs cl"
    using assms unfolding seq_client_send_def win_send_def seq_client_view_def Let_def by (auto simp: res_simps)
qed

lemma post_ports_Nil: "post_ports [] qp is tx = Inr tx"
  by (induction "is") auto

text \<open>The end of a pass is one of the abstract system, also when there is nothing to answer.\<close>

lemma seq_finish_Inr:
  assumes "seq_worker_finish nports counter s = Inr (counter', s', out)"
  shows "\<exists>tx qp. post_ports (s_wrs s) (nat (s_qp s)) [0..<nat nports] (s_tx s) = Inr tx
      \<and> s' = s\<lparr>s_tx := tx, s_wrs := [], s_poll := 0, s_qp := qp\<rparr>"
    and "out = zip (map wr_clt (s_wrs s)) (map (\<lambda>i. counter + of_nat i) [0..<length (s_wrs s)])"
    and "counter' = counter + of_nat (length (s_wrs s))"
proof -
  show "\<exists>tx qp. post_ports (s_wrs s) (nat (s_qp s)) [0..<nat nports] (s_tx s) = Inr tx
      \<and> s' = s\<lparr>s_tx := tx, s_wrs := [], s_poll := 0, s_qp := qp\<rparr>"
  proof (cases "s_wrs s = []")
    case True
    hence "s' = s\<lparr>s_tx := s_tx s, s_wrs := [], s_poll := 0, s_qp := s_qp s\<rparr>"
      using assms by (cases s) (auto simp: seq_worker_finish_def)
    thus ?thesis unfolding True post_ports_Nil by blast
  next
    case False
    thus ?thesis using assms by (auto simp: seq_worker_finish_def Let_def res_simps)
  qed
  show "out = zip (map wr_clt (s_wrs s)) (map (\<lambda>i. counter + of_nat i) [0..<length (s_wrs s)])"
    "counter' = counter + of_nat (length (s_wrs s))"
    using assms by (auto simp: seq_worker_finish_def Let_def res_simps split: if_splits)
qed

lemma zip_fst_filter: "length ys = length xs \<Longrightarrow> length (filter (\<lambda>p. fst p = c) (zip (map f xs) ys)) = length (filter (\<lambda>x. f x = c) xs)"
  by (induction xs ys rule: list_induct2') auto

definition seq_client0 :: seq_client where
  "seq_client0 = \<lparr>q_tx = tx0, q_ws = (\<lambda>_. 0), q_recvs = map (\<lambda>i. (i * CACHELINE_SIZE, CACHELINE_SIZE)) [0..<WINDOW_SIZE],
     q_filled = False\<rparr>"

lemma seq_client_init_eq: "seq_client_init = Inr cl \<longleftrightarrow> cl = seq_client0"
  by (auto simp: seq_client_init_def seq_client0_def WINDOW_SIZE_def CACHELINE_SIZE_def DGRAM_BUF_SIZE_def)

lemma seq_sim:
  assumes "seq_run nports postlist tr s"
  shows "seq_win_run nports postlist (map abs_event tr) (seq_view s)"
  using assms
proof induction
  case (init s)
  have "seq_client_view (qclients s c) = win_client0" for c
    using init seq_client_init_eq by (simp add: seq_init_def seq_client0_def win_client0_def seq_client_view_def)
  thus ?case using init unfolding list.map by (intro win_run.init) (simp_all add: seq_init_def seq_view_def seq_is_req_def)
next
  case (refill tr s c)
  have "seq_view (s\<lparr>qclients := (qclients s)(c := seq_client_refill (qclients s c))\<rparr>) =
      (seq_view s)\<lparr>v_cli := (v_cli (seq_view s))(c := (v_cli (seq_view s) c)\<lparr>k_recvs := k_recvs (v_cli (seq_view s) c) + WINDOW_SIZE, k_filled := True\<rparr>)\<rparr>"
    by (simp add: seq_view_def seq_client_view_def seq_client_refill_def fun_eq_iff)
  moreover have "refills (v_cli (seq_view s) c)" "\<not> k_filled (v_cli (seq_view s) c)"
    using refill.hyps by (simp_all add: seq_refill_view seq_client_view_def)
  ultimately show ?case using win_run.refill [OF refill.IH refill.hyps(2)] by simp
next
  case (send tr s c cl avail wn ws)
  note c = seq_send_Inr [OF send.hyps(4)]
  have "seq_view (s\<lparr>qclients := (qclients s)(c := cl), qavail := (qavail s)(c := avail), qnet := (qnet s)(c := qnet s c @ [(wn, ws)])\<rparr>) =
      (seq_view s)\<lparr>v_cli := (v_cli (seq_view s))(c := seq_client_view cl),
         v_avail := (v_avail (seq_view s))(c := if refills (v_cli (seq_view s) c) then v_avail (seq_view s) c - WINDOW_SIZE else v_avail (seq_view s) c),
         v_net := (v_net (seq_view s))(c := v_net (seq_view s) c @ [(wn, nat (k_ws (v_cli (seq_view s) c) wn), ())])\<rparr>"
    using c(2,3) by (simp add: seq_view_def fun_eq_iff seq_refill_view seq_client_view_def)
  moreover have "refills (seq_client_view (qclients s c)) \<longrightarrow> k_filled (seq_client_view (qclients s c)) \<and> WINDOW_SIZE \<le> qavail s c"
    using send.hyps(3) by (auto simp: seq_refill_view seq_client_view_def)
  ultimately show ?case using win_run.send [OF send.IH send.hyps(2) c(1) TrueI, of "seq_client_view cl" "()"] c(4) by simp
next
  case (deliver tr s c wn ws rest)
  have "seq_view (s\<lparr>qreg := (qreg s)(OFFSET wn c ws := seq_write (qreg s (OFFSET wn c ws))), qnet := (qnet s)(c := rest)\<rparr>) =
      (seq_view s)\<lparr>v_reg := (v_reg (seq_view s))(OFFSET wn c ws := seq_write (v_reg (seq_view s) (OFFSET wn c ws))),
        v_net := (v_net (seq_view s))(c := map (\<lambda>(w, ws). (w, ws, ())) rest)\<rparr>"
    by (simp add: seq_view_def fun_eq_iff)
  thus ?case using win_run.deliver [OF deliver.IH deliver.hyps(2), of wn ws "()" "map (\<lambda>(w, ws). (w, ws, ())) rest"] deliver.hyps(3) by simp
next
  case (poll tr s w reg sc)
  have "seq_view (s\<lparr>qreg := reg, qworkers := (qworkers s)(w := sc)\<rparr>) = (seq_view s)\<lparr>v_reg := reg, v_scan := (v_scan (seq_view s))(w := sc)\<rparr>"
    by (simp add: seq_view_def)
  thus ?case using win_run.poll [OF poll.IH poll.hyps(2)] poll.hyps(3,4) by (simp add: seq_worker_poll_def)
next
  case (finish tr s w counter sc out)
  note f = seq_finish_Inr [OF finish.hyps(4)]
  obtain tx qp where tx: "post_ports (s_wrs (qworkers s w)) (nat (s_qp (qworkers s w))) [0..<nat nports] (s_tx (qworkers s w)) = Inr tx"
    "sc = (qworkers s w)\<lparr>s_tx := tx, s_wrs := [], s_poll := 0, s_qp := qp\<rparr>" using f(1) by blast
  have "map fst out = map wr_clt (s_wrs (qworkers s w))" by (simp add: f(2))
  from arg_cong [OF this, of "map (\<lambda>a. (a, ()))"]
  have o: "map (\<lambda>p. (fst p, ())) out = map (\<lambda>x. (wr_clt x, ())) (s_wrs (qworkers s w))"
    unfolding map_map comp_def .
  have "seq_view (s\<lparr>qcounter := counter, qworkers := (qworkers s)(w := sc), qresp := (\<lambda>c. qresp s c @ map snd (filter (\<lambda>p. fst p = c) out))\<rparr>) =
      (seq_view s)\<lparr>v_scan := (v_scan (seq_view s))(w := (v_scan (seq_view s) w)\<lparr>s_tx := tx, s_wrs := [], s_poll := 0, s_qp := qp\<rparr>),
         v_resp := (\<lambda>c. v_resp (seq_view s) c + length (filter (\<lambda>x. wr_clt x = c) (s_wrs (v_scan (seq_view s) w))))\<rparr>"
    using tx(2) by (simp add: seq_view_def fun_eq_iff f(2) zip_fst_filter)
  thus ?case using win_run.finish [OF finish.IH finish.hyps(2), of tx qp] finish.hyps(3) tx(1) o by simp
next
  case (respond tr s c ys x xs s')
  have "seq_view s' = win_respond c (seq_view s)"
    using respond.hyps(3,4) by (simp add: seq_view_def win_respond_def seq_client_view_def fun_eq_iff)
  thus ?case using win_run.respond [OF respond.IH respond.hyps(2)] respond.hyps(3) by simp
qed

lemma seq_run_inv:
  assumes "seq_run nports postlist tr s" "0 < nports" "0 < postlist" "postlist < UNSIG_BATCH"
  shows "sequencer.win_inv SEQ_NUM_WORKERS nports postlist (map abs_event tr) (seq_view s)"
  by (rule sequencer.win_run_inv [OF seq_sim [OF assms(1)] assms(2-4)])

subsection \<open>Numbers\<close>

text \<open>The numbers handed out, in the order of the fetch-and-adds.\<close>

definition given :: "seq_event list \<Rightarrow> u64 list" where
  "given tr = concat (map (\<lambda>e. case e of Gave w out \<Rightarrow> map snd out | _ \<Rightarrow> []) tr)"

text \<open>How often a client has asked a worker, and how often the worker has answered it.\<close>

definition asked :: "seq_event list \<Rightarrow> nat \<Rightarrow> nat \<Rightarrow> nat" where
  "asked tr c w = length (filter (\<lambda>e. e = Asked c w) tr)"

definition answered :: "seq_event list \<Rightarrow> nat \<Rightarrow> nat \<Rightarrow> nat" where
  "answered tr c w = (\<Sum>e\<leftarrow>tr. case e of Gave w' out \<Rightarrow> if w' = w then length (filter (\<lambda>p. fst p = c) out) else 0 | _ \<Rightarrow> 0)"

lemma asked_sent: "length (sent (map abs_event tr) c w) = asked tr c w"
proof (induction tr)
  case (Cons e tr)
  thus ?case by (cases e) (auto simp: sent_def asked_def)
qed (simp add: sent_def asked_def)

lemma answered_executed: "length (executed (map abs_event tr) c w) = answered tr c w"
proof (induction tr)
  case (Cons e tr)
  thus ?case by (cases e) (auto simp: executed_def answered_def filter_map comp_def)
qed (simp add: executed_def answered_def)

lemma map_of_nat_append: "map of_nat [0..<n] @ map (\<lambda>i. of_nat (n + i)) [0..<k] = map of_nat [0..<n + k]"
  by (induction k) simp_all

lemma distinct_of_nat: "n \<le> 2 ^ 64 \<Longrightarrow> distinct (map (of_nat :: nat \<Rightarrow> u64) [0..<n])"
proof -
  assume n: "n \<le> 2 ^ 64"
  have "inj_on (of_nat :: nat \<Rightarrow> u64) (set [0..<n])"
  proof (rule inj_onI)
    fix x y assume xy: "x \<in> set [0..<n]" "y \<in> set [0..<n]" "(of_nat x :: u64) = of_nat y"
    hence "x < 2 ^ LENGTH(64)" "y < 2 ^ LENGTH(64)" using n by simp_all
    thus "x = y" using arg_cong [OF xy(3), of unat] by (simp only: unat_of_nat mod_less)
  qed
  thus ?thesis by (simp add: distinct_map)
qed

lemma seq_counter:
  assumes "seq_run nports postlist tr s"
  shows "given tr = map of_nat [0..<length (given tr)] \<and> qcounter s = of_nat (length (given tr))"
  using assms
proof induction
  case (finish tr s w counter sc out)
  note f = seq_finish_Inr(2,3) [OF finish.hyps(4)]
  let ?n = "length (given tr)" and ?k = "length (s_wrs (qworkers s w))"
  have o: "map snd out = map (\<lambda>i. of_nat (?n + i)) [0..<?k]" using finish.IH by (simp add: f(1))
  have "given (tr @ [Gave w out]) = map of_nat [0..<?n] @ map (\<lambda>i. of_nat (?n + i)) [0..<?k]"
    using finish.IH o by (simp add: given_def)
  also have "\<dots> = map of_nat [0..<?n + ?k]" by (rule map_of_nat_append)
  finally have g: "given (tr @ [Gave w out]) = map of_nat [0..<?n + ?k]" .
  hence "length (given (tr @ [Gave w out])) = ?n + ?k" by simp
  thus ?case using g finish.IH f(2) by simp
qed (auto simp: given_def seq_init_def)

subsection \<open>RECV buffers\<close>

definition recv_fits :: "nat \<times> nat \<Rightarrow> bool" where
  "recv_fits r \<longleftrightarrow> fst r + 48 \<le> DGRAM_BUF_SIZE \<and> 48 \<le> snd r"

lemma cacheline_fits: "i < WINDOW_SIZE \<Longrightarrow> recv_fits (i * CACHELINE_SIZE, CACHELINE_SIZE)"
  "i < WINDOW_SIZE \<Longrightarrow> recv_fits (i * CACHELINE_SIZE, DGRAM_BUF_SIZE)"
  by (simp_all add: recv_fits_def WINDOW_SIZE_def CACHELINE_SIZE_def DGRAM_BUF_SIZE_def)

lemma list_all_tl: "list_all P xs \<Longrightarrow> list_all P (tl xs)"
  by (cases xs) auto

lemma seq_recvs_fit:
  assumes "seq_run nports postlist tr s"
  shows "list_all recv_fits (q_recvs (qclients s c))"
  using assms
proof (induction arbitrary: c)
  case (init s)
  have "qclients s c = seq_client0" using init by (simp add: seq_init_def seq_client_init_eq)
  then show ?case by (simp add: seq_client0_def list_all_iff cacheline_fits)
next
  case (refill tr s c')
  have "list_all recv_fits (map (\<lambda>i. (i * CACHELINE_SIZE, DGRAM_BUF_SIZE)) [0..<WINDOW_SIZE])"
    by (simp add: list_all_iff cacheline_fits)
  then show ?case using refill.IH by (simp add: seq_client_refill_def)
next
  case (send tr s c' cl avail wn ws)
  then show ?case using seq_send_Inr(5) [OF send.hyps(4)] by simp
next
  case (respond tr s c' ys x xs s')
  then show ?case by (auto intro: list_all_tl)
qed simp_all

subsection \<open>A concrete start\<close>

definition seq_sys0 :: seq_sys where
  "seq_sys0 = \<lparr>qreg = (\<lambda>_. 0), qcounter = 0, qworkers = (\<lambda>_. scan0), qclients = (\<lambda>_. seq_client0), qnet = (\<lambda>_. []),
     qresp = (\<lambda>_. []), qavail = (\<lambda>_. 0), qlost = (\<lambda>_. 0)\<rparr>"

lemma seq_sys0_init: "seq_init seq_sys0"
  by (simp add: seq_init_def seq_sys0_def seq_client_init_eq)

text \<open>The first request of a client goes to slot 0 of worker 0.\<close>

lemma seq_first_send: "\<exists>cl. seq_client_send 0 seq_client0 = Inr (cl, 0, 0, 0)"
  by (simp add: seq_client_send_def seq_client0_def tx0_def tx_prepare_def tx_post_def UNSIG_BATCH_def HRD_Q_DEPTH_def
      acked_def Let_def SEQ_NUM_WORKERS_def seq_refill_turn_def)

lemma first_slot_inj: "OFFSET 0 c 0 = OFFSET 0 c' 0 \<longleftrightarrow> c = c'"
  by (simp add: OFFSET_def WINDOW_SIZE_def)

text \<open>The first \<open>m\<close> clients have sent their first request and it is delivered.\<close>

lemma first_requests:
  assumes "m \<le> NUM_CLIENTS"
  shows "\<exists>tr s. seq_run nports postlist tr s \<and> given tr = [] \<and> (\<forall>c<m. seq_is_req (qreg s (OFFSET 0 c 0))) \<and> qworkers s 0 = scan0
    \<and> (\<forall>c\<ge>m. qclients s c = seq_client0 \<and> qnet s c = [] \<and> qavail s c = 0)"
  using assms
proof (induction m)
  case 0
  have "seq_run nports postlist [] seq_sys0" by (rule seq_run.init [OF seq_sys0_init])
  thus ?case by (intro exI [of _ "[]"] exI [of _ seq_sys0]) (simp add: seq_sys0_def given_def)
next
  case (Suc m)
  then obtain tr s where r: "seq_run nports postlist tr s" "given tr = []" "\<forall>c<m. seq_is_req (qreg s (OFFSET 0 c 0))" "qworkers s 0 = scan0"
    "\<forall>c\<ge>m. qclients s c = seq_client0 \<and> qnet s c = [] \<and> qavail s c = 0" by auto
  have m: "m < NUM_CLIENTS" "qclients s m = seq_client0" "qnet s m = []" "qavail s m = 0" using Suc.prems r(5) by auto
  obtain cl where cl: "seq_client_send 0 seq_client0 = Inr (cl, 0, 0, 0)" using seq_first_send by blast
  have nt: "\<not> seq_refill_turn seq_client0" by (simp add: seq_refill_turn_def seq_client0_def tx0_def)
  let ?s1 = "s\<lparr>qclients := (qclients s)(m := cl), qavail := (qavail s)(m := 0), qnet := (qnet s)(m := qnet s m @ [(0, 0)])\<rparr>"
  have r1: "seq_run nports postlist (tr @ [Asked m 0]) ?s1"
    by (rule seq_run.send [OF r(1) m(1)]) (simp_all add: m nt cl)
  let ?s2 = "?s1\<lparr>qreg := (qreg ?s1)(OFFSET 0 m 0 := seq_write (qreg ?s1 (OFFSET 0 m 0))), qnet := (qnet ?s1)(m := [])\<rparr>"
  have r2: "seq_run nports postlist ((tr @ [Asked m 0]) @ [Silent]) ?s2"
    by (rule seq_run.deliver [OF r1 m(1)]) (simp add: m)
  show ?case
    by (rule exI, rule exI, rule conjI, rule r2)
      (use r in \<open>auto simp: first_slot_inj seq_write_def seq_is_req_def less_Suc_eq given_def\<close>)
qed

text \<open>Worker 0 answers the first request of client 0.\<close>

lemma seq_first_answer:
  obtains tr s where "seq_run 1 1 tr s" "given tr = [0]"
proof -
  have "1 \<le> NUM_CLIENTS" by (simp add: NUM_CLIENTS_def)
  then obtain tr s where r: "seq_run 1 1 tr s" "given tr = []" "seq_is_req (qreg s (OFFSET 0 0 0))" "qworkers s 0 = scan0"
    using first_requests [of 1 1 1] by auto
  have w: "0 < SEQ_NUM_WORKERS" by (simp add: SEQ_NUM_WORKERS_def)
  let ?x = "\<lparr>wr_clt = 0, wr_cb = 0, wr_off = OFFSET 0 0 0, wr_sig = True\<rparr>"
  let ?sc = "scan0\<lparr>s_clt := 0, s_cb := 0, s_tx := (s_tx scan0)(0 := (s_tx scan0 0)(0 := tx0\<lparr>nb_tx := 1\<rparr>)), s_ws := (s_ws scan0)(0 := 1),
      s_wrs := [?x], s_poll := NUM_CLIENTS\<rparr>"
  let ?reg = "(qreg s)(OFFSET 0 0 0 := seq_clear (qreg s (OFFSET 0 0 0)))"
  have p: "seq_worker_poll 0 1 1 (qreg s) (qworkers s 0) = Inr (?reg, ?sc)"
    using r(3,4) by (simp add: seq_worker_poll_def poll_turn_def Let_def scan0_def HRD_MOD_ADD_def
        NUM_CLIENTS_def WINDOW_SIZE_def tx_prepare_def tx0_def UNSIG_BATCH_def)
  let ?s = "s\<lparr>qreg := ?reg, qworkers := (qworkers s)(0 := ?sc)\<rparr>"
  have r2: "seq_run 1 1 (tr @ [Silent]) ?s"
    by (rule seq_run.poll [OF r(1) w _ p]) (simp add: r(4) scan0_def NUM_CLIENTS_def)
  have c: "qcounter s = 0" using seq_counter [OF r(1)] r(2) by simp
  have "\<exists>k sc. seq_worker_finish 1 (qcounter ?s) (qworkers ?s 0) = Inr (k, sc, [(0, 0)])"
    using c by (simp add: seq_worker_finish_def Let_def scan0_def tx_post_def tx0_def acked_def HRD_Q_DEPTH_def)
  then obtain k sc where f: "seq_worker_finish 1 (qcounter ?s) (qworkers ?s 0) = Inr (k, sc, [(0, 0)])" by blast
  have "\<exists>s'. seq_run 1 1 ((tr @ [Silent]) @ [Gave 0 [(0, 0)]]) s'"
    using seq_run.finish [OF r2 w _ f] by (auto simp: NUM_CLIENTS_def)
  thus ?thesis using that r(2) by (auto simp: given_def)
qed

subsection \<open>A worker that waits forever\<close>

text \<open>After \<open>k\<close> turns that all found a request, with one port and a postlist of 64.\<close>

definition polled_all :: "nat \<Rightarrow> (nat \<Rightarrow> u64) \<Rightarrow> scan_state \<Rightarrow> bool" where
  "polled_all k reg s \<longleftrightarrow> s_clt s = int k - 1 \<and> s_cb s = (if k = 0 then -1 else 0) \<and> s_qp s = 0 \<and> s_poll s = k
     \<and> length (s_wrs s) = k \<and> s_tx s 0 0 = tx0\<lparr>nb_tx := k\<rparr>
     \<and> (\<forall>c\<ge>k. s_ws s c = 0) \<and> (\<forall>c. k \<le> c \<and> c < 64 \<longrightarrow> seq_is_req (reg (OFFSET 0 c 0)))"

lemma and_63: "(n :: nat) AND 63 = n mod 64"
  using and_pred_mod [of n 6] by simp

lemma polled_all_turn:
  assumes "polled_all k reg s" "k < 63"
  shows "\<exists>reg' s'. seq_worker_poll 0 1 64 reg s = Inr (reg', s') \<and> polled_all (k + 1) reg' s'"
proof -
  have c: "HRD_MOD_ADD (s_clt s) (int NUM_CLIENTS) = int k" "HRD_MOD_ADD (s_cb s) 1 = 0" "s_ws s k = 0" "s_qp s = 0"
    using assms by (auto simp: polled_all_def HRD_MOD_ADD_def NUM_CLIENTS_def)
  have r: "seq_is_req (reg (OFFSET 0 k 0))" using assms by (simp add: polled_all_def)
  have t: "tx_prepare UNSIG_BATCH (s_tx s 0 0) = Inr (k mod 64 = 0, tx0\<lparr>nb_tx := k + 1\<rparr>)"
    using assms by (auto simp: polled_all_def tx_prepare_def UNSIG_BATCH_def and_63 Let_def)
  show ?thesis unfolding seq_worker_poll_def poll_turn_def Let_def
    using assms c r t by (auto simp: polled_all_def first_slot_inj)
qed

lemma polled_all_stuck:
  assumes "polled_all 63 reg s"
  shows "seq_worker_poll 0 1 64 reg s = Inl Stuck"
proof -
  have c: "HRD_MOD_ADD (s_clt s) (int NUM_CLIENTS) = 63" "HRD_MOD_ADD (s_cb s) 1 = 0" "s_ws s 63 = 0" "s_qp s = 0"
    using assms by (auto simp: polled_all_def HRD_MOD_ADD_def NUM_CLIENTS_def)
  have "seq_is_req (reg (OFFSET 0 63 0))" using assms by (simp add: polled_all_def)
  moreover have "tx_prepare UNSIG_BATCH (s_tx s 0 0) = Inl Stuck"
    using assms by (simp add: polled_all_def tx_prepare_def UNSIG_BATCH_def and_63 tx0_def completions_def Let_def)
  ultimately show ?thesis unfolding seq_worker_poll_def poll_turn_def Let_def using c by simp
qed

lemma polled_all_reachable:
  assumes "k \<le> 63"
  shows "\<exists>tr s. seq_run 1 64 tr s \<and> polled_all k (qreg s) (qworkers s 0)"
  using assms
proof (induction k)
  case 0
  have "64 \<le> NUM_CLIENTS" by (simp add: NUM_CLIENTS_def)
  then obtain tr s where "seq_run 1 64 tr s" "\<forall>c<64. seq_is_req (qreg s (OFFSET 0 c 0))" "qworkers s 0 = scan0"
    using first_requests [of 64 1 64] by blast
  moreover from this have "polled_all 0 (qreg s) (qworkers s 0)" by (simp add: polled_all_def scan0_def tx0_def)
  ultimately show ?case by blast
next
  case (Suc k)
  then obtain tr s where r: "seq_run 1 64 tr s" "polled_all k (qreg s) (qworkers s 0)" by auto
  obtain reg' sc where p: "seq_worker_poll 0 1 64 (qreg s) (qworkers s 0) = Inr (reg', sc)" "polled_all (k + 1) reg' sc"
    using polled_all_turn [OF r(2)] Suc.prems by auto
  have "s_poll (qworkers s 0) < NUM_CLIENTS" using r(2) Suc.prems by (simp add: polled_all_def NUM_CLIENTS_def)
  then have "seq_run 1 64 (tr @ [Silent]) (s\<lparr>qreg := reg', qworkers := (qworkers s)(0 := sc)\<rparr>)"
    by (intro seq_run.poll [OF r(1) _ _ p(1)]) (simp_all add: SEQ_NUM_WORKERS_def)
  then show ?case using p(2) by (intro exI conjI) (assumption, simp)
qed

subsection \<open>The properties\<close>

text \<open>
  C4: The sequencer hands out 0, 1, 2, ... in the order of its fetch-and-adds, across all workers,
  so no number twice before 64 bits overflow; and between a client and a worker the numbers handed
  out are at most as many as the requests, with at most a window of requests unanswered.
\<close>

theorem seq_numbers_unique:
  assumes "seq_run nports postlist tr s" "0 < nports" "0 < postlist" "postlist < UNSIG_BATCH"
  shows "given tr = map of_nat [0..<length (given tr)]
    \<and> (length (given tr) \<le> 2 ^ 64 \<longrightarrow> distinct (given tr))
    \<and> (\<forall>w<SEQ_NUM_WORKERS. \<forall>c<NUM_CLIENTS. answered tr c w \<le> asked tr c w \<and> asked tr c w \<le> answered tr c w + WINDOW_SIZE)"
proof -
  note inv = seq_run_inv [OF assms] and g = conjunct1 [OF seq_counter [OF assms(1)]]
  have "length (given tr) \<le> 2 ^ 64 \<longrightarrow> distinct (given tr)" using distinct_of_nat [of "length (given tr)"] g by metis
  moreover have "answered tr c w \<le> asked tr c w \<and> asked tr c w \<le> answered tr c w + WINDOW_SIZE"
    if "w < SEQ_NUM_WORKERS" "c < NUM_CLIENTS" for w c
    using prefix_length_le [OF sequencer.win_inv_prefix [OF inv that]] sequencer.window_bound [OF inv that]
    by (simp add: asked_sent answered_executed)
  ultimately show ?thesis using g by blast
qed

theorem seq_numbers_unique_witness:
  "\<exists>tr s. seq_run 1 1 tr s \<and> given tr = [0] \<and> answered tr 0 0 \<le> asked tr 0 0"
proof -
  obtain tr s where r: "seq_run 1 1 tr s" "given tr = [0]" by (rule seq_first_answer)
  show ?thesis using r seq_numbers_unique [OF r(1)] by (auto simp: UNSIG_BATCH_def SEQ_NUM_WORKERS_def NUM_CLIENTS_def)
qed

text \<open>
  C39: Every response of the sequencer finds a posted RECV, and its 48 bytes (a 40-byte header and
  the number) fit the RECV and lie inside \<open>dgram_buf\<close>.
\<close>

theorem seq_responses_fit:
  assumes "seq_run nports postlist tr s" "0 < nports" "0 < postlist" "postlist < UNSIG_BATCH" "c < NUM_CLIENTS"
  shows "qlost s c = 0 \<and> length (qresp s c) \<le> length (q_recvs (qclients s c))
    \<and> (\<forall>(a, l)\<in>set (q_recvs (qclients s c)). a + 48 \<le> DGRAM_BUF_SIZE \<and> 48 \<le> l)"
proof -
  note inv = seq_run_inv [OF assms(1-4)]
  have "\<forall>(a, l)\<in>set (q_recvs (qclients s c)). a + 48 \<le> DGRAM_BUF_SIZE \<and> 48 \<le> l"
    using seq_recvs_fit [OF assms(1), of c] by (fastforce simp: list_all_iff recv_fits_def)
  moreover have "qlost s c = 0" "length (qresp s c) \<le> length (q_recvs (qclients s c))"
    using sequencer.recv_posted [OF inv assms(5)] sequencer.win_invD(3) [OF inv assms(5)]
    by (simp_all add: counts_ok_def seq_client_view_def)
  ultimately show ?thesis by blast
qed

theorem seq_responses_fit_witness:
  "\<exists>tr s. seq_run 1 1 tr s \<and> given tr = [0] \<and> qlost s 0 = 0 \<and> length (qresp s 0) \<le> length (q_recvs (qclients s 0))"
proof -
  obtain tr s where r: "seq_run 1 1 tr s" "given tr = [0]" by (rule seq_first_answer)
  show ?thesis using r seq_responses_fit [OF r(1), of 0] by (auto simp: UNSIG_BATCH_def NUM_CLIENTS_def)
qed

text \<open>
  C36: A postlist of 64 passes the checks of a worker, but with one port it can wait forever: when 64
  clients have a request, the worker polls for the completion of a response that it has not
  posted yet.
\<close>

theorem seq_postlist_64_stuck:
  "seq_worker_init 1 64 = Inr scan0
   \<and> (\<exists>tr s. seq_run 1 64 tr s \<and> s_poll (qworkers s 0) < NUM_CLIENTS
        \<and> seq_worker_poll 0 1 64 (qreg s) (qworkers s 0) = Inl Stuck)"
proof -
  have "seq_worker_init 1 64 = Inr scan0"
    by (simp add: seq_worker_init_def UNSIG_BATCH_def NUM_CLIENTS_def SEQ_MAX_SERVER_PORTS_def)
  moreover obtain tr s where "seq_run 1 64 tr s" "polled_all 63 (qreg s) (qworkers s 0)"
    using polled_all_reachable [of 63] by auto
  moreover from this(2) have "s_poll (qworkers s 0) < NUM_CLIENTS" by (simp add: polled_all_def NUM_CLIENTS_def)
  ultimately show ?thesis using polled_all_stuck by blast
qed

end
