(* ===== verification/Setup.thy ===== *)
theory Setup
  imports Herd Sequencer Hrd_Conn
begin

text \<open>
  How the threads of HERD and of the ws-sequencer find each other before their loops start
  (herd/master.c, client.c, worker.c; ws-sequencer/master.c, client.c, worker.c): the master and the
  clients publish their queue pairs in the registry under agreed names, wait for each other's
  names, connect, and announce that they are ready; workers look up the datagram queue pairs of
  the clients. The two programs run the same code with different constants. A thread is the list
  of the libhrd calls it makes, in order. A call that polls the registry until a name appears can
  be executed once the name is there. The argument checks are those of \<open>Hrd_Conn\<close>; which queue
  pair a name stands for is what is recorded of the published attributes. The first call of the master creates the
  shared request region, and the workers map it: a worker that gets there before the master does not wait, its assertion fails. There is
  no region at the start (the run scripts remove it), and the calls of the verbs and the allocations are taken to succeed.
\<close>

subsection \<open>Names\<close>

text \<open>The decimal digits of a number, as \<open>sprintf\<close> prints it.\<close>

fun dec :: "nat \<Rightarrow> string" where
  "dec n = (if n < 10 then [char_of (48 + n)] else dec (n div 10) @ [char_of (48 + n mod 10)])"

declare dec.simps [simp del]

definition master_name :: "nat \<Rightarrow> nat \<Rightarrow> string" where
  "master_name i j = ''master-'' @ dec i @ ''-'' @ dec j"

definition client_conn_name :: "nat \<Rightarrow> string" where
  "client_conn_name c = ''client-conn-'' @ dec c"

definition client_dgram_name :: "nat \<Rightarrow> string" where
  "client_dgram_name c = ''client-dgram-'' @ dec c"

subsection \<open>Threads and their calls\<close>

datatype hs_thread = TMaster | TClient nat | TWorker nat
datatype hs_qp = HConn nat nat | HDgram nat nat

text \<open>A control block: its index in the thread, and its numbers of queue pairs.\<close>

record hs_cb =
  cb_index :: nat
  cb_nconn :: nat
  cb_ndgram :: nat

text \<open>
  \<open>InitCb\<close>: \<open>hrd_ctrl_blk_init\<close> with host id, block, port, NUMA node, \<open>use_uc\<close>, whether the buffer is preallocated, its
  size and key, and the datagram buffer size. \<open>Connect\<close> and \<open>CreateAh\<close> start with the loop around
  \<open>hrd_get_published_qp\<close>; the last argument of \<open>CreateAh\<close> is the port number of the handle. \<open>CheckPorts\<close> is the
  assertion of a worker on the number of server ports, \<open>MapRegion\<close> its \<open>shmget\<close> with a key and a size.
\<close>

datatype hs_call =
    InitCb int hs_cb nat int int bool int int int
  | ZeroBuf hs_cb
  | CheckPorts nat
  | MapRegion int int
  | PublishConn hs_cb nat string
  | PublishDgram hs_cb nat string
  | Connect hs_cb nat string
  | CreateAh hs_cb nat string nat
  | PublishReady string
  | WaitReady string

definition MASTER_P0_ID :: int where "MASTER_P0_ID = -22"

definition master_cb :: "nat \<Rightarrow> hs_cb" where
  "master_cb i = \<lparr>cb_index = i, cb_nconn = NUM_CLIENTS, cb_ndgram = 0\<rparr>"

text \<open>\<open>run_master\<close> with \<open>np\<close> server ports from \<open>base\<close> on and a region of \<open>rr_size\<close> bytes.\<close>

definition master_port :: "int \<Rightarrow> nat \<Rightarrow> nat \<Rightarrow> hs_call list" where
  "master_port rr_size base i =
     InitCb (MASTER_P0_ID + int i) (master_cb i) (base + i) 0 1 (i \<noteq> 0) rr_size (if i = 0 then MASTER_SHM_KEY else -1) 0
     # ZeroBuf (master_cb i)
     # map (\<lambda>j. PublishConn (master_cb i) j (master_name i j)) [0..<NUM_CLIENTS]"

definition master_client :: "nat \<Rightarrow> nat \<Rightarrow> hs_call list" where
  "master_client np c =
     [Connect (master_cb (c mod np)) c (client_conn_name c), PublishReady (master_name (c mod np) c)]"

definition master_calls :: "int \<Rightarrow> nat \<Rightarrow> nat \<Rightarrow> hs_call list" where
  "master_calls rr_size np base =
     concat (map (master_port rr_size base) [0..<np]) @ concat (map (master_client np) [0..<NUM_CLIENTS])"

text \<open>\<open>run_client\<close> up to its loop, with \<open>ncp\<close> ports of its own from \<open>base\<close> on.\<close>

definition client_cb :: hs_cb where
  "client_cb = \<lparr>cb_index = 0, cb_nconn = 1, cb_ndgram = 1\<rparr>"

definition client_calls :: "nat \<Rightarrow> nat \<Rightarrow> nat \<Rightarrow> nat \<Rightarrow> hs_call list" where
  "client_calls np ncp base clt_gid =
     (let ib_port_index = base + clt_gid mod ncp;
          srv_virt_port_index = clt_gid mod np;
          mstr_qp_name = master_name srv_virt_port_index clt_gid
      in
      [InitCb (int clt_gid) client_cb ib_port_index (-1) 1 False 4096 (-1) (int DGRAM_BUF_SIZE),
       PublishConn client_cb 0 (client_conn_name clt_gid),
       PublishDgram client_cb 0 (client_dgram_name clt_gid),
       Connect client_cb 0 mstr_qp_name,
       WaitReady mstr_qp_name])"

text \<open>\<open>run_worker\<close> up to its loop, with \<open>nud\<close> datagram queue pairs for each port.\<close>

definition worker_cb :: "nat \<Rightarrow> nat \<Rightarrow> hs_cb" where
  "worker_cb nud i = \<lparr>cb_index = i, cb_nconn = 0, cb_ndgram = nud\<rparr>"

definition worker_calls :: "int \<Rightarrow> nat \<Rightarrow> nat \<Rightarrow> nat \<Rightarrow> nat \<Rightarrow> hs_call list" where
  "worker_calls rr_size nud np base wrkr_lid =
     CheckPorts np
     # map (\<lambda>i. InitCb (int wrkr_lid) (worker_cb nud i) (base + i) (-1) 0 False 0 (-1) 4096) [0..<np]
     @ MapRegion MASTER_SHM_KEY rr_size
     # map (\<lambda>c. CreateAh (worker_cb nud (c mod np)) c (client_dgram_name c) (base + c mod np + 1)) [0..<NUM_CLIENTS]"

text \<open>The ws-sequencer: a smaller region and three datagram queue pairs for each port.\<close>

definition seq_master_calls :: "nat \<Rightarrow> nat \<Rightarrow> hs_call list" where
  "seq_master_calls np base = master_calls (int SEQ_RR_SIZE) np base"

definition seq_client_calls :: "nat \<Rightarrow> nat \<Rightarrow> nat \<Rightarrow> nat \<Rightarrow> hs_call list" where
  "seq_client_calls np ncp base clt_gid = client_calls np ncp base clt_gid"

definition seq_worker_calls :: "nat \<Rightarrow> nat \<Rightarrow> nat \<Rightarrow> hs_call list" where
  "seq_worker_calls np base wrkr_lid = worker_calls (int SEQ_RR_SIZE) (nat SEQ_NUM_UD_QPS) np base wrkr_lid"

subsection \<open>Execution\<close>

record hs_state =
  hs_todo :: "hs_thread \<Rightarrow> hs_call list"
  hs_reg :: "string \<Rightarrow> (hs_thread \<times> hs_qp) option"
  hs_ready :: "string \<Rightarrow> bool"
  hs_conn :: "hs_thread \<Rightarrow> nat \<Rightarrow> nat \<Rightarrow> (hs_thread \<times> hs_qp) option"
  hs_ah :: "hs_thread \<Rightarrow> nat \<Rightarrow> (nat \<times> nat \<times> hs_thread \<times> hs_qp) option"
  hs_region :: "int \<Rightarrow> int option"

text \<open>
  A call of thread \<open>t\<close>: \<open>None\<close> when it has to wait. \<open>hs_region\<close> are the shared memory segments, from key to size: a control block
  with connected queue pairs, a NUMA node and no preallocated buffer creates one, which must not exist; mapping one asserts that it exists and is large
  enough.
\<close>

fun hs_exec :: "hs_thread \<Rightarrow> hs_call \<Rightarrow> hs_state \<Rightarrow> hs_state res option" where
  "hs_exec t (InitCb hid cb port node uc prealloc csize ckey dsize) s =
     Some (bind_res (check_init_args (int port) node (int (cb_nconn cb)) uc (if prealloc then 1 else 0) csize ckey
       (int (cb_ndgram cb)) dsize) (\<lambda>_.
     if 1 \<le> cb_nconn cb \<and> \<not> prealloc \<and> 0 \<le> node
     then let reg_size = reg_size_loop csize 0 in
       bind_res (check (1 \<le> ckey \<and> ckey \<le> 128) AssertFail) (\<lambda>_.
       bind_res (check (hs_region s ckey = None \<and> 0 < reg_size) AssertFail) (\<lambda>_.
       Inr (s\<lparr>hs_region := (hs_region s)(ckey \<mapsto> reg_size)\<rparr>)))
     else Inr s))"
| "hs_exec t (ZeroBuf cb) s = Some (Inr s)"
| "hs_exec t (CheckPorts np) s = Some (bind_res (check (int np < MAX_SERVER_PORTS) AssertFail) (\<lambda>_. Inr s))"
| "hs_exec t (MapRegion key size0) s =
     Some (bind_res (check (case hs_region s key of None \<Rightarrow> False | Some n \<Rightarrow> size0 \<le> n) AssertFail) (\<lambda>_. Inr s))"
| "hs_exec t (PublishConn cb n qp_name) s =
     Some (bind_res (check (n < cb_nconn cb) AssertFail) (\<lambda>_.
           bind_res (check_qp_name qp_name) (\<lambda>_.
           Inr (s\<lparr>hs_reg := (hs_reg s)(qp_name \<mapsto> (t, HConn (cb_index cb) n))\<rparr>))))"
| "hs_exec t (PublishDgram cb n qp_name) s =
     Some (bind_res (check (n < cb_ndgram cb) AssertFail) (\<lambda>_.
           bind_res (check_qp_name qp_name) (\<lambda>_.
           Inr (s\<lparr>hs_reg := (hs_reg s)(qp_name \<mapsto> (t, HDgram (cb_index cb) n))\<rparr>))))"
| "hs_exec t (Connect cb n qp_name) s =
     (case check_qp_name qp_name of
        Inl e \<Rightarrow> Some (Inl e)
      | Inr _ \<Rightarrow>
          (case hs_reg s qp_name of
             None \<Rightarrow> None
           | Some remote \<Rightarrow>
               Some (bind_res (check (n < cb_nconn cb) AssertFail) (\<lambda>_.
                     Inr (s\<lparr>hs_conn := (hs_conn s)(t := (hs_conn s t)(cb_index cb := (hs_conn s t (cb_index cb))(n \<mapsto> remote)))\<rparr>)))))"
| "hs_exec t (CreateAh cb c qp_name pnum) s =
     (case check_qp_name qp_name of
        Inl e \<Rightarrow> Some (Inl e)
      | Inr _ \<Rightarrow>
          (case hs_reg s qp_name of
             None \<Rightarrow> None
           | Some remote \<Rightarrow> Some (Inr (s\<lparr>hs_ah := (hs_ah s)(t := (hs_ah s t)(c \<mapsto> (cb_index cb, pnum, remote)))\<rparr>))))"
| "hs_exec t (PublishReady qp_name) s =
     Some (bind_res (check (length qp_name < HRD_QP_NAME_SIZE) AssertFail) (\<lambda>_.
           Inr (s\<lparr>hs_ready := (hs_ready s)(qp_name := True)\<rparr>)))"
| "hs_exec t (WaitReady qp_name) s = (if hs_ready s qp_name then Some (Inr s) else None)"

text \<open>Any interleaving of the threads, each running its own calls. A call that fails ends its process and is no step.\<close>

definition hs_start :: "(hs_thread \<Rightarrow> hs_call list) \<Rightarrow> hs_state" where
  "hs_start prog = \<lparr>hs_todo = prog, hs_reg = (\<lambda>_. None), hs_ready = (\<lambda>_. False), hs_conn = (\<lambda>_ _ _. None), hs_ah = (\<lambda>_ _. None),
     hs_region = (\<lambda>_. None)\<rparr>"

inductive hs_step :: "hs_state \<Rightarrow> hs_state \<Rightarrow> bool" where
  hs_stepI: "hs_todo s t = a # as \<Longrightarrow> hs_exec t a s = Some (Inr s') \<Longrightarrow> hs_step s (s'\<lparr>hs_todo := (hs_todo s)(t := as)\<rparr>)"

text \<open>The whole system: one master, all clients and \<open>nw\<close> workers.\<close>

definition system_calls :: "int \<Rightarrow> nat \<Rightarrow> nat \<Rightarrow> nat \<Rightarrow> nat \<Rightarrow> nat \<Rightarrow> nat \<Rightarrow> hs_thread \<Rightarrow> hs_call list" where
  "system_calls rr_size nud nw np ncp base cbase t =
     (case t of
        TMaster \<Rightarrow> master_calls rr_size np base
      | TClient c \<Rightarrow> if c < NUM_CLIENTS then client_calls np ncp cbase c else []
      | TWorker w \<Rightarrow> if w < nw then worker_calls rr_size nud np base w else [])"

end
