(* ===== verification/Setup_Props.thy ===== *)
theory Setup_Props
  imports Setup Conn_Props "HOL-Library.Sublist"
begin

text \<open>
  The rendezvous of the threads: which queue pairs are connected when a client starts to send, and
  that every interleaving comes to an end. The locale \<open>rendezvous\<close> holds what any system of such
  threads relies on: a name is published for one queue pair only, a queue pair is connected
  under one name only, and a call that finds the names and the region it needs passes its checks.
\<close>

subsection \<open>Names\<close>

lemma dec_val: "foldl (\<lambda>a c. 10 * a + (of_char c - 48)) 0 (dec n) = n"
proof (induction n rule: dec.induct)
  case (1 n)
  show ?case
  proof (cases "n < 10")
    case True
    thus ?thesis by (simp add: dec.simps [of n] take_bit_nat_eq_self)
  next
    case False
    have "48 + n mod 10 < 256" using mod_less_divisor [of 10 n] by linarith
    hence "(of_char (char_of (48 + n mod 10) :: char) :: nat) = 48 + n mod 10" by simp
    thus ?thesis using 1 False by (simp add: dec.simps [of n])
  qed
qed

lemma dec_inj: "dec m = dec n \<longleftrightarrow> m = n"
  using dec_val by metis

lemma dec_digits: "c \<in> set (dec n) \<Longrightarrow> \<exists>d<10. c = char_of (48 + d :: nat)"
proof (induction n rule: dec.induct)
  case (1 n)
  show ?case
  proof (cases "n < 10")
    case True
    thus ?thesis using 1(2) by (auto simp: dec.simps [of n])
  next
    case False
    hence "c \<in> set (dec (n div 10)) \<or> c = char_of (48 + n mod 10)" using 1(2) by (auto simp: dec.simps [of n])
    thus ?thesis using 1(1) [OF False] by (metis mod_less_divisor zero_less_numeral)
  qed
qed

lemma digit_neq: "d < 10 \<Longrightarrow> of_char c < (48 :: nat) \<or> 57 < (of_char c :: nat) \<Longrightarrow> char_of (48 + d :: nat) \<noteq> c"
proof
  assume a: "d < 10" "of_char c < (48 :: nat) \<or> 57 < (of_char c :: nat)" "char_of (48 + d :: nat) = c"
  have "48 + d < 256" using a(1) by linarith
  hence "(of_char (char_of (48 + d) :: char) :: nat) = 48 + d" by simp
  hence "of_char c = 48 + d" using a(3) by simp
  thus False using a(1,2) by linarith
qed

lemma dec_not: "of_char c < (48 :: nat) \<or> 57 < (of_char c :: nat) \<Longrightarrow> c \<notin> set (dec n)"
  using dec_digits digit_neq by metis

lemma dec_special: "CHR ''-'' \<notin> set (dec n)" "CHR '' '' \<notin> set (dec n)" "CHR ''_'' \<notin> set (dec n)" "CHR 0x00 \<notin> set (dec n)"
  by (rule dec_not; simp)+

lemma dec_length: "n < 100 \<Longrightarrow> length (dec n) \<le> 2"
  by (simp add: dec.simps [of n] dec.simps [of "n div 10"])

lemma split_dash: "CHR ''-'' \<notin> set xs \<Longrightarrow> CHR ''-'' \<notin> set xs' \<Longrightarrow>
  xs @ CHR ''-'' # ys = xs' @ CHR ''-'' # ys' \<longleftrightarrow> xs = xs' \<and> ys = ys'"
proof (induction xs arbitrary: xs')
  case Nil
  thus ?case by (cases xs') auto
next
  case (Cons x xs)
  thus ?case by (cases xs') auto
qed

lemma master_name_inj: "master_name i j = master_name i' j' \<longleftrightarrow> i = i' \<and> j = j'"
  using split_dash [OF dec_special(1) [of i] dec_special(1) [of i'], of "dec j" "dec j'"]
  by (simp add: master_name_def dec_inj)

lemma names_inj:
  "client_conn_name c = client_conn_name c' \<longleftrightarrow> c = c'" "client_dgram_name c = client_dgram_name c' \<longleftrightarrow> c = c'"
  "client_conn_name c \<noteq> client_dgram_name c'" "client_conn_name c \<noteq> master_name i j" "client_dgram_name c \<noteq> master_name i j"
  "client_dgram_name c' \<noteq> client_conn_name c" "master_name i j \<noteq> client_conn_name c" "master_name i j \<noteq> client_dgram_name c"
  by (simp_all add: client_conn_name_def client_dgram_name_def master_name_def dec_inj)

lemma strstr_set: "strstr s pat \<Longrightarrow> set pat \<subseteq> set s"
proof (induction s pat rule: strstr.induct)
  case (2 c s pat)
  thus ?case using set_take_subset [of "length pat" "c # s"] by auto
qed simp

lemma check_name_ok:
  assumes "length nm < HRD_QP_NAME_SIZE - 1" "CHR ''_'' \<notin> set nm" "CHR '' '' \<notin> set nm"
  shows "check_qp_name nm = Inr ()"
proof -
  have "\<not> strstr nm HRD_RESERVED_NAME_PREFIX"
    using strstr_set [of nm HRD_RESERVED_NAME_PREFIX] assms(2) by (auto simp: HRD_RESERVED_NAME_PREFIX_def)
  thus ?thesis using assms by (auto simp: check_qp_name_Inr list_ex_iff)
qed

lemma names_ok:
  "c < 100 \<Longrightarrow> check_qp_name (client_conn_name c) = Inr ()"
  "c < 100 \<Longrightarrow> check_qp_name (client_dgram_name c) = Inr ()"
  "i < 100 \<Longrightarrow> c < 100 \<Longrightarrow> check_qp_name (master_name i c) = Inr ()"
  "i < 100 \<Longrightarrow> c < 100 \<Longrightarrow> length (master_name i c) < HRD_QP_NAME_SIZE"
  using dec_length [of c] dec_length [of i] dec_special [of c] dec_special [of i]
  by (auto intro!: check_name_ok simp: client_conn_name_def client_dgram_name_def master_name_def HRD_QP_NAME_SIZE_def)

subsection \<open>What a finished call has established\<close>

fun done_ok :: "hs_thread \<Rightarrow> hs_state \<Rightarrow> hs_call \<Rightarrow> bool" where
  "done_ok t s (PublishConn cb n nm) \<longleftrightarrow> hs_reg s nm = Some (t, HConn (cb_index cb) n)"
| "done_ok t s (PublishDgram cb n nm) \<longleftrightarrow> hs_reg s nm = Some (t, HDgram (cb_index cb) n)"
| "done_ok t s (Connect cb n nm) \<longleftrightarrow> hs_reg s nm \<noteq> None \<and> hs_conn s t (cb_index cb) n = hs_reg s nm"
| "done_ok t s (CreateAh cb c nm p) \<longleftrightarrow> (\<exists>e. hs_reg s nm = Some e \<and> hs_ah s t c = Some (cb_index cb, p, e))"
| "done_ok t s (PublishReady nm) \<longleftrightarrow> hs_ready s nm"
| "done_ok t s (WaitReady nm) \<longleftrightarrow> hs_ready s nm"
| "done_ok t s _ \<longleftrightarrow> True"

definition publishes :: "hs_call list \<Rightarrow> string \<Rightarrow> hs_qp \<Rightarrow> bool" where
  "publishes as nm q \<longleftrightarrow> (\<exists>cb n. PublishConn cb n nm \<in> set as \<and> q = HConn (cb_index cb) n
     \<or> PublishDgram cb n nm \<in> set as \<and> q = HDgram (cb_index cb) n)"

text \<open>What a call finds: the name it polls for is there, the region it maps is there, the one it creates is not.\<close>

fun no_wait :: "hs_state \<Rightarrow> hs_call \<Rightarrow> bool" where
  "no_wait s (Connect cb n nm) \<longleftrightarrow> hs_reg s nm \<noteq> None"
| "no_wait s (CreateAh cb c nm p) \<longleftrightarrow> hs_reg s nm \<noteq> None"
| "no_wait s (WaitReady nm) \<longleftrightarrow> hs_ready s nm"
| "no_wait s (MapRegion k z) \<longleftrightarrow> (case hs_region s k of None \<Rightarrow> False | Some n \<Rightarrow> z \<le> n)"
| "no_wait s (InitCb hid cb port node uc pre csize ckey dsize) \<longleftrightarrow>
     (1 \<le> cb_nconn cb \<and> \<not> pre \<and> 0 \<le> node \<longrightarrow> hs_region s ckey = None)"
| "no_wait s _ \<longleftrightarrow> True"

lemma no_wait_exec: "no_wait s a \<Longrightarrow> hs_exec t a s \<noteq> None"
  by (cases a) (auto split: sum.splits option.splits)

text \<open>The key of the segment that a call creates.\<close>

fun creates :: "hs_call \<Rightarrow> int option" where
  "creates (InitCb hid cb port node uc pre csize ckey dsize) = (if 1 \<le> cb_nconn cb \<and> \<not> pre \<and> 0 \<le> node then Some ckey else None)"
| "creates _ = None"

lemma exec_region: "hs_exec t a s = Some (Inr s') \<Longrightarrow> creates a = None \<Longrightarrow> hs_region s' = hs_region s"
  by (cases a) (auto simp: res_simps Let_def split: sum.splits option.splits if_splits)

lemma no_wait_init: "creates a = None \<Longrightarrow> no_wait s a \<or> (\<exists>cb n nm p k z. a = Connect cb n nm \<or> a = CreateAh cb n nm p \<or> a = WaitReady nm \<or> a = MapRegion k z)"
  by (cases a) (auto split: if_splits)

text \<open>The call passes its checks in every state in which it finds what it needs.\<close>

definition call_ok :: "hs_call \<Rightarrow> bool" where
  "call_ok a \<longleftrightarrow> (\<forall>t s e. no_wait s a \<longrightarrow> hs_exec t a s \<noteq> Some (Inl e))"

text \<open>Apart from the calls on the region, such a call passes its checks in every state.\<close>

lemma call_ok_always:
  assumes "call_ok a" "creates a = None" "\<nexists>k z. a = MapRegion k z"
  shows "hs_exec t a s \<noteq> Some (Inl e)"
proof (cases "no_wait s a")
  case True
  thus ?thesis using assms(1) by (simp add: call_ok_def)
next
  case False
  let ?s = "s\<lparr>hs_reg := (\<lambda>_. Some (t, HConn 0 0)), hs_ready := (\<lambda>_. True)\<rparr>"
  have "hs_exec t a ?s \<noteq> Some (Inl e)" if "no_wait ?s a" using that assms(1) by (simp add: call_ok_def)
  thus ?thesis using False assms(2,3) by (cases a) (auto split: sum.splits option.splits if_splits)
qed

lemma done_ok_todo [simp]: "done_ok t (s\<lparr>hs_todo := f\<rparr>) a = done_ok t s a"
  by (cases a) auto

lemma exec_done: "hs_exec t a s = Some (Inr s') \<Longrightarrow> done_ok t s' a"
  by (cases a) (auto simp: res_simps Let_def split: sum.splits option.splits if_splits)

locale rendezvous =
  fixes prog :: "hs_thread \<Rightarrow> hs_call list"
  assumes pub_unique: "publishes (prog t) nm q \<Longrightarrow> publishes (prog t') nm q' \<Longrightarrow> t = t' \<and> q = q'"
    and conn_unique: "Connect cb n nm \<in> set (prog t) \<Longrightarrow> Connect cb' n nm' \<in> set (prog t) \<Longrightarrow>
      cb_index cb = cb_index cb' \<Longrightarrow> nm = nm'"
    and ah_unique: "CreateAh cb c nm p \<in> set (prog t) \<Longrightarrow> CreateAh cb' c nm' p' \<in> set (prog t) \<Longrightarrow>
      cb = cb' \<and> nm = nm' \<and> p = p'"
    and checks: "a \<in> set (prog t) \<Longrightarrow> call_ok a"
begin

definition reg_sound :: "hs_state \<Rightarrow> bool" where
  "reg_sound s \<longleftrightarrow> (\<forall>nm t q. hs_reg s nm = Some (t, q) \<longrightarrow> publishes (prog t) nm q)"

text \<open>What is in the registry stays there.\<close>

lemma reg_mono:
  assumes "reg_sound s" "a \<in> set (prog t)" "hs_exec t a s = Some (Inr s')" "hs_reg s nm = Some e"
  shows "hs_reg s' nm = Some e"
proof -
  obtain t0 q where e: "e = (t0, q)" by (cases e)
  have p: "publishes (prog t0) nm q" using assms(1,4) by (simp add: reg_sound_def e)
  show ?thesis
  proof (cases a)
    case (PublishConn cb n nm')
    hence "publishes (prog t) nm' (HConn (cb_index cb) n)" using assms(2) by (auto simp: publishes_def)
    thus ?thesis using PublishConn assms(3,4) e pub_unique [OF p] by (auto simp: res_simps)
  next
    case (PublishDgram cb n nm')
    hence "publishes (prog t) nm' (HDgram (cb_index cb) n)" using assms(2) by (auto simp: publishes_def)
    thus ?thesis using PublishDgram assms(3,4) e pub_unique [OF p] by (auto simp: res_simps)
  qed (use assms(3,4) in \<open>auto simp: res_simps Let_def split: sum.splits option.splits if_splits\<close>)
qed

lemma reg_sound_step:
  assumes "reg_sound s" "a \<in> set (prog t)" "hs_exec t a s = Some (Inr s')"
  shows "reg_sound s'"
  using assms
  by (cases a) (auto simp: reg_sound_def publishes_def res_simps Let_def split: sum.splits option.splits if_splits)

lemma conn_keep:
  assumes "a \<in> set (prog t)" "hs_exec t a s = Some (Inr s')"
    and "Connect cb n nm \<in> set (prog t')" "hs_reg s nm = Some e" "hs_conn s t' (cb_index cb) n = Some e"
  shows "hs_conn s' t' (cb_index cb) n = Some e"
proof (cases a)
  case (Connect cb' n' nm')
  then obtain e' where e': "hs_reg s nm' = Some e'"
    "s' = s\<lparr>hs_conn := (hs_conn s)(t := (hs_conn s t)(cb_index cb' := (hs_conn s t (cb_index cb'))(n' \<mapsto> e')))\<rparr>"
    using assms(2) by (auto simp: res_simps split: sum.splits option.splits)
  have "nm' = nm" if "t = t'" "cb_index cb' = cb_index cb" "n' = n"
    using conn_unique [of cb' n nm' t' cb nm] that assms(1,3) Connect by simp
  thus ?thesis using e' assms(4,5) by auto
qed (use assms(2,5) in \<open>auto simp: res_simps Let_def split: sum.splits option.splits if_splits\<close>)

lemma ah_keep:
  assumes "a \<in> set (prog t)" "hs_exec t a s = Some (Inr s')"
    and "CreateAh cb c nm p \<in> set (prog t')" "hs_reg s nm = Some e" "hs_ah s t' c = Some (cb_index cb, p, e)"
  shows "hs_ah s' t' c = Some (cb_index cb, p, e)"
proof (cases a)
  case (CreateAh cb' c' nm' p')
  then obtain e' where e': "hs_reg s nm' = Some e'" "s' = s\<lparr>hs_ah := (hs_ah s)(t := (hs_ah s t)(c' \<mapsto> (cb_index cb', p', e')))\<rparr>"
    using assms(2) by (auto simp: res_simps split: sum.splits option.splits)
  have "cb' = cb \<and> nm' = nm \<and> p' = p" if "t = t'" "c' = c"
    using ah_unique [of cb' c nm' p' t' cb nm p] that assms(1,3) CreateAh by simp
  thus ?thesis using e' assms(4,5) by auto
qed (use assms(2,5) in \<open>auto simp: res_simps Let_def split: sum.splits option.splits if_splits\<close>)

lemma ready_keep: "hs_exec t a s = Some (Inr s') \<Longrightarrow> hs_ready s nm \<Longrightarrow> hs_ready s' nm"
  by (cases a) (auto simp: res_simps Let_def split: sum.splits option.splits if_splits)

lemma done_keep:
  assumes "reg_sound s" "a \<in> set (prog t)" "hs_exec t a s = Some (Inr s')" "b \<in> set (prog t')" "done_ok t' s b"
  shows "done_ok t' s' b"
proof (cases b)
  case (Connect cb n nm)
  then obtain e where "hs_reg s nm = Some e" "hs_conn s t' (cb_index cb) n = Some e" using assms(5) by auto
  thus ?thesis using Connect reg_mono [OF assms(1-3)] conn_keep [OF assms(2,3)] assms(4) by auto
next
  case (CreateAh cb c nm p)
  then obtain e where "hs_reg s nm = Some e" "hs_ah s t' c = Some (cb_index cb, p, e)" using assms(5) by auto
  thus ?thesis using CreateAh reg_mono [OF assms(1-3)] ah_keep [OF assms(2,3)] assms(4) by auto
qed (use assms(5) reg_mono [OF assms(1-3)] ready_keep [OF assms(3)] in auto)

definition hs_inv :: "hs_state \<Rightarrow> bool" where
  "hs_inv s \<longleftrightarrow> reg_sound s \<and> (\<forall>t. \<exists>d. prog t = d @ hs_todo s t \<and> (\<forall>b\<in>set d. done_ok t s b))
     \<and> (\<forall>nm. hs_ready s nm \<longrightarrow> (\<exists>t d as. prog t = d @ PublishReady nm # as \<and> (\<forall>b\<in>set d. done_ok t s b)))"

lemma hs_invD:
  assumes "hs_inv s"
  shows "reg_sound s" "\<exists>d. prog t = d @ hs_todo s t \<and> (\<forall>b\<in>set d. done_ok t s b)"
    "hs_ready s nm \<Longrightarrow> \<exists>t d as. prog t = d @ PublishReady nm # as \<and> (\<forall>b\<in>set d. done_ok t s b)"
  using assms unfolding hs_inv_def by blast+

lemma hs_inv_start: "hs_inv (hs_start prog)"
  by (simp add: hs_inv_def hs_start_def reg_sound_def)

lemma new_ready:
  assumes "hs_exec t a s = Some (Inr s')" "hs_ready s' nm" "\<not> hs_ready s nm"
  shows "a = PublishReady nm"
  using assms by (cases a) (auto simp: res_simps Let_def split: sum.splits option.splits if_splits)

lemma hs_inv_step:
  assumes inv: "hs_inv s" and todo: "hs_todo s t = a # as" and ex: "hs_exec t a s = Some (Inr s')"
  shows "hs_inv (s'\<lparr>hs_todo := (hs_todo s)(t := as)\<rparr>)" (is "hs_inv ?s")
proof -
  obtain d where d: "prog t = d @ a # as" "\<forall>b\<in>set d. done_ok t s b" using hs_invD(2) [OF inv, of t] todo by auto
  have a: "a \<in> set (prog t)" by (simp add: d(1))
  note keep = done_keep [OF hs_invD(1) [OF inv] a ex]
  have dk: "\<forall>b\<in>set d. done_ok t ?s b" using d keep by simp
  show ?thesis unfolding hs_inv_def
  proof (intro conjI allI impI)
    show "reg_sound ?s" using reg_sound_step [OF hs_invD(1) [OF inv] a ex] by (simp add: reg_sound_def)
    show "\<exists>d. prog t' = d @ hs_todo ?s t' \<and> (\<forall>b\<in>set d. done_ok t' ?s b)" for t'
    proof (cases "t' = t")
      case True
      have "done_ok t ?s a" using exec_done [OF ex] by simp
      thus ?thesis using True d(1) dk by (intro exI [of _ "d @ [a]"]) auto
    next
      case False
      obtain d' where d': "prog t' = d' @ hs_todo s t'" "\<forall>b\<in>set d'. done_ok t' s b" using hs_invD(2) [OF inv] by blast
      thus ?thesis using False keep by (intro exI [of _ d']) auto
    qed
    show "\<exists>t d as. prog t = d @ PublishReady nm # as \<and> (\<forall>b\<in>set d. done_ok t ?s b)" if r: "hs_ready ?s nm" for nm
    proof (cases "hs_ready s nm")
      case True
      then obtain t' d' as' where d': "prog t' = d' @ PublishReady nm # as'" "\<forall>b\<in>set d'. done_ok t' s b"
        using hs_invD(3) [OF inv] by blast
      thus ?thesis using keep by (intro exI [of _ t'] exI [of _ d'] exI [of _ as']) auto
    next
      case False
      hence "a = PublishReady nm" using new_ready [OF ex] r by simp
      thus ?thesis using d(1) dk by blast
    qed
  qed
qed

lemma reach_inv:
  assumes "hs_step\<^sup>*\<^sup>* (hs_start prog) s"
  shows "hs_inv s"
  using assms
proof induction
  case base
  show ?case by (rule hs_inv_start)
next
  case (step s s')
  thus ?case by (auto elim!: hs_step.cases intro: hs_inv_step)
qed

text \<open>Calls of finished threads have taken effect, and a call that does not have to wait can run.\<close>

lemma finished_done:
  assumes "hs_inv s" "hs_todo s t = []" "a \<in> set (prog t)"
  shows "done_ok t s a"
  using hs_invD(2) [OF assms(1), of t] assms(2,3) by auto

lemma published:
  assumes "hs_inv s" "publishes (prog t) nm q" "hs_reg s nm = Some e"
  shows "e = (t, q)"
proof (cases e)
  case (Pair t' q')
  hence "publishes (prog t') nm q'" using hs_invD(1) [OF assms(1)] assms(3) by (simp add: reg_sound_def)
  thus ?thesis using pub_unique [OF _ assms(2)] Pair by blast
qed

lemma can_run:
  assumes "hs_todo s t = a # as" "a \<in> set (prog t)" "no_wait s a"
  shows "\<exists>s'. hs_step s s' \<and> hs_todo s' = (hs_todo s)(t := as)"
proof -
  obtain s' where "hs_exec t a s = Some (Inr s')" using checks [OF assms(2)] assms(3) no_wait_exec [OF assms(3)] by (auto simp: call_ok_def) (metis sum.exhaust)
  thus ?thesis using hs_stepI [OF assms(1)] by fastforce
qed

end

subsection \<open>The calls of the two programs\<close>

definition setup_ok :: "int \<Rightarrow> nat \<Rightarrow> nat \<Rightarrow> nat \<Rightarrow> nat \<Rightarrow> nat \<Rightarrow> bool" where
  "setup_ok rr_size nud np ncp base cbase \<longleftrightarrow> 1 \<le> rr_size \<and> rr_size \<le> M_1024 \<and> 1 \<le> nud \<and> nud \<le> 8
     \<and> 1 \<le> np \<and> np \<le> 3 \<and> 1 \<le> ncp \<and> ncp \<le> 8 \<and> base \<le> 8 \<and> cbase \<le> 8"

lemma in_master_publish:
  "PublishConn cb n nm \<in> set (master_calls rr np base) \<longleftrightarrow> (\<exists>i<np. cb = master_cb i \<and> n < NUM_CLIENTS \<and> nm = master_name i n)"
  (is "?l \<longleftrightarrow> ?r")
proof
  show "?l \<Longrightarrow> ?r" by (auto simp: master_calls_def master_port_def master_client_def)
next
  assume ?r
  then obtain i where i: "i < np" "cb = master_cb i" "n < NUM_CLIENTS" "nm = master_name i n" by blast
  hence "PublishConn cb n nm \<in> set (master_port rr base i)" by (auto simp: master_port_def)
  thus ?l using i(1) by (auto simp: master_calls_def)
qed

lemma in_master_calls:
  "Connect cb n nm \<in> set (master_calls rr np base) \<longleftrightarrow> n < NUM_CLIENTS \<and> cb = master_cb (n mod np) \<and> nm = client_conn_name n"
  "PublishReady nm \<in> set (master_calls rr np base) \<longleftrightarrow> (\<exists>c<NUM_CLIENTS. nm = master_name (c mod np) c)"
  "PublishDgram cb n nm \<notin> set (master_calls rr np base)" "CreateAh cb n nm p \<notin> set (master_calls rr np base)"
  "WaitReady nm \<notin> set (master_calls rr np base)" "MapRegion k z \<notin> set (master_calls rr np base)"
  by (auto simp: master_calls_def master_port_def master_client_def)

lemma in_worker_calls:
  "CreateAh cb c nm p \<in> set (worker_calls rr nud np base w) \<longleftrightarrow>
     c < NUM_CLIENTS \<and> cb = worker_cb nud (c mod np) \<and> nm = client_dgram_name c \<and> p = base + c mod np + 1"
  "PublishConn cb n nm \<notin> set (worker_calls rr nud np base w)" "PublishDgram cb n nm \<notin> set (worker_calls rr nud np base w)"
  "Connect cb n nm \<notin> set (worker_calls rr nud np base w)" "WaitReady nm \<notin> set (worker_calls rr nud np base w)"
  "PublishReady nm \<notin> set (worker_calls rr nud np base w)"
  "MapRegion k z \<in> set (worker_calls rr nud np base w) \<longleftrightarrow> k = MASTER_SHM_KEY \<and> z = rr"
  by (auto simp: worker_calls_def)

lemma clients_lt_100: "c < NUM_CLIENTS \<Longrightarrow> c < 100" by (simp add: NUM_CLIENTS_def)

lemma call_okI:
  "check_init_args (int port) node (int (cb_nconn cb)) uc (if pre then 1 else 0) csize ckey (int (cb_ndgram cb)) dsize = Inr () \<Longrightarrow>
     (1 \<le> cb_nconn cb \<and> \<not> pre \<and> 0 \<le> node \<longrightarrow> 1 \<le> ckey \<and> ckey \<le> 128 \<and> 0 < reg_size_loop csize 0) \<Longrightarrow>
     call_ok (InitCb hid cb port node uc pre csize ckey dsize)"
  "call_ok (ZeroBuf cb)" "call_ok (MapRegion k z)" "call_ok (WaitReady nm)"
  "n < cb_nconn cb \<Longrightarrow> check_qp_name nm = Inr () \<Longrightarrow> call_ok (PublishConn cb n nm)"
  "n < cb_ndgram cb \<Longrightarrow> check_qp_name nm = Inr () \<Longrightarrow> call_ok (PublishDgram cb n nm)"
  "n < cb_nconn cb \<Longrightarrow> check_qp_name nm = Inr () \<Longrightarrow> call_ok (Connect cb n nm)"
  "check_qp_name nm = Inr () \<Longrightarrow> call_ok (CreateAh cb c nm p)"
  "length nm < HRD_QP_NAME_SIZE \<Longrightarrow> call_ok (PublishReady nm)"
  "int np < MAX_SERVER_PORTS \<Longrightarrow> call_ok (CheckPorts np)"
  by (auto simp: call_ok_def Let_def split: option.splits if_splits)

text \<open>The segment is as large as asked for.\<close>

lemma reg_size_ge: "0 \<le> z \<Longrightarrow> z \<le> reg_size_loop z 0"
  using reg_size_loop_spec [of 0 z] by (simp add: K_128_def)

lemma master_calls_ok:
  assumes "setup_ok rr nud np ncp base cbase" "a \<in> set (master_calls rr np base)"
  shows "call_ok a"
proof -
  have np: "1 \<le> np" "np \<le> 3" using assms(1) by (simp_all add: setup_ok_def)
  have m: "c mod np < 100" for c using np mod_less_divisor [of np c] by linarith
  consider i where "i < np" "a \<in> set (master_port rr base i)" | c where "c < NUM_CLIENTS" "a \<in> set (master_client np c)"
    using assms(2) by (auto simp: master_calls_def)
  thus ?thesis
  proof cases
    case 1
    moreover have "0 < reg_size_loop rr 0" using assms(1) reg_size_ge [of rr] by (simp add: setup_ok_def)
    ultimately show ?thesis using assms(1) clients_lt_100
      by (auto simp: master_port_def master_cb_def setup_ok_def check_init_args_def M_1024_def M_2_def NUM_CLIENTS_def MASTER_SHM_KEY_def
          intro!: call_okI names_ok)
  next
    case 2
    thus ?thesis using clients_lt_100 m by (auto simp: master_client_def master_cb_def intro!: call_okI names_ok)
  qed
qed

lemma client_calls_ok:
  assumes "setup_ok rr nud np ncp base cbase" "c < NUM_CLIENTS" "a \<in> set (client_calls np ncp cbase c)"
  shows "call_ok a"
proof -
  have np: "1 \<le> np" "np \<le> 3" "1 \<le> ncp" "ncp \<le> 8" "cbase \<le> 8" using assms(1) by (simp_all add: setup_ok_def)
  have m: "c mod np < 100" using np mod_less_divisor [of np c] by linarith
  have p: "cbase + c mod ncp \<le> 16" using np mod_less_divisor [of ncp c] by linarith
  show ?thesis using assms(3) m p clients_lt_100 [OF assms(2)]
    by (auto simp: client_calls_def client_cb_def Let_def check_init_args_def M_1024_def M_2_def DGRAM_BUF_SIZE_def
        intro!: call_okI names_ok)
qed

lemma worker_calls_ok:
  assumes "setup_ok rr nud np ncp base cbase" "a \<in> set (worker_calls rr nud np base w)"
  shows "call_ok a"
  using assms clients_lt_100
  by (auto simp: worker_calls_def worker_cb_def setup_ok_def check_init_args_def M_1024_def M_2_def MAX_SERVER_PORTS_def intro!: call_okI names_ok)

lemma system_rendezvous:
  assumes ok: "setup_ok rr nud np ncp base cbase"
  shows "rendezvous (system_calls rr nud nw np ncp base cbase)"
proof
  let ?p = "system_calls rr nud nw np ncp base cbase"
  have pub: "publishes (?p t) nm q \<Longrightarrow>
      (\<exists>i<np. \<exists>n<NUM_CLIENTS. t = TMaster \<and> nm = master_name i n \<and> q = HConn i n)
      \<or> (\<exists>c<NUM_CLIENTS. t = TClient c \<and> (nm = client_conn_name c \<and> q = HConn 0 0 \<or> nm = client_dgram_name c \<and> q = HDgram 0 0))" for t nm q
    by (cases t) (auto simp: system_calls_def publishes_def in_master_publish in_master_calls in_worker_calls
        client_calls_def Let_def master_cb_def client_cb_def split: if_splits)
  show "t = t' \<and> q = q'" if "publishes (?p t) nm q" "publishes (?p t') nm q'" for t t' nm q q'
    using pub [OF that(1)] pub [OF that(2)] by (auto simp: master_name_inj names_inj)
  show "nm = nm'" if "Connect cb n nm \<in> set (?p t)" "Connect cb' n nm' \<in> set (?p t)" for cb cb' n nm nm' t
    using that by (cases t) (auto simp: system_calls_def in_master_calls in_worker_calls client_calls_def Let_def split: if_splits)
  show "cb = cb' \<and> nm = nm' \<and> p = p'" if "CreateAh cb c nm p \<in> set (?p t)" "CreateAh cb' c nm' p' \<in> set (?p t)" for cb c nm p cb' nm' p' t
    using that by (cases t) (auto simp: system_calls_def in_master_calls in_worker_calls client_calls_def Let_def split: if_splits)
  show "call_ok a" if "a \<in> set (?p t)" for a t
    using that master_calls_ok [OF ok] client_calls_ok [OF ok] worker_calls_ok [OF ok]
    by (cases t) (auto simp: system_calls_def split: if_splits)
qed

text \<open>The setups of the two programs, with two server ports and two client ports.\<close>

interpretation herd_setup: rendezvous "system_calls RR_SIZE (nat NUM_UD_QPS) NUM_WORKERS 2 2 0 0"
  by (rule system_rendezvous) (simp add: setup_ok_def RR_SIZE_def M_1024_def NUM_UD_QPS_def)

interpretation seq_setup: rendezvous "system_calls (int SEQ_RR_SIZE) (nat SEQ_NUM_UD_QPS) SEQ_NUM_WORKERS 2 2 0 0"
  by (rule system_rendezvous) (simp add: setup_ok_def SEQ_RR_SIZE_def M_1024_def SEQ_NUM_UD_QPS_def)

lemma seq_system_calls:
  "system_calls (int SEQ_RR_SIZE) (nat SEQ_NUM_UD_QPS) nw np ncp base cbase t =
     (case t of
        TMaster \<Rightarrow> seq_master_calls np base
      | TClient c \<Rightarrow> if c < NUM_CLIENTS then seq_client_calls np ncp cbase c else []
      | TWorker w \<Rightarrow> if w < nw then seq_worker_calls np base w else [])"
  by (simp add: system_calls_def seq_master_calls_def seq_client_calls_def seq_worker_calls_def split: hs_thread.splits)

subsection \<open>A ready announcement follows the connection\<close>

lemma ready_after_connect:
  assumes "P @ concat (map (\<lambda>c. [f c, g c]) cs) = d @ g c # as"
    and "\<And>c. g c \<notin> set P" "\<And>x y. f x \<noteq> g y" "\<And>x y. g x = g y \<Longrightarrow> f x = f y"
  shows "f c \<in> set d"
  using assms(1)
proof (induction cs arbitrary: as rule: rev_induct)
  case Nil
  hence "g c \<in> set P" by simp
  thus ?case using assms(2) by blast
next
  case (snoc x cs)
  let ?xs = "P @ concat (map (\<lambda>c. [f c, g c]) cs)"
  have e: "?xs @ [f x, g x] = d @ g c # as" using snoc.prems by simp
  show ?case
  proof (cases as rule: rev_cases)
    case Nil
    hence "d = ?xs @ [f x]" "g c = g x" using e by auto
    thus ?thesis using assms(4) by (metis in_set_conv_decomp)
  next
    case (snoc as' y)
    hence e': "?xs @ [f x] = d @ g c # as'" using e by auto
    show ?thesis
    proof (cases as' rule: rev_cases)
      case Nil
      hence "f x = g c" using e' by auto
      thus ?thesis using assms(3) by blast
    next
      case (snoc as'' z)
      hence "?xs = d @ g c # as''" using e' by auto
      thus ?thesis using \<open>\<And>as. ?xs = d @ g c # as \<Longrightarrow> f c \<in> set d\<close> by blast
    qed
  qed
qed

lemma master_ready:
  assumes "master_calls rr np base = d @ PublishReady (master_name (c mod np) c) # as"
  shows "Connect (master_cb (c mod np)) c (client_conn_name c) \<in> set d"
proof (rule ready_after_connect [where g = "\<lambda>c. PublishReady (master_name (c mod np) c)" and cs = "[0..<NUM_CLIENTS]"
      and P = "concat (map (master_port rr base) [0..<np])" and as = as])
  show "concat (map (master_port rr base) [0..<np]) @ concat (map (\<lambda>c. [Connect (master_cb (c mod np)) c (client_conn_name c),
      PublishReady (master_name (c mod np) c)]) [0..<NUM_CLIENTS]) = d @ PublishReady (master_name (c mod np) c) # as"
    using assms unfolding master_calls_def master_client_def [abs_def] .
qed (auto simp: master_port_def master_name_inj)

subsection \<open>Progress\<close>

lemma client_calls_split:
  "\<exists>i p1 p2 x y. client_calls np ncp base c = [i, p1, p2, x, y] \<and> i = InitCb (int c) client_cb (base + c mod ncp) (-1) 1 False 4096 (-1) (int DGRAM_BUF_SIZE)
     \<and> p1 = PublishConn client_cb 0 (client_conn_name c) \<and> p2 = PublishDgram client_cb 0 (client_dgram_name c)"
  by (simp add: client_calls_def Let_def)

context rendezvous
begin

lemma can_proceed:
  assumes "hs_inv s" "hs_todo s t = a # as" "no_wait s a"
  shows "\<exists>s'. hs_step s s' \<and> hs_todo s' = (hs_todo s)(t := as)"
proof -
  have "a \<in> set (prog t)" using hs_invD(2) [OF assms(1), of t] assms(2) by auto
  thus ?thesis using can_run [OF assms(2)] assms(3) by blast
qed

lemma todo_subset: "hs_inv s \<Longrightarrow> hs_todo s t = a # as \<Longrightarrow> a \<in> set (prog t)"
  using hs_invD(2) [of s t] by auto

end

text \<open>A client that has not published its queue pairs can go on; one that has, has two calls left at most.\<close>

lemma client_publishes:
  assumes ok: "setup_ok rr nud np ncp base cbase" and c: "c < NUM_CLIENTS"
    and inv: "rendezvous.hs_inv (system_calls rr nud nw np ncp base cbase) s"
  shows "(\<exists>s'. hs_step s s' \<and> hs_todo s' = (hs_todo s)(TClient c := tl (hs_todo s (TClient c))) \<and> hs_todo s (TClient c) \<noteq> [])
    \<or> hs_reg s (client_conn_name c) \<noteq> None \<and> hs_reg s (client_dgram_name c) \<noteq> None"
proof -
  note r = system_rendezvous [OF ok, where nw = nw]
  obtain i p1 p2 x y where cc: "client_calls np ncp cbase c = [i, p1, p2, x, y]"
    "i = InitCb (int c) client_cb (cbase + c mod ncp) (-1) 1 False 4096 (-1) (int DGRAM_BUF_SIZE)"
    "p1 = PublishConn client_cb 0 (client_conn_name c)" "p2 = PublishDgram client_cb 0 (client_dgram_name c)"
    using client_calls_split by metis
  obtain d where d: "[i, p1, p2, x, y] = d @ hs_todo s (TClient c)" "\<forall>b\<in>set d. done_ok (TClient c) s b"
    using rendezvous.hs_invD(2) [OF r inv, of "TClient c"] c cc(1) by (auto simp: system_calls_def)
  show ?thesis
  proof (cases "p1 \<in> set d \<and> p2 \<in> set d")
    case True
    hence "done_ok (TClient c) s p1" "done_ok (TClient c) s p2" using d(2) by blast+
    thus ?thesis using cc(3,4) by simp
  next
    case False
    have "\<exists>a as. hs_todo s (TClient c) = a # as \<and> a \<in> {i, p1, p2}"
      using d(1) [symmetric] False by (auto simp: append_eq_Cons_conv)
    then obtain a as where a: "hs_todo s (TClient c) = a # as" "a \<in> {i, p1, p2}" by blast
    have "no_wait s a" using a(2) cc(2-4) by auto
    thus ?thesis using rendezvous.can_proceed [OF r inv a(1)] a(1) by auto
  qed
qed

text \<open>The region is created by the first call of the master, and by no other call.\<close>

lemma master_first:
  assumes "1 \<le> np"
  shows "\<exists>rest. master_calls rr np base = InitCb MASTER_P0_ID (master_cb 0) base 0 1 False rr MASTER_SHM_KEY 0 # rest
    \<and> (\<forall>a\<in>set rest. creates a = None)"
proof -
  have u: "[0..<np] = 0 # [1..<np]" using assms by (simp add: upt_conv_Cons)
  let ?rest = "ZeroBuf (master_cb 0) # map (\<lambda>j. PublishConn (master_cb 0) j (master_name 0 j)) [0..<NUM_CLIENTS]
    @ concat (map (master_port rr base) [1..<np]) @ concat (map (master_client np) [0..<NUM_CLIENTS])"
  have "master_calls rr np base = InitCb MASTER_P0_ID (master_cb 0) base 0 1 False rr MASTER_SHM_KEY 0 # ?rest"
    by (simp add: master_calls_def u master_port_def [of rr base 0])
  moreover have "\<forall>a\<in>set ?rest. creates a = None" by (auto simp: master_port_def master_client_def)
  ultimately show ?thesis by blast
qed

lemma others_create_nothing:
  assumes "t \<noteq> TMaster" "a \<in> set (system_calls rr nud nw np ncp base cbase t)"
  shows "creates a = None"
  using assms by (cases t) (auto simp: system_calls_def client_calls_def worker_calls_def worker_cb_def Let_def split: if_splits)

lemma system_region:
  assumes ok: "setup_ok rr nud np ncp base cbase" and s: "hs_step\<^sup>*\<^sup>* (hs_start (system_calls rr nud nw np ncp base cbase)) s"
  shows "hs_region s MASTER_SHM_KEY = (if hs_todo s TMaster = master_calls rr np base then None else Some (reg_size_loop rr 0))"
  using s
proof induction
  case base
  show ?case by (simp add: hs_start_def system_calls_def)
next
  case (step s s2)
  let ?p = "system_calls rr nud nw np ncp base cbase"
  note r = system_rendezvous [OF ok, where nw = nw]
  note inv = rendezvous.reach_inv [OF r step.hyps(1)]
  obtain t a as s' where st: "hs_todo s t = a # as" "hs_exec t a s = Some (Inr s')" "s2 = s'\<lparr>hs_todo := (hs_todo s)(t := as)\<rparr>"
    using step.hyps(2) by (auto elim: hs_step.cases)
  obtain d where d: "?p t = d @ a # as" using rendezvous.hs_invD(2) [OF r inv, of t] st(1) by auto
  have mem: "a \<in> set (?p t)" by (simp add: d)
  show ?case
  proof (cases "t = TMaster")
    case False
    hence "hs_region s' = hs_region s" using exec_region [OF st(2) others_create_nothing [OF False mem]] by blast
    thus ?thesis using step.IH st(3) False by simp
  next
    case True
    obtain rest where m: "master_calls rr np base = InitCb MASTER_P0_ID (master_cb 0) base 0 1 False rr MASTER_SHM_KEY 0 # rest"
      "\<forall>a\<in>set rest. creates a = None" using master_first [of np rr base] ok unfolding setup_ok_def by blast
    have pm: "master_calls rr np base = d @ a # as" using d True by (simp add: system_calls_def)
    hence "as \<noteq> master_calls rr np base" by (metis append_eq_append_conv2 length_Cons length_append not_add_less2 lessI add_Suc_right)
    moreover have "hs_region s' MASTER_SHM_KEY = Some (reg_size_loop rr 0)"
    proof (cases d)
      case Nil
      thus ?thesis using pm m(1) st(2) by (auto simp: master_cb_def NUM_CLIENTS_def res_simps Let_def split: if_splits)
    next
      case (Cons x d')
      hence "creates a = None" "hs_todo s TMaster \<noteq> master_calls rr np base" using pm m st(1) True by auto
      thus ?thesis using exec_region [OF st(2)] step.IH by simp
    qed
    ultimately show ?thesis using st(3) True by simp
  qed
qed

lemma creator_no_wait:
  assumes ok: "setup_ok rr nud np ncp base cbase" and s: "hs_step\<^sup>*\<^sup>* (hs_start (system_calls rr nud nw np ncp base cbase)) s"
    and t: "hs_todo s t = a # as" and cr: "creates a \<noteq> None"
  shows "no_wait s a"
proof -
  note r = system_rendezvous [OF ok, where nw = nw]
  note inv = rendezvous.reach_inv [OF r s]
  have "a \<in> set (system_calls rr nud nw np ncp base cbase t)" by (rule rendezvous.todo_subset [OF r inv t])
  hence tm: "t = TMaster" using others_create_nothing cr by metis
  obtain d where d: "master_calls rr np base = d @ a # as"
    using rendezvous.hs_invD(2) [OF r inv, of TMaster] t tm by (auto simp: system_calls_def)
  obtain rest where m: "master_calls rr np base = InitCb MASTER_P0_ID (master_cb 0) base 0 1 False rr MASTER_SHM_KEY 0 # rest"
    "\<forall>a\<in>set rest. creates a = None" using master_first [of np rr base] ok unfolding setup_ok_def by blast
  have "d = []" using d m cr by (cases d) auto
  hence "a # as = master_calls rr np base" "a = InitCb MASTER_P0_ID (master_cb 0) base 0 1 False rr MASTER_SHM_KEY 0" using d m(1) by simp_all
  thus ?thesis using system_region [OF ok s] t tm by simp
qed

lemma system_progress:
  assumes ok: "setup_ok rr nud np ncp base cbase"
    and s: "hs_step\<^sup>*\<^sup>* (hs_start (system_calls rr nud nw np ncp base cbase)) s" and t: "hs_todo s t \<noteq> []"
  shows "\<exists>s' t' a as. hs_step s s' \<and> hs_todo s t' = a # as \<and> hs_todo s' = (hs_todo s)(t' := as)"
proof (cases "\<forall>c<NUM_CLIENTS. hs_reg s (client_conn_name c) \<noteq> None \<and> hs_reg s (client_dgram_name c) \<noteq> None")
  case False
  then obtain c where c: "c < NUM_CLIENTS" "hs_reg s (client_conn_name c) = None \<or> hs_reg s (client_dgram_name c) = None" by meson
  then obtain s' where "hs_step s s'" "hs_todo s' = (hs_todo s)(TClient c := tl (hs_todo s (TClient c)))" "hs_todo s (TClient c) \<noteq> []"
    using client_publishes [OF ok c(1) rendezvous.reach_inv [OF system_rendezvous [OF ok, where nw = nw] s]] by auto
  thus ?thesis by (metis list.exhaust_sel)
next
  case True
  note r = system_rendezvous [OF ok, where nw = nw]
  note inv = rendezvous.reach_inv [OF r s] and reg = system_region [OF ok s]
  let ?p = "system_calls rr nud nw np ncp base cbase"
  have go: ?thesis if "hs_todo s t' = a # as" "no_wait s a" for t' a as
    using rendezvous.can_proceed [OF r inv that] that(1) by blast
  have np: "0 < np" using ok by (simp add: setup_ok_def)
  show ?thesis
  proof (cases "hs_todo s TMaster")
    case (Cons a as)
    have a: "a \<in> set (master_calls rr np base)"
      using rendezvous.todo_subset [OF r inv Cons] by (simp add: system_calls_def)
    have "no_wait s a"
    proof (cases "creates a")
      case None
      thus ?thesis using no_wait_init [OF None, of s] True a by (auto simp: in_master_calls)
    qed (use creator_no_wait [OF ok s Cons] in simp)
    thus ?thesis using go Cons by blast
  next
    case Nil
    have m: "hs_reg s (master_name (c mod np) c) \<noteq> None \<and> hs_ready s (master_name (c mod np) c)" if "c < NUM_CLIENTS" for c
    proof -
      have "PublishConn (master_cb (c mod np)) c (master_name (c mod np) c) \<in> set (?p TMaster)"
        "PublishReady (master_name (c mod np) c) \<in> set (?p TMaster)"
        using that mod_less_divisor [OF np, of c] unfolding system_calls_def hs_thread.case in_master_publish in_master_calls by blast+
      thus ?thesis using rendezvous.finished_done [OF r inv Nil] by fastforce
    qed
    obtain a as where a: "hs_todo s t = a # as" using t by (cases "hs_todo s t") auto
    have "a \<in> set (?p t)" by (rule rendezvous.todo_subset [OF r inv a])
    have rg: "hs_region s MASTER_SHM_KEY = Some (reg_size_loop rr 0)" "rr \<le> reg_size_loop rr 0"
      using reg Nil master_first [of np rr base] np ok reg_size_ge [of rr] by (auto simp: setup_ok_def)
    have nm: "t \<noteq> TMaster" using Nil a by auto
    have "no_wait s a" using no_wait_init [OF others_create_nothing [OF nm \<open>a \<in> set (?p t)\<close>], of s] \<open>a \<in> set (?p t)\<close> True m nm rg
      by (cases t rule: hs_thread.exhaust) (auto simp: system_calls_def in_worker_calls client_calls_def Let_def split: if_splits)
    thus ?thesis using go a by blast
  qed
qed

text \<open>The calls left, over all threads; every step makes one of them.\<close>

definition calls_left :: "nat \<Rightarrow> hs_state \<Rightarrow> nat" where
  "calls_left nw s = length (hs_todo s TMaster) + (\<Sum>c<NUM_CLIENTS. length (hs_todo s (TClient c))) + (\<Sum>w<nw. length (hs_todo s (TWorker w)))"

lemma sum_update_less:
  assumes "i < (n :: nat)" "length (f i) = Suc (length (g i))" "\<And>j. j \<noteq> i \<Longrightarrow> g j = f j"
  shows "(\<Sum>j<n. length (g j)) < (\<Sum>j<n. length (f j))"
proof (rule sum_strict_mono_ex1)
  show "\<forall>j\<in>{..<n}. length (g j) \<le> length (f j)" using assms(2,3) by (metis le_SucI order_refl)
  show "\<exists>j\<in>{..<n}. length (g j) < length (f j)" using assms(1,2) by (intro bexI [of _ i]) simp_all
qed simp

lemma calls_left_step:
  assumes "hs_todo s t = a # as" "hs_todo s' = (hs_todo s)(t := as)"
    and "\<And>c. \<not> c < NUM_CLIENTS \<Longrightarrow> hs_todo s (TClient c) = []" "\<And>w. \<not> w < nw \<Longrightarrow> hs_todo s (TWorker w) = []"
  shows "calls_left nw s' < calls_left nw s"
proof (cases t)
  case TMaster
  thus ?thesis using assms(1,2) by (simp add: calls_left_def)
next
  case (TClient c)
  hence "c < NUM_CLIENTS" using assms(1,3) by force
  hence "(\<Sum>c<NUM_CLIENTS. length (hs_todo s' (TClient c))) < (\<Sum>c<NUM_CLIENTS. length (hs_todo s (TClient c)))"
    by (rule sum_update_less) (use TClient assms(1,2) in auto)
  thus ?thesis using TClient assms(2) by (simp add: calls_left_def)
next
  case (TWorker w)
  hence "w < nw" using assms(1,4) by force
  hence "(\<Sum>w<nw. length (hs_todo s' (TWorker w))) < (\<Sum>w<nw. length (hs_todo s (TWorker w)))"
    by (rule sum_update_less) (use TWorker assms(1,2) in auto)
  thus ?thesis using TWorker assms(2) by (simp add: calls_left_def)
qed

lemma system_finishes:
  assumes ok: "setup_ok rr nud np ncp base cbase" and s: "hs_step\<^sup>*\<^sup>* (hs_start (system_calls rr nud nw np ncp base cbase)) s"
  shows "\<exists>s'. hs_step\<^sup>*\<^sup>* s s' \<and> (\<forall>t. hs_todo s' t = [])"
  using s
proof (induction "calls_left nw s" arbitrary: s rule: less_induct)
  case less
  note r = system_rendezvous [OF ok, where nw = nw]
  note inv = rendezvous.reach_inv [OF r less.prems]
  show ?case
  proof (cases "\<forall>t. hs_todo s t = []")
    case True
    thus ?thesis by blast
  next
    case False
    then obtain s' t a as where st: "hs_step s s'" "hs_todo s t = a # as" "hs_todo s' = (hs_todo s)(t := as)"
      using system_progress [OF ok less.prems] by blast
    have "hs_todo s (TClient c) = []" if "\<not> c < NUM_CLIENTS" for c
      using rendezvous.hs_invD(2) [OF r inv, of "TClient c"] that by (auto simp: system_calls_def)
    moreover have "hs_todo s (TWorker w) = []" if "\<not> w < nw" for w
      using rendezvous.hs_invD(2) [OF r inv, of "TWorker w"] that by (auto simp: system_calls_def)
    ultimately have "calls_left nw s' < calls_left nw s" using calls_left_step [OF st(2,3)] by blast
    moreover have "hs_step\<^sup>*\<^sup>* (hs_start (system_calls rr nud nw np ncp base cbase)) s'" using less.prems st(1) by simp
    ultimately obtain s'' where "hs_step\<^sup>*\<^sup>* s' s''" "\<forall>t. hs_todo s'' t = []" using less.hyps by blast
    thus ?thesis using st(1) by (meson converse_rtranclp_into_rtranclp)
  qed
qed

text \<open>The address handles of a worker that has finished.\<close>

lemma client_publications:
  assumes "c < NUM_CLIENTS"
  shows "publishes (system_calls rr nud nw np ncp base cbase (TClient c)) (client_conn_name c) (HConn 0 0)"
    "publishes (system_calls rr nud nw np ncp base cbase (TClient c)) (client_dgram_name c) (HDgram 0 0)"
  using assms by (auto simp: publishes_def system_calls_def client_calls_def client_cb_def Let_def intro!: exI [of _ client_cb])

lemma worker_handle:
  assumes ok: "setup_ok rr nud np ncp base cbase" and s: "hs_step\<^sup>*\<^sup>* (hs_start (system_calls rr nud nw np ncp base cbase)) s"
    and c: "c < NUM_CLIENTS" and w: "w < nw" "hs_todo s (TWorker w) = []"
  shows "hs_ah s (TWorker w) c = Some (c mod np, base + c mod np + 1, TClient c, HDgram 0 0)"
proof -
  note r = system_rendezvous [OF ok, where nw = nw]
  note inv = rendezvous.reach_inv [OF r s]
  have "CreateAh (worker_cb nud (c mod np)) c (client_dgram_name c) (base + c mod np + 1)
      \<in> set (system_calls rr nud nw np ncp base cbase (TWorker w))"
    using w c by (simp add: system_calls_def in_worker_calls)
  from rendezvous.finished_done [OF r inv w(2) this] obtain e
    where "hs_reg s (client_dgram_name c) = Some e" "hs_ah s (TWorker w) c = Some (c mod np, base + c mod np + 1, e)"
    by (auto simp: worker_cb_def)
  thus ?thesis using rendezvous.published [OF r inv client_publications(2) [OF c]] by simp
qed

text \<open>With all ports enabled, the local number of a port exceeds its rank by at most one, from any device on.\<close>

definition all_enabled :: "dev_info \<Rightarrow> bool" where
  "all_enabled d \<longleftrightarrow> (\<forall>p. 1 \<le> p \<and> p \<le> phys_port_cnt d \<longrightarrow> port_state d p = Some IBV_PORT_ACTIVE)"

lemma all_enabled_ports: "all_enabled d \<Longrightarrow> dev_ports d = [1..<phys_port_cnt d + 1]"
  unfolding dev_ports_def by (rule filter_True) (auto simp: all_enabled_def port_enabled_def)

lemma enabled_ports_rank:
  assumes "list_all all_enabled ds" "j < length (enabled_ports ds i)" "enabled_ports ds i ! j = (dev, p)"
  shows "i \<le> dev \<and> p \<le> j + 1"
  using assms
proof (induction ds arbitrary: i j)
  case (Cons d ds)
  let ?n = "phys_port_cnt d"
  have l: "dev_ports d = [1..<?n + 1]" using Cons.prems(1) by (simp add: all_enabled_ports)
  show ?case
  proof (cases "j < ?n")
    case True
    thus ?thesis using Cons.prems(3) by (simp add: l nth_append del: upt_Suc)
  next
    case False
    have "j - ?n < length (enabled_ports ds (i + 1))" "enabled_ports ds (i + 1) ! (j - ?n) = (dev, p)" "list_all all_enabled ds"
      using Cons.prems False by (simp_all add: l nth_append del: upt_Suc)
    hence "i + 1 \<le> dev \<and> p \<le> j - ?n + 1" using Cons.IH by blast
    thus ?thesis by linarith
  qed
qed simp

subsection \<open>The properties\<close>

text \<open>
  C7: When a client has finished its setup, in whatever order the threads ran, its queue pair and
  the queue pair of the master for it are connected to each other: the client's is connected to queue pair \<open>c\<close> of the master's control block for
  server port \<open>c mod np\<close>, and that one to the client's. When a worker has finished, its address handle for every client \<open>c\<close> is made with
  the control block of the same server port, leads to the datagram queue pair of that client, and carries the port
  number \<open>base + c mod np + 1\<close>, the index of that port over all devices plus one.
\<close>

theorem setup_pairs:
  assumes ok: "setup_ok rr nud np ncp base cbase" and s: "hs_step\<^sup>*\<^sup>* (hs_start (system_calls rr nud nw np ncp base cbase)) s"
    and c: "c < NUM_CLIENTS"
  shows "(hs_todo s (TClient c) = [] \<longrightarrow> hs_conn s (TClient c) 0 0 = Some (TMaster, HConn (c mod np) c)
      \<and> hs_conn s TMaster (c mod np) c = Some (TClient c, HConn 0 0))
    \<and> (\<forall>w<nw. hs_todo s (TWorker w) = [] \<longrightarrow>
        hs_ah s (TWorker w) c = Some (c mod np, base + c mod np + 1, TClient c, HDgram 0 0))"
proof -
  let ?p = "system_calls rr nud nw np ncp base cbase" and ?nm = "master_name (c mod np) c"
  note r = system_rendezvous [OF ok, where nw = nw]
  note inv = rendezvous.reach_inv [OF r s]
  note pub = rendezvous.published [OF r inv]
  have np: "0 < np" using ok by (simp add: setup_ok_def)
  have p: "publishes (?p TMaster) ?nm (HConn (c mod np) c)"
    using np c by (auto simp: publishes_def system_calls_def in_master_publish master_cb_def intro!: exI [of _ "master_cb (c mod np)"])
  note q = client_publications [OF c]
  have "hs_conn s (TClient c) 0 0 = Some (TMaster, HConn (c mod np) c) \<and> hs_conn s TMaster (c mod np) c = Some (TClient c, HConn 0 0)"
    if fin: "hs_todo s (TClient c) = []"
  proof -
    have calls: "Connect client_cb 0 ?nm \<in> set (?p (TClient c))" "WaitReady ?nm \<in> set (?p (TClient c))"
      using c by (simp_all add: system_calls_def client_calls_def Let_def)
    have "done_ok (TClient c) s (Connect client_cb 0 ?nm)" "hs_ready s ?nm"
      using rendezvous.finished_done [OF r inv fin calls(1)] rendezvous.finished_done [OF r inv fin calls(2)] by simp_all
    then obtain e where e: "hs_reg s ?nm = Some e" "hs_conn s (TClient c) 0 0 = Some e" by (auto simp: client_cb_def)
    obtain t d as where d: "?p t = d @ PublishReady ?nm # as" "\<forall>b\<in>set d. done_ok t s b"
      using rendezvous.hs_invD(3) [OF r inv \<open>hs_ready s ?nm\<close>] by blast
    have "PublishReady ?nm \<in> set (?p t)" by (simp add: d(1))
    hence "t = TMaster"
      by (cases t) (auto simp: system_calls_def in_worker_calls client_calls_def Let_def split: if_splits)
    hence "Connect (master_cb (c mod np)) c (client_conn_name c) \<in> set d" using master_ready d(1) by (simp add: system_calls_def)
    hence "done_ok TMaster s (Connect (master_cb (c mod np)) c (client_conn_name c))" using d(2) \<open>t = TMaster\<close> by blast
    then obtain e' where "hs_reg s (client_conn_name c) = Some e'" "hs_conn s TMaster (c mod np) c = Some e'"
      by (auto simp: master_cb_def)
    thus ?thesis using e pub [OF p e(1)] pub [OF q(1)] by simp
  qed
  moreover note worker_handle [OF ok s c]
  ultimately show ?thesis by blast
qed

theorem setup_pairs_witness:
  "\<exists>s. hs_step\<^sup>*\<^sup>* (hs_start (system_calls RR_SIZE 1 12 2 2 0 0)) s \<and> hs_todo s (TClient 5) = []
     \<and> hs_conn s (TClient 5) 0 0 = Some (TMaster, HConn 1 5) \<and> hs_conn s TMaster 1 5 = Some (TClient 5, HConn 0 0)"
proof -
  have ok: "setup_ok RR_SIZE 1 2 2 0 0" by (simp add: setup_ok_def RR_SIZE_def M_1024_def)
  obtain s where s: "hs_step\<^sup>*\<^sup>* (hs_start (system_calls RR_SIZE 1 12 2 2 0 0)) s" "\<forall>t. hs_todo s t = []"
    using system_finishes [OF ok rtranclp.rtrancl_refl] by blast
  have "5 < NUM_CLIENTS" by (simp add: NUM_CLIENTS_def)
  from setup_pairs [OF ok s(1) this] s show ?thesis by auto
qed



text \<open>
  C29: The port number in a worker's address handle is not the device-local port of the control block the handle is made with, although the
  comment at its computation says so, unless the port is on the first device: on devices with all ports active, the block for index \<open>j\<close> resolves to
  some local port of some device, the handle has the number \<open>j + 1\<close>, and the two agree exactly when the device is the first.
\<close>

theorem handle_port_not_local:
  assumes "list_all dev_ok (d # ds)" "list_all all_enabled (d # ds)" "1 \<le> phys_port_cnt d"
    "setup_ok rr nud np ncp base cbase" "hs_step\<^sup>*\<^sup>* (hs_start (system_calls rr nud nw np ncp base cbase)) s"
    "c < NUM_CLIENTS" "w < nw" "hs_todo s (TWorker w) = []" "j = base + c mod np" "j < length (enabled_ports (d # ds) 0)"
  shows "\<exists>dev dport. hrd_resolve_port_index (Some (d # ds)) (int j) = Inr (dev, dport)
    \<and> hs_ah s (TWorker w) c = Some (c mod np, j + 1, TClient c, HDgram 0 0) \<and> (j + 1 = dport \<longleftrightarrow> dev = 0)"
proof -
  let ?n = "phys_port_cnt d" and ?e = "enabled_ports (d # ds) 0"
  obtain dev dport where e: "?e ! j = (dev, dport)" by (cases "?e ! j")
  have "hrd_resolve_port_index (Some (d # ds)) (int j) = Inr (dev, dport)"
    using scan_devices_spec [OF assms(1), of "int j" 0] assms(10) e by (simp add: hrd_resolve_port_index_def)
  moreover have l: "dev_ports d = [1..<?n + 1]" using assms(2) by (simp add: all_enabled_ports)
  have "j + 1 = dport \<longleftrightarrow> dev = 0"
  proof (cases "j < ?n")
    case True
    thus ?thesis using e by (auto simp: l nth_append simp del: upt_Suc)
  next
    case False
    have "1 \<le> dev \<and> dport \<le> j - ?n + 1"
      using enabled_ports_rank [of ds "j - ?n" 1 dev dport] assms(2,10) e False by (auto simp: l nth_append simp del: upt_Suc)
    thus ?thesis using assms(3) False by auto
  qed
  ultimately show ?thesis using worker_handle [OF assms(4-8)] assms(9) by auto
qed

definition one_port_dev :: dev_info where
  "one_port_dev = \<lparr>dev_opens = True, dev_queries = True, phys_port_cnt = 1, port_state = (\<lambda>_. Some 4), dev_closes = True\<rparr>"

theorem handle_port_not_local_witness:
  "\<exists>s dport. hs_step\<^sup>*\<^sup>* (hs_start (system_calls RR_SIZE 1 12 2 2 0 0)) s
     \<and> hrd_resolve_port_index (Some [one_port_dev, one_port_dev]) 1 = Inr (1, dport)
     \<and> hs_ah s (TWorker 3) 5 = Some (1, 2, TClient 5, HDgram 0 0) \<and> dport \<noteq> 2"
proof -
  have ok: "setup_ok RR_SIZE 1 2 2 0 0" by (simp add: setup_ok_def RR_SIZE_def M_1024_def)
  obtain s where s: "hs_step\<^sup>*\<^sup>* (hs_start (system_calls RR_SIZE 1 12 2 2 0 0)) s" "\<forall>t. hs_todo s t = []"
    using system_finishes [OF ok rtranclp.rtrancl_refl] by blast
  have d: "list_all dev_ok [one_port_dev, one_port_dev]" "list_all all_enabled [one_port_dev, one_port_dev]" "1 \<le> phys_port_cnt one_port_dev"
    by (auto simp: dev_ok_def all_enabled_def one_port_dev_def IBV_PORT_ACTIVE_def)
  have c: "5 < NUM_CLIENTS" "(1 :: nat) = 0 + 5 mod 2" "1 < length (enabled_ports [one_port_dev, one_port_dev] 0)"
    using d(2) by (simp_all add: NUM_CLIENTS_def all_enabled_ports one_port_dev_def)
  have "hrd_resolve_port_index (Some [one_port_dev, one_port_dev]) 1 = Inr (1, 1)"
    using scan_devices_spec [OF d(1), of 1 0] d(2) by (simp add: hrd_resolve_port_index_def all_enabled_ports one_port_dev_def)
  thus ?thesis using handle_port_not_local [OF d ok s(1) c(1) _ _ c(2,3), of 3] s by auto
qed

end
