(* ===== verification/Ss_Sequencer.thy ===== *)
theory Ss_Sequencer
  imports Signaling
begin

text \<open>
  The sequencer over datagrams (ss-sequencer/main.h, client.c, server.c, main.c): a client sends requests
  without payload whose immediate is the upper half it assumes of the counter. A server thread takes a
  range of the shared counter for the requests of a poll and answers each with the lower half as immediate
  when the assumption is right, otherwise with the whole number as payload.
\<close>

subsection \<open>Constants and start\<close>

definition SS_NUM_UD_QPS :: int where "SS_NUM_UD_QPS = 3"
definition NUM_SERVER_THREADS :: nat where "NUM_SERVER_THREADS = 10"
definition MAX_NUM_CLIENTS :: nat where "MAX_NUM_CLIENTS = 70"
definition SS_BUF_SIZE :: nat where "SS_BUF_SIZE = 4096"
definition SS_CACHELINE_SIZE :: nat where "SS_CACHELINE_SIZE = 64"
definition MAX_POSTLIST :: int where "MAX_POSTLIST = 128"
definition SS_UNSIG_BATCH :: nat where "SS_UNSIG_BATCH = 64"

lemmas ss_consts = SS_NUM_UD_QPS_def NUM_SERVER_THREADS_def MAX_NUM_CLIENTS_def SS_BUF_SIZE_def
  SS_CACHELINE_SIZE_def MAX_POSTLIST_def SS_UNSIG_BATCH_def HRD_Q_DEPTH_def

record ss_args =
  ss_num_threads :: int
  ss_dual_port :: int
  ss_is_client :: int
  ss_machine_id :: int
  ss_postlist :: int

record ss_params =
  sp_id :: int
  sp_dual_port :: int
  sp_postlist :: int
  sp_num_threads :: int

datatype ss_process = SsClients "ss_params list" | SsServers "ss_params list"

text \<open>\<open>main\<close> after parsing; the threads of a server get no \<open>num_threads\<close>, which stays as \<open>malloc\<close> left it.\<close>

definition ss_main :: "int \<Rightarrow> ss_args \<Rightarrow> ss_process res" where
  "ss_main garbage a =
     bind_res (check (ss_dual_port a = 0 \<or> ss_dual_port a = 1) AssertFail) (\<lambda>_.
     bind_res (check (ss_is_client a = 0 \<or> ss_is_client a = 1) AssertFail) (\<lambda>_.
     bind_res (check (ss_postlist a \<ge> 1 \<and> ss_postlist a \<le> MAX_POSTLIST) AssertFail) (\<lambda>_.
     bind_res (check (int SS_UNSIG_BATCH \<ge> 2 * ss_postlist a) AssertFail) (\<lambda>_.
     let p = \<lparr>sp_id = 0, sp_dual_port = ss_dual_port a, sp_postlist = ss_postlist a, sp_num_threads = garbage\<rparr> in
     if ss_is_client a = 1 then
       bind_res (check (ss_num_threads a \<ge> 1) AssertFail) (\<lambda>_.
       bind_res (check (ss_machine_id a \<ge> 0) AssertFail) (\<lambda>_.
       Inr (SsClients (map (\<lambda>i. p\<lparr>sp_id := ss_machine_id a * ss_num_threads a + int i, sp_num_threads := ss_num_threads a\<rparr>)
         [0..<nat (ss_num_threads a)]))))
     else
       bind_res (check (ss_num_threads a = -1) AssertFail) (\<lambda>_.
       bind_res (check (ss_machine_id a = -1) AssertFail) (\<lambda>_.
       Inr (SsServers (map (\<lambda>i. p\<lparr>sp_id := int i\<rparr>) [0..<NUM_SERVER_THREADS]))))))))"

subsection \<open>The client\<close>

text \<open>
  The loop variables; \<open>sc_recvs\<close> are the posted RECVs, oldest first, \<open>sc_cq\<close> the completions of RECVs, each
  with its immediate if it has one, \<open>sc_buf\<close> the 8-byte numbers of \<open>dgram_buf\<close> by offset, and \<open>sc_got\<close> the
  values of \<open>resp_counter\<close> so far.
\<close>

record ss_client =
  sc_tx :: txq
  counter_hi :: u64
  req_wi :: int
  reqs_to_send :: nat
  sc_recvs :: "(nat \<times> nat) list"
  sc_cq :: "u32 option list"
  sc_buf :: "nat \<Rightarrow> u64"
  sc_got :: "u64 list"

definition ss_client_init :: "ss_params \<Rightarrow> ss_client res" where
  "ss_client_init p =
     bind_res (check (((int MAX_NUM_CLIENTS + int NUM_SERVER_THREADS - 1) div int NUM_SERVER_THREADS) * sp_postlist p < int HRD_Q_DEPTH) AssertFail) (\<lambda>_.
     bind_res (check (sp_id p < int MAX_NUM_CLIENTS) AssertFail) (\<lambda>_.
     bind_res (check (sp_postlist p * int SS_CACHELINE_SIZE < int SS_BUF_SIZE) AssertFail) (\<lambda>_.
     Inr \<lparr>sc_tx = tx0, counter_hi = 0, req_wi = 0, reqs_to_send = nat (sp_postlist p), sc_recvs = [], sc_cq = [],
          sc_buf = (\<lambda>_. 0), sc_got = []\<rparr>)))"

text \<open>The loop that prepares \<open>n\<close> requests; a RECV queue holds \<open>HRD_Q_DEPTH\<close> entries.\<close>

fun ss_client_prepare :: "int \<Rightarrow> nat \<Rightarrow> ss_client \<Rightarrow> ss_client res" where
  "ss_client_prepare postlist 0 cl = Inr cl"
| "ss_client_prepare postlist (Suc n) cl =
     bind_res (hrd_post_dgram_recv (if length (sc_recvs cl) < HRD_Q_DEPTH then 0 else 12) (sc_recvs cl)
                (nat (req_wi cl) * SS_CACHELINE_SIZE) (40 + 8)) (\<lambda>recvs.
     bind_res (tx_prepare SS_UNSIG_BATCH (sc_tx cl)) (\<lambda>(sig, q).
     ss_client_prepare postlist n (cl\<lparr>sc_recvs := recvs, sc_tx := q, req_wi := HRD_MOD_ADD (req_wi cl) postlist\<rparr>)))"

text \<open>The first half of a turn: the client, and the immediates of the requests it sends.\<close>

definition ss_client_send :: "int \<Rightarrow> ss_client \<Rightarrow> (ss_client \<times> u32 list) res" where
  "ss_client_send postlist cl =
     bind_res (check (reqs_to_send cl > 0) AssertFail) (\<lambda>_.
     bind_res (ss_client_prepare postlist (reqs_to_send cl) cl) (\<lambda>cl'.
     bind_res (tx_post SS_UNSIG_BATCH (sc_tx cl')) (\<lambda>q.
     Inr (cl'\<lparr>sc_tx := q, reqs_to_send := 0\<rparr>, replicate (reqs_to_send cl) (ucast (drop_bit 32 (counter_hi cl)))))))"

text \<open>Completion number \<open>i\<close> of a poll.\<close>

definition ss_read_resp :: "nat \<Rightarrow> u32 option \<Rightarrow> ss_client \<Rightarrow> ss_client" where
  "ss_read_resp i w cl =
     (case w of
        None \<Rightarrow> let v = sc_buf cl (i * SS_CACHELINE_SIZE + 40)
                 in cl\<lparr>counter_hi := push_bit 32 (drop_bit 32 v), sc_got := sc_got cl @ [v]\<rparr>
      | Some imm \<Rightarrow> cl\<lparr>sc_got := sc_got cl @ [counter_hi cl + ucast imm]\<rparr>)"

fun ss_read_resps :: "nat \<Rightarrow> u32 option list \<Rightarrow> ss_client \<Rightarrow> ss_client" where
  "ss_read_resps i [] cl = cl"
| "ss_read_resps i (w # ws) cl = ss_read_resps (i + 1) ws (ss_read_resp i w cl)"

text \<open>The second half: \<open>ibv_poll_cq\<close> gives \<open>k\<close> completions, at least one.\<close>

definition ss_client_poll :: "nat \<Rightarrow> ss_client \<Rightarrow> ss_client" where
  "ss_client_poll k cl =
     (let cl' = ss_read_resps 0 (take k (sc_cq cl)) cl
      in cl'\<lparr>sc_cq := drop k (sc_cq cl), reqs_to_send := k\<rparr>)"

subsection \<open>The server\<close>

datatype ss_resp = RespImm u32 | RespFull u64

record ss_server =
  sv_recvs :: nat
  sv_cq :: "(nat \<times> u32) list"
  sv_tx :: "nat \<Rightarrow> txq"
  sv_qp :: int

definition ss_server_init :: ss_server where
  "ss_server_init = \<lparr>sv_recvs = HRD_Q_DEPTH, sv_cq = [], sv_tx = (\<lambda>_. tx0), sv_qp = 0\<rparr>"

definition ss_answer :: "u32 \<Rightarrow> u64 \<Rightarrow> ss_resp" where
  "ss_answer imm v = (if imm = ucast (drop_bit 32 v) then RespImm (ucast (v AND 0xffffffff)) else RespFull v)"

text \<open>
  The loop over the completions of a poll: the client, its number and its response. The address handle of a
  client, created on its first request, is taken to exist.
\<close>

fun ss_answers :: "u64 \<Rightarrow> (nat \<times> u32) list \<Rightarrow> txq \<Rightarrow> ((nat \<times> u64 \<times> ss_resp) list \<times> txq) res" where
  "ss_answers v [] q = Inr ([], q)"
| "ss_answers v ((c, imm) # ws) q =
     bind_res (tx_prepare SS_UNSIG_BATCH q) (\<lambda>(sig, q).
     bind_res (ss_answers (v + 1) ws q) (\<lambda>(rs, q). Inr ((c, v, ss_answer imm v) # rs, q)))"

text \<open>A turn whose poll gives \<open>n\<close> completions, with the shared counter.\<close>

definition ss_server_poll :: "nat \<Rightarrow> u64 \<Rightarrow> ss_server \<Rightarrow> (u64 \<times> ss_server \<times> (nat \<times> u64 \<times> ss_resp) list) res" where
  "ss_server_poll n counter sv =
     (if n = 0 then Inr (counter, sv, [])
      else
        bind_res (check (sv_recvs sv + n \<le> HRD_Q_DEPTH) (ExitWith 12)) (\<lambda>_.
        bind_res (ss_answers counter (take n (sv_cq sv)) (sv_tx sv (nat (sv_qp sv)))) (\<lambda>(rs, q).
        bind_res (tx_post SS_UNSIG_BATCH q) (\<lambda>q.
        Inr (counter + of_nat n,
             sv\<lparr>sv_recvs := sv_recvs sv + n, sv_cq := drop n (sv_cq sv), sv_tx := (sv_tx sv)(nat (sv_qp sv) := q),
                sv_qp := HRD_MOD_ADD (sv_qp sv) SS_NUM_UD_QPS\<rparr>, rs)))))"

subsection \<open>The system\<close>

text \<open>
  The datagrams on their way in both directions, which arrive in any order, and the log of the numbers
  assigned. A datagram that finds no RECV is lost.
\<close>

record ss_sys =
  ss_clients :: "nat \<Rightarrow> ss_client"
  ss_servers :: "nat \<Rightarrow> ss_server"
  ss_counter :: u64
  ss_reqs :: "(nat \<times> u32) list"
  ss_resps :: "(nat \<times> ss_resp) list"
  ss_log :: "(nat \<times> u64) list"
  ss_lost :: nat

text \<open>A request arrives at its server.\<close>

definition ss_arrive :: "nat \<times> u32 \<Rightarrow> ss_server \<Rightarrow> ss_server option" where
  "ss_arrive r sv = (if sv_recvs sv = 0 then None
     else Some (sv\<lparr>sv_recvs := sv_recvs sv - 1, sv_cq := sv_cq sv @ [r]\<rparr>))"

text \<open>A response arrives at its client, behind the 40 bytes of the header, in the oldest RECV.\<close>

definition ss_deliver :: "ss_resp \<Rightarrow> ss_client \<Rightarrow> ss_client option" where
  "ss_deliver r cl =
     (case sc_recvs cl of
        [] \<Rightarrow> None
      | (off, len) # recvs \<Rightarrow>
          (case r of
             RespImm imm \<Rightarrow> if len < 40 then None else Some (cl\<lparr>sc_recvs := recvs, sc_cq := sc_cq cl @ [Some imm]\<rparr>)
           | RespFull v \<Rightarrow> if len < 48 then None
               else Some (cl\<lparr>sc_recvs := recvs, sc_cq := sc_cq cl @ [None], sc_buf := (sc_buf cl)(off + 40 := v)\<rparr>)))"

datatype ss_act = ClientSend nat | ReqArrives nat | ServerPoll nat nat | RespArrives nat | ClientPoll nat nat

text \<open>
  One action; an action that is not possible in the state changes nothing. A client sends when it has
  requests to send and polls otherwise; a poll gives at most the \<open>postlist\<close> of
  its process, \<open>pc\<close> for the clients and \<open>ps\<close> for the server.
\<close>

fun ss_exec :: "int \<Rightarrow> int \<Rightarrow> ss_act \<Rightarrow> ss_sys \<Rightarrow> ss_sys res" where
  "ss_exec pc ps (ClientSend c) s =
     (if c < MAX_NUM_CLIENTS \<and> 0 < reqs_to_send (ss_clients s c)
      then bind_res (ss_client_send pc (ss_clients s c)) (\<lambda>(cl, imms).
           Inr (s\<lparr>ss_clients := (ss_clients s)(c := cl), ss_reqs := ss_reqs s @ map (Pair c) imms\<rparr>))
      else Inr s)"
| "ss_exec pc ps (ReqArrives j) s =
     (if j < length (ss_reqs s)
      then let r = ss_reqs s ! j; k = fst r mod NUM_SERVER_THREADS;
               s' = s\<lparr>ss_reqs := take j (ss_reqs s) @ drop (j + 1) (ss_reqs s)\<rparr>
           in case ss_arrive r (ss_servers s k) of
                None \<Rightarrow> Inr (s'\<lparr>ss_lost := ss_lost s + 1\<rparr>)
              | Some sv \<Rightarrow> Inr (s'\<lparr>ss_servers := (ss_servers s)(k := sv)\<rparr>)
      else Inr s)"
| "ss_exec pc ps (ServerPoll k n) s =
     (let n' = min n (min (nat ps) (length (sv_cq (ss_servers s k)))) in
      bind_res (ss_server_poll n' (ss_counter s) (ss_servers s k)) (\<lambda>(ctr, sv, rs).
      Inr (s\<lparr>ss_servers := (ss_servers s)(k := sv), ss_counter := ctr,
             ss_resps := ss_resps s @ map (\<lambda>(c, v, r). (c, r)) rs, ss_log := ss_log s @ map (\<lambda>(c, v, r). (c, v)) rs\<rparr>)))"
| "ss_exec pc ps (RespArrives j) s =
     (if j < length (ss_resps s)
      then let (c, r) = ss_resps s ! j;
               s' = s\<lparr>ss_resps := take j (ss_resps s) @ drop (j + 1) (ss_resps s)\<rparr>
           in case ss_deliver r (ss_clients s c) of
                None \<Rightarrow> Inr (s'\<lparr>ss_lost := ss_lost s + 1\<rparr>)
              | Some cl \<Rightarrow> Inr (s'\<lparr>ss_clients := (ss_clients s)(c := cl)\<rparr>)
      else Inr s)"
| "ss_exec pc ps (ClientPoll c k) s =
     (let k' = min k (min (nat pc) (length (sc_cq (ss_clients s c)))) in
      if c < MAX_NUM_CLIENTS \<and> reqs_to_send (ss_clients s c) = 0 \<and> 0 < k'
      then Inr (s\<lparr>ss_clients := (ss_clients s)(c := ss_client_poll k' (ss_clients s c))\<rparr>)
      else Inr s)"

fun ss_run :: "int \<Rightarrow> int \<Rightarrow> ss_act list \<Rightarrow> ss_sys \<Rightarrow> ss_sys res" where
  "ss_run pc ps [] s = Inr s"
| "ss_run pc ps (a # as) s = bind_res (ss_exec pc ps a s) (ss_run pc ps as)"

text \<open>Seventy clients whose checks pass, and the server threads.\<close>

definition ss_start :: "int \<Rightarrow> ss_sys res" where
  "ss_start postlist =
     bind_res (ss_client_init \<lparr>sp_id = 0, sp_dual_port = 0, sp_postlist = postlist, sp_num_threads = 1\<rparr>) (\<lambda>cl.
     Inr \<lparr>ss_clients = (\<lambda>_. cl), ss_servers = (\<lambda>_. ss_server_init), ss_counter = 0, ss_reqs = [], ss_resps = [],
          ss_log = [], ss_lost = 0\<rparr>)"

end
