(* ===== verification/Ss_Props.thy ===== *)
theory Ss_Props
  imports Ss_Sequencer
begin

text \<open>
  Properties of the sequencer over datagrams: with the checks of the programs no datagram is lost and no
  sender waits for ever; with one outstanding request a client gets exactly the numbers assigned to it;
  with two it can take a wrong number.
\<close>

subsection \<open>Counting datagrams\<close>

definition cnt :: "nat \<Rightarrow> (nat \<times> 'a) list \<Rightarrow> nat" where
  "cnt c xs = length (filter (\<lambda>x. fst x = c) xs)"

lemma cnt_simps [simp]:
  "cnt c [] = 0" "cnt c (x # xs) = (if fst x = c then 1 else 0) + cnt c xs" "cnt c (xs @ ys) = cnt c xs + cnt c ys"
  by (simp_all add: cnt_def)

lemma cnt_map_Pair: "cnt c (map (Pair d) xs) = (if c = d then length xs else 0)"
  by (simp add: cnt_def filter_map comp_def)

lemma cnt_map_fst: "(\<And>x. fst (f x) = fst x) \<Longrightarrow> cnt c (map f xs) = cnt c xs"
  by (induction xs) simp_all

lemma cnt_map_unit: "cnt c (map (\<lambda>x. (fst x, ())) xs) = cnt c xs"
  by (induction xs) simp_all

lemma cnt_filter_le: "cnt c (filter P xs) \<le> cnt c xs"
  by (induction xs) simp_all

lemma cnt_remove:
  assumes "j < length xs"
  shows "cnt c (take j xs @ drop (j + 1) xs) + (if fst (xs ! j) = c then 1 else 0) = cnt c xs"
proof -
  have "cnt c xs = cnt c (take j xs @ xs ! j # drop (j + 1) xs)" using id_take_nth_drop [OF assms] by simp
  thus ?thesis by simp
qed

lemma cnt_take_drop: "cnt c (take n xs) + cnt c (drop n xs) = cnt c xs"
  using cnt_simps(3) [of c "take n xs" "drop n xs"] by simp

lemma set_removed: "set (take j xs @ drop k xs) \<subseteq> set xs"
  by (auto dest: in_set_takeD in_set_dropD)

lemma length_cnt:
  assumes "finite S" "fst ` set xs \<subseteq> S" "\<And>c. c \<in> S \<Longrightarrow> cnt c xs \<le> m"
  shows "length xs \<le> card S * m"
proof -
  have "length xs = (\<Sum>c\<in>S. cnt c xs)" using assms(2)
  proof (induction xs)
    case (Cons x xs)
    have "(\<Sum>c\<in>S. cnt c (x # xs)) = (\<Sum>c\<in>S. (if fst x = c then 1 else 0)) + (\<Sum>c\<in>S. cnt c xs)"
      by (simp add: sum.distrib)
    thus ?case using Cons assms(1) by (simp add: sum.delta')
  qed simp
  also have "\<dots> \<le> (\<Sum>c\<in>S. m)" using assms(3) by (rule sum_mono)
  finally show ?thesis by simp
qed

subsection \<open>The invariant\<close>

definition in_flight :: "nat \<Rightarrow> ss_sys \<Rightarrow> nat" where
  "in_flight c s = cnt c (ss_reqs s) + cnt c (sv_cq (ss_servers s (c mod 10))) + cnt c (ss_resps s)"

definition client_ok :: "nat \<Rightarrow> nat \<Rightarrow> ss_client \<Rightarrow> bool" where
  "client_ok p f cl \<longleftrightarrow> f + length (sc_cq cl) + reqs_to_send cl = p \<and> length (sc_recvs cl) = f
     \<and> (\<forall>r\<in>set (sc_recvs cl). snd r = 48 \<and> (\<exists>i<p. fst r = i * 64)) \<and> tx_ok 64 0 (sc_tx cl)
     \<and> 0 \<le> req_wi cl \<and> req_wi cl < int p"

definition server_ok :: "nat \<Rightarrow> ss_server \<Rightarrow> bool" where
  "server_ok k sv \<longleftrightarrow> sv_recvs sv + length (sv_cq sv) = 128 \<and> (\<forall>r\<in>set (sv_cq sv). fst r < 70 \<and> fst r mod 10 = k)
     \<and> (\<forall>i. tx_ok 64 0 (sv_tx sv i)) \<and> 0 \<le> sv_qp sv \<and> sv_qp sv < 3"

definition ss_inv :: "nat \<Rightarrow> ss_sys \<Rightarrow> bool" where
  "ss_inv p s \<longleftrightarrow> (\<forall>c<70. client_ok p (in_flight c s) (ss_clients s c)) \<and> (\<forall>k. server_ok k (ss_servers s k))
     \<and> (\<forall>r\<in>set (ss_reqs s). fst r < 70) \<and> (\<forall>r\<in>set (ss_resps s). fst r < 70) \<and> ss_lost s = 0
     \<and> map snd (ss_log s) = map of_nat [0..<length (ss_log s)] \<and> ss_counter s = of_nat (length (ss_log s))"

subsection \<open>The client\<close>

lemma client_prepare_ok:
  assumes "n \<le> p - j" "j \<le> p" "p \<le> 32" "tx_ok 64 j (sc_tx cl)" "nb_tx (sc_tx cl) = posted (sc_tx cl) + j"
    "length (sc_recvs cl) + n \<le> 128" "0 \<le> req_wi cl" "req_wi cl < int p"
    "\<forall>r\<in>set (sc_recvs cl). snd r = 48 \<and> (\<exists>i<p. fst r = i * 64)"
  shows "\<exists>q w recvs. ss_client_prepare (int p) n cl = Inr (cl\<lparr>sc_recvs := recvs, sc_tx := q, req_wi := w\<rparr>)
    \<and> tx_ok 64 (j + n) q \<and> length recvs = length (sc_recvs cl) + n \<and> 0 \<le> w \<and> w < int p
    \<and> (\<forall>r\<in>set recvs. snd r = 48 \<and> (\<exists>i<p. fst r = i * 64))"
  using assms
proof (induction n arbitrary: cl j)
  case 0
  show ?case
    by (intro exI [of _ "sc_tx cl"] exI [of _ "req_wi cl"] exI [of _ "sc_recvs cl"]) (use 0 in simp)
next
  case (Suc n)
  let ?q = "sc_tx cl" and ?p = "j + 1"
  have t: "tx_ok 64 ?p ?q" using Suc.prems(4) by (rule tx_ok_mono) simp
  have lt: "nb_tx ?q < posted ?q + ?p" using Suc.prems(5) by simp
  have u: "(64 :: nat) = 2 ^ 6" "?p < 64" using Suc.prems(1,2,3) by auto
  note pr = tx_prepare_ok [OF u t lt]
  let ?q' = "?q\<lparr>nb_tx := nb_tx ?q + 1, polled := (nb_tx ?q + 1) div 64\<rparr>"
  let ?cl = "cl\<lparr>sc_recvs := sc_recvs cl @ [(nat (req_wi cl) * 64, 48)], sc_tx := ?q', req_wi := HRD_MOD_ADD (req_wi cl) (int p)\<rparr>"
  have w: "0 \<le> HRD_MOD_ADD (req_wi cl) (int p) \<and> HRD_MOD_ADD (req_wi cl) (int p) < int p"
    using Suc.prems(7,8) by (intro mod_add_range) auto
  have "ss_client_prepare (int p) (Suc n) cl = ss_client_prepare (int p) n ?cl"
    using Suc.prems(6) pr(1) by (simp add: hrd_post_dgram_recv_def ss_consts)
  moreover have "nat (req_wi cl) < p" using Suc.prems(7,8) by linarith
  moreover have "\<exists>q w recvs. ss_client_prepare (int p) n ?cl = Inr (?cl\<lparr>sc_recvs := recvs, sc_tx := q, req_wi := w\<rparr>)
    \<and> tx_ok 64 (?p + n) q \<and> length recvs = length (sc_recvs ?cl) + n \<and> 0 \<le> w \<and> w < int p
    \<and> (\<forall>r\<in>set recvs. snd r = 48 \<and> (\<exists>i<p. fst r = i * 64))"
    by (rule Suc.IH) (use Suc.prems pr(2) w calculation(2) in auto)
  ultimately show ?case by auto
qed

lemma client_send_ok:
  assumes "client_ok p f cl" "0 < reqs_to_send cl" "p \<le> 32"
  shows "\<exists>cl'. ss_client_send (int p) cl = Inr (cl', replicate (reqs_to_send cl) (ucast (drop_bit 32 (counter_hi cl))))
    \<and> client_ok p (f + reqs_to_send cl) cl' \<and> sc_cq cl' = sc_cq cl \<and> counter_hi cl' = counter_hi cl \<and> sc_got cl' = sc_got cl
    \<and> sc_buf cl' = sc_buf cl \<and> reqs_to_send cl' = 0"
proof -
  let ?n = "reqs_to_send cl"
  have c: "f + length (sc_cq cl) + ?n = p" "length (sc_recvs cl) = f" "tx_ok 64 0 (sc_tx cl)" "0 \<le> req_wi cl" "req_wi cl < int p"
    "\<forall>r\<in>set (sc_recvs cl). snd r = 48 \<and> (\<exists>i<p. fst r = i * 64)" using assms(1) by (auto simp: client_ok_def)
  have e: "nb_tx (sc_tx cl) = posted (sc_tx cl) + 0" using c(3) by (simp add: tx_ok_def)
  obtain q w recvs where r: "ss_client_prepare (int p) ?n cl = Inr (cl\<lparr>sc_recvs := recvs, sc_tx := q, req_wi := w\<rparr>)"
    "tx_ok 64 (0 + ?n) q" "length recvs = length (sc_recvs cl) + ?n" "0 \<le> w" "w < int p"
    "\<forall>r\<in>set recvs. snd r = 48 \<and> (\<exists>i<p. fst r = i * 64)"
    using client_prepare_ok [of ?n p 0 cl] c e assms(3) by auto
  note post = tx_post_ok [of 64 ?n q]
  have p: "tx_post 64 q = Inr (q\<lparr>posted := nb_tx q\<rparr>)" "tx_ok 64 0 (q\<lparr>posted := nb_tx q\<rparr>)"
    using post r(2) by (simp_all add: HRD_Q_DEPTH_def)
  show ?thesis
    by (intro exI [of _ "cl\<lparr>sc_recvs := recvs, sc_tx := q\<lparr>posted := nb_tx q\<rparr>, req_wi := w, reqs_to_send := 0\<rparr>"])
      (use r p c assms(2) in \<open>auto simp: ss_client_send_def ss_consts client_ok_def\<close>)
qed

lemma read_resps_frame:
  "sc_recvs (ss_read_resps i ws cl) = sc_recvs cl" "sc_tx (ss_read_resps i ws cl) = sc_tx cl"
  "req_wi (ss_read_resps i ws cl) = req_wi cl"
  by (induction i ws cl rule: ss_read_resps.induct) (simp_all add: ss_read_resp_def Let_def split: option.splits)

lemma client_poll_ok:
  assumes "client_ok p f cl" "k \<le> length (sc_cq cl)" "reqs_to_send cl = 0"
  shows "client_ok p f (ss_client_poll k cl)"
  using assms by (simp add: client_ok_def ss_client_poll_def Let_def read_resps_frame)

lemma deliver_ok:
  assumes "client_ok p f cl" "0 < f"
  shows "\<exists>cl'. ss_deliver r cl = Some cl' \<and> client_ok p (f - 1) cl' \<and> counter_hi cl' = counter_hi cl \<and> sc_got cl' = sc_got cl
    \<and> sc_cq cl' = sc_cq cl @ [case r of RespImm i \<Rightarrow> Some i | RespFull v \<Rightarrow> None]
    \<and> (\<forall>v. r = RespFull v \<longrightarrow> (\<exists>i<p. sc_buf cl' = (sc_buf cl)(i * 64 + 40 := v)))
    \<and> reqs_to_send cl' = reqs_to_send cl"
proof -
  obtain a rs where a: "sc_recvs cl = a # rs" using assms by (cases "sc_recvs cl") (auto simp: client_ok_def)
  then obtain i where i: "a = (i * 64, 48)" "i < p" using assms(1) by (cases a) (auto simp: client_ok_def)
  show ?thesis using a i assms by (cases r) (auto simp: ss_deliver_def client_ok_def)
qed

subsection \<open>The server\<close>

lemma answers_ok:
  assumes "j + length ws \<le> 32" "tx_ok 64 j q" "nb_tx q = posted q + j"
  shows "\<exists>q'. ss_answers v ws q =
      Inr (map (\<lambda>i. (fst (ws ! i), v + of_nat i, ss_answer (snd (ws ! i)) (v + of_nat i))) [0..<length ws], q')
    \<and> tx_ok 64 (j + length ws) q'"
  using assms
proof (induction ws arbitrary: v j q)
  case (Cons w ws)
  obtain c imm where w: "w = (c, imm)" by (cases w)
  let ?q = "q\<lparr>nb_tx := nb_tx q + 1, polled := (nb_tx q + 1) div 64\<rparr>"
  have t: "tx_ok 64 (j + 1) q" using Cons.prems(2) by (rule tx_ok_mono) simp
  have u: "(64 :: nat) = 2 ^ 6" "j + 1 < 64" "nb_tx q < posted q + (j + 1)" using Cons.prems(1,3) by auto
  note pr = tx_prepare_ok [OF u(1,2) t u(3)]
  obtain q' where r: "ss_answers (v + 1) ws ?q =
      Inr (map (\<lambda>i. (fst (ws ! i), v + 1 + of_nat i, ss_answer (snd (ws ! i)) (v + 1 + of_nat i))) [0..<length ws], q')"
    "tx_ok 64 (j + 1 + length ws) q'"
    using Cons.IH [of "j + 1" ?q "v + 1"] Cons.prems pr(2) by auto
  have "[0..<length (w # ws)] = 0 # map Suc [0..<length ws]" by (simp add: map_Suc_upt upt_conv_Cons del: upt_Suc)
  thus ?case using r pr(1) by (simp add: w ss_consts comp_def ac_simps del: upt_Suc)
qed simp

lemma server_poll_ok:
  assumes "server_ok k sv" "n \<le> length (sv_cq sv)" "n \<le> 32"
  shows "\<exists>sv'. ss_server_poll n v sv = Inr (v + of_nat n, sv',
      map (\<lambda>i. (fst (sv_cq sv ! i), v + of_nat i, ss_answer (snd (sv_cq sv ! i)) (v + of_nat i))) [0..<n])
    \<and> server_ok k sv' \<and> sv_cq sv' = drop n (sv_cq sv)"
proof (cases "n = 0")
  case True
  thus ?thesis using assms(1) by (simp add: ss_server_poll_def)
next
  case False
  let ?i = "nat (sv_qp sv)"
  have ok: "sv_recvs sv + length (sv_cq sv) = 128" "\<forall>i. tx_ok 64 0 (sv_tx sv i)" "0 \<le> sv_qp sv" "sv_qp sv < 3"
    using assms(1) by (simp_all add: server_ok_def)
  have t: "tx_ok 64 0 (sv_tx sv ?i)" using ok(2) by blast
  have len: "length (take n (sv_cq sv)) = n" using assms(2) by simp
  from t have t2: "nb_tx (sv_tx sv ?i) = posted (sv_tx sv ?i) + 0" by (simp add: tx_ok_def)
  obtain q where q: "ss_answers v (take n (sv_cq sv)) (sv_tx sv ?i) =
      Inr (map (\<lambda>i. (fst (take n (sv_cq sv) ! i), v + of_nat i, ss_answer (snd (take n (sv_cq sv) ! i)) (v + of_nat i))) [0..<n], q)"
    "tx_ok 64 n q"
    using answers_ok [of 0 "take n (sv_cq sv)" "sv_tx sv ?i" v, unfolded len] t t2 assms(3) by auto
  have p: "tx_post 64 q = Inr (q\<lparr>posted := nb_tx q\<rparr>)" "tx_ok 64 0 (q\<lparr>posted := nb_tx q\<rparr>)"
    using tx_post_ok [of 64 n q] q(2) by (simp_all add: HRD_Q_DEPTH_def)
  have m: "map (\<lambda>i. (fst (take n (sv_cq sv) ! i), v + of_nat i, ss_answer (snd (take n (sv_cq sv) ! i)) (v + of_nat i))) [0..<n]
     = map (\<lambda>i. (fst (sv_cq sv ! i), v + of_nat i, ss_answer (snd (sv_cq sv ! i)) (v + of_nat i))) [0..<n]" by simp
  have r: "0 \<le> HRD_MOD_ADD (sv_qp sv) 3 \<and> HRD_MOD_ADD (sv_qp sv) 3 < 3" using ok(3,4) by (intro mod_add_range) auto
  let ?sv = "sv\<lparr>sv_recvs := sv_recvs sv + n, sv_cq := drop n (sv_cq sv), sv_tx := (sv_tx sv)(?i := q\<lparr>posted := nb_tx q\<rparr>),
      sv_qp := HRD_MOD_ADD (sv_qp sv) 3\<rparr>"
  have "server_ok k ?sv" using assms ok p(2) r by (auto simp: server_ok_def dest: in_set_dropD)
  thus ?thesis using False ok(1) assms(2) q(1) p(1) unfolding m
    by (intro exI [of _ ?sv]) (simp add: ss_server_poll_def ss_consts)
qed

subsection \<open>The system\<close>

lemma ss_inv_client:
  assumes "ss_inv p s" "c < 70"
  shows "client_ok p (in_flight c s) (ss_clients s c)"
  using assms by (simp add: ss_inv_def)

text \<open>A request always finds a RECV: a server thread has at most seven clients.\<close>

lemma server_has_recv:
  assumes inv: "ss_inv p s" and p: "p * 7 < 128" and r: "r \<in> set (ss_reqs s)"
  shows "0 < sv_recvs (ss_servers s (fst r mod 10))"
proof -
  let ?k = "fst r mod 10" and ?S = "{c. c < 70 \<and> c mod 10 = fst r mod 10}"
  let ?q = "map (\<lambda>x. (fst x, ())) (sv_cq (ss_servers s ?k)) @ map (\<lambda>x. (fst x, ())) (filter (\<lambda>x. fst x mod 10 = ?k) (ss_reqs s))"
  have sv: "server_ok ?k (ss_servers s ?k)" using inv by (simp add: ss_inv_def)
  have "card ?S \<le> 7"
  proof -
    have "?S \<subseteq> (\<lambda>i. i * 10 + ?k) ` {..<7}"
    proof
      fix c assume "c \<in> ?S"
      hence "c = c div 10 * 10 + ?k" "c div 10 < 7" using div_mult_mod_eq [of c 10] by auto
      thus "c \<in> (\<lambda>i. i * 10 + ?k) ` {..<7}" by blast
    qed
    thus ?thesis using card_mono [of "(\<lambda>i. i * 10 + ?k) ` {..<7}" ?S] card_image_le [of "{..<7}" "\<lambda>i. i * 10 + ?k"] by simp
  qed
  moreover have "length ?q \<le> card ?S * p"
  proof (rule length_cnt)
    have "\<forall>x\<in>set (sv_cq (ss_servers s ?k)). fst x < 70 \<and> fst x mod 10 = ?k" "\<forall>x\<in>set (ss_reqs s). fst x < 70"
      using sv inv by (simp_all add: server_ok_def ss_inv_def)
    thus "fst ` set ?q \<subseteq> ?S" by fastforce
    fix c assume c: "c \<in> ?S"
    have "cnt c ?q \<le> cnt c (sv_cq (ss_servers s ?k)) + cnt c (ss_reqs s)"
      using cnt_filter_le [of c "\<lambda>x. fst x mod 10 = ?k" "ss_reqs s"] by (simp add: cnt_map_unit)
    also have "\<dots> \<le> p" using ss_inv_client [OF inv, of c] c by (simp add: client_ok_def in_flight_def)
    finally show "cnt c ?q \<le> p" .
  qed simp
  moreover have "length (sv_cq (ss_servers s ?k)) < length ?q"
  proof -
    have "filter (\<lambda>x. fst x mod 10 = ?k) (ss_reqs s) \<noteq> []" using r by (auto simp: filter_empty_conv)
    thus ?thesis by simp
  qed
  ultimately have "length (sv_cq (ss_servers s ?k)) < 7 * p" using mult_le_mono1 [of "card ?S" 7 p] by linarith
  thus ?thesis using sv p by (simp add: server_ok_def)
qed

text \<open>Changing one client, with the datagrams of the others unchanged.\<close>

lemma ss_inv_upd_client:
  assumes inv: "ss_inv p s" and c: "c < 70" and cl: "client_ok p (in_flight c s') cl"
    and s': "ss_clients s' = (ss_clients s)(c := cl)" "ss_servers s' = ss_servers s" "ss_lost s' = ss_lost s"
      "ss_log s' = ss_log s" "ss_counter s' = ss_counter s"
    and fl: "\<And>d. d \<noteq> c \<Longrightarrow> in_flight d s' = in_flight d s"
    and nets: "\<forall>r\<in>set (ss_reqs s'). fst r < 70" "\<forall>r\<in>set (ss_resps s'). fst r < 70"
  shows "ss_inv p s'"
  using inv c cl fl nets unfolding ss_inv_def s' by simp

lemma exec_client_send:
  assumes inv: "ss_inv p s" and p: "p \<le> 32"
  shows "\<exists>s'. ss_exec (int p) ps (ClientSend c) s = Inr s' \<and> ss_inv p s'"
proof (cases "c < 70 \<and> 0 < reqs_to_send (ss_clients s c)")
  case True
  let ?cl = "ss_clients s c" and ?imm = "ucast (drop_bit 32 (counter_hi (ss_clients s c))) :: u32"
  obtain cl where cl: "ss_client_send (int p) ?cl = Inr (cl, replicate (reqs_to_send ?cl) ?imm)"
    "client_ok p (in_flight c s + reqs_to_send ?cl) cl"
    using client_send_ok [OF ss_inv_client [OF inv] _ p] True by blast
  let ?s = "s\<lparr>ss_clients := (ss_clients s)(c := cl), ss_reqs := ss_reqs s @ map (Pair c) (replicate (reqs_to_send ?cl) ?imm)\<rparr>"
  have "cnt d (ss_reqs ?s) = cnt d (ss_reqs s) + (if d = c then reqs_to_send ?cl else 0)" for d
    by (simp add: cnt_map_Pair del: map_replicate)
  hence f: "in_flight d ?s = in_flight d s + (if d = c then reqs_to_send ?cl else 0)" for d
    by (simp add: in_flight_def del: map_replicate)
  have "ss_inv p ?s"
    by (rule ss_inv_upd_client [OF inv, of c _ cl])
      (use True inv cl(2) in \<open>auto simp: f ss_inv_def simp del: map_replicate\<close>)
  thus ?thesis using True cl(1) by (simp add: ss_consts)
qed (use inv in \<open>auto simp: ss_consts\<close>)

lemma exec_client_poll:
  assumes inv: "ss_inv p s"
  shows "\<exists>s'. ss_exec (int p) ps (ClientPoll c k) s = Inr s' \<and> ss_inv p s'"
proof -
  let ?cl = "ss_clients s c"
  let ?k = "min k (min (nat (int p)) (length (sc_cq ?cl)))"
  let ?s = "s\<lparr>ss_clients := (ss_clients s)(c := ss_client_poll ?k ?cl)\<rparr>"
  show ?thesis
  proof (cases "c < 70 \<and> reqs_to_send ?cl = 0 \<and> 0 < ?k")
    case True
    hence c: "c < 70" by simp
    have "ss_inv p ?s"
      by (rule ss_inv_upd_client [OF inv c, of _ "ss_client_poll ?k ?cl"])
        (use True inv client_poll_ok [OF ss_inv_client [OF inv c], of ?k] in \<open>simp_all add: in_flight_def ss_inv_def\<close>)
    thus ?thesis using True by (simp add: Let_def ss_consts)
  qed (use inv in \<open>auto simp: Let_def ss_consts\<close>)
qed

lemma exec_resp_arrives:
  assumes inv: "ss_inv p s"
  shows "\<exists>s'. ss_exec (int p) ps (RespArrives j) s = Inr s' \<and> ss_inv p s'"
proof (cases "j < length (ss_resps s)")
  case True
  obtain c r where cr: "ss_resps s ! j = (c, r)" by (cases "ss_resps s ! j")
  let ?l = "take j (ss_resps s) @ drop (j + 1) (ss_resps s)"
  have mem: "(c, r) \<in> set (ss_resps s)" using cr True nth_mem by metis
  hence c: "c < 70" using inv by (force simp: ss_inv_def)
  note rm = cnt_remove [OF True, unfolded cr]
  have pos: "0 < in_flight c s" using rm [of c] by (simp add: in_flight_def)
  obtain cl where d: "ss_deliver r (ss_clients s c) = Some cl" "client_ok p (in_flight c s - 1) cl"
    using deliver_ok [OF ss_inv_client [OF inv c] pos] by blast
  let ?s = "s\<lparr>ss_resps := ?l, ss_clients := (ss_clients s)(c := cl)\<rparr>"
  have "in_flight c ?s = in_flight c s - 1" using rm [of c] by (simp add: in_flight_def)
  moreover have "in_flight d ?s = in_flight d s" if "d \<noteq> c" for d using rm [of d] that by (simp add: in_flight_def)
  moreover have "\<forall>r\<in>set ?l. fst r < 70" using inv set_removed [of j "ss_resps s" "j + 1"] by (auto simp: ss_inv_def)
  ultimately have "ss_inv p ?s"
    using d(2) inv by (intro ss_inv_upd_client [OF inv c, of _ cl]) (simp_all add: ss_inv_def)
  thus ?thesis using True cr d(1) by simp
qed (use inv in simp)

text \<open>Changing one server, with the datagrams of every client in the same number.\<close>

lemma ss_inv_upd_server:
  assumes inv: "ss_inv p s" and sv: "server_ok k sv"
    and s': "ss_clients s' = ss_clients s" "ss_servers s' = (ss_servers s)(k := sv)" "ss_lost s' = ss_lost s"
    and log: "map snd (ss_log s') = map of_nat [0..<length (ss_log s')]" "ss_counter s' = of_nat (length (ss_log s'))"
    and fl: "\<And>d. d < 70 \<Longrightarrow> in_flight d s' = in_flight d s"
    and nets: "\<forall>r\<in>set (ss_reqs s'). fst r < 70" "\<forall>r\<in>set (ss_resps s'). fst r < 70"
  shows "ss_inv p s'"
  using inv sv log fl nets unfolding ss_inv_def s' by simp

lemma exec_req_arrives:
  assumes inv: "ss_inv p s" and p: "p * 7 < 128"
  shows "\<exists>s'. ss_exec (int p) ps (ReqArrives j) s = Inr s' \<and> ss_inv p s'"
proof (cases "j < length (ss_reqs s)")
  case True
  let ?r = "ss_reqs s ! j" and ?l = "take j (ss_reqs s) @ drop (j + 1) (ss_reqs s)"
  let ?k = "fst ?r mod 10"
  let ?sv = "(ss_servers s ?k)\<lparr>sv_recvs := sv_recvs (ss_servers s ?k) - 1, sv_cq := sv_cq (ss_servers s ?k) @ [?r]\<rparr>"
  have mem: "?r \<in> set (ss_reqs s)" using True by simp
  have c: "fst ?r < 70" using inv mem by (simp add: ss_inv_def)
  have pos: "0 < sv_recvs (ss_servers s ?k)" by (rule server_has_recv [OF inv p mem])
  have sv: "server_ok ?k ?sv" using inv pos c by (auto simp: ss_inv_def server_ok_def)
  let ?s = "s\<lparr>ss_reqs := ?l, ss_servers := (ss_servers s)(?k := ?sv)\<rparr>"
  have "in_flight d ?s = in_flight d s" for d
    using cnt_remove [OF True, of d] by (cases "fst ?r = d") (auto simp: in_flight_def)
  moreover have "\<forall>r\<in>set ?l. fst r < 70" using inv set_removed [of j "ss_reqs s" "j + 1"] by (auto simp: ss_inv_def)
  ultimately have "ss_inv p ?s" using inv by (intro ss_inv_upd_server [OF inv sv]) (simp_all add: ss_inv_def)
  thus ?thesis using True pos by (simp add: ss_arrive_def ss_consts Let_def)
qed (use inv in simp)

lemma exec_server_poll:
  assumes inv: "ss_inv p s" and ps: "ps \<le> 32"
  shows "\<exists>s'. ss_exec (int p) ps (ServerPoll k n) s = Inr s' \<and> ss_inv p s'"
proof -
  let ?sv = "ss_servers s k" and ?v = "ss_counter s"
  define m where "m = min n (min (nat ps) (length (sv_cq ?sv)))"
  have m: "m \<le> length (sv_cq ?sv)" "m \<le> 32" using ps by (auto simp: m_def)
  have sok: "server_ok k ?sv" using inv by (simp add: ss_inv_def)
  let ?f = "\<lambda>i. (fst (sv_cq ?sv ! i), ?v + of_nat i, ss_answer (snd (sv_cq ?sv ! i)) (?v + of_nat i))"
  obtain sv where r: "ss_server_poll m ?v ?sv = Inr (?v + of_nat m, sv, map ?f [0..<m])" "server_ok k sv" "sv_cq sv = drop m (sv_cq ?sv)"
    using server_poll_ok [OF sok m] by blast
  let ?s = "s\<lparr>ss_servers := (ss_servers s)(k := sv), ss_counter := ?v + of_nat m,
     ss_resps := ss_resps s @ map (\<lambda>(c, v, r). (c, r)) (map ?f [0..<m]), ss_log := ss_log s @ map (\<lambda>(c, v, r). (c, v)) (map ?f [0..<m])\<rparr>"
  have t: "map (\<lambda>i. fst (sv_cq ?sv ! i)) [0..<m] = map fst (take m (sv_cq ?sv))"
    using m(1) by (intro nth_equalityI) simp_all
  have cn: "cnt d (map (\<lambda>(c, v, r). (c, r)) (map ?f [0..<m])) = cnt d (take m (sv_cq ?sv))" for d
  proof -
    have e: "cnt d xs = length (filter (\<lambda>x. x = d) (map fst xs))" for xs :: "(nat \<times> 'z) list"
      by (simp add: cnt_def filter_map comp_def)
    show ?thesis unfolding e t [symmetric] by (simp add: comp_def)
  qed
  have q: "\<forall>x\<in>set (sv_cq ?sv). fst x < 70 \<and> fst x mod 10 = k" using sok by (simp add: server_ok_def)
  have "in_flight d ?s = in_flight d s" for d
  proof (cases "d mod 10 = k")
    case True
    thus ?thesis using cnt_take_drop [of d m "sv_cq ?sv"] by (simp add: in_flight_def cn r(3) del: map_map)
  next
    case False
    have "cnt d (take m (sv_cq ?sv)) = 0" unfolding cnt_def using q False by (auto simp: filter_empty_conv dest!: in_set_takeD)
    thus ?thesis using False by (simp add: in_flight_def cn del: map_map)
  qed
  moreover have "\<forall>r\<in>set (ss_resps ?s). fst r < 70" using inv q m(1) by (auto simp: ss_inv_def)
  moreover have "map snd (ss_log ?s) = map of_nat [0..<length (ss_log ?s)]"
  proof -
    have "map (\<lambda>i. ?v + of_nat i) [0..<m] = map of_nat [length (ss_log s)..<length (ss_log s) + m]"
      using inv by (intro nth_equalityI) (simp_all add: ss_inv_def)
    moreover have "[0..<length (ss_log s) + m] = [0..<length (ss_log s)] @ [length (ss_log s)..<length (ss_log s) + m]"
      using upt_add_eq_append [of 0 "length (ss_log s)" m] by simp
    ultimately show ?thesis using inv by (simp add: ss_inv_def comp_def)
  qed
  ultimately have "ss_inv p ?s"
    using inv by (intro ss_inv_upd_server [OF inv r(2)]) (simp_all add: ss_inv_def)
  moreover have "ss_exec (int p) ps (ServerPoll k n) s = Inr ?s" using r(1) by (simp add: Let_def m_def [symmetric])
  ultimately show ?thesis by blast
qed

lemma exec_ok:
  assumes "ss_inv p s" "p * 7 < 128" "ps \<le> 32"
  shows "\<exists>s'. ss_exec (int p) ps a s = Inr s' \<and> ss_inv p s'"
proof -
  have p: "p \<le> 32" using assms(2) by simp
  show ?thesis
  proof (cases a)
    case (ClientSend c) show ?thesis unfolding ClientSend by (rule exec_client_send [OF assms(1) p])
  next
    case (ReqArrives j) show ?thesis unfolding ReqArrives by (rule exec_req_arrives [OF assms(1,2)])
  next
    case (ServerPoll k n) show ?thesis unfolding ServerPoll by (rule exec_server_poll [OF assms(1,3)])
  next
    case (RespArrives j) show ?thesis unfolding RespArrives by (rule exec_resp_arrives [OF assms(1)])
  next
    case (ClientPoll c k) show ?thesis unfolding ClientPoll by (rule exec_client_poll [OF assms(1)])
  qed
qed

lemma ss_run_ok:
  assumes "p * 7 < 128" "ps \<le> 32" "ss_inv p s"
  shows "\<exists>s'. ss_run (int p) ps as s = Inr s' \<and> ss_inv p s'"
  using assms(3)
proof (induction as arbitrary: s)
  case (Cons a as)
  obtain s1 where "ss_exec (int p) ps a s = Inr s1" "ss_inv p s1" using exec_ok [OF Cons.prems assms(1,2)] by blast
  thus ?case using Cons.IH by simp
qed simp

lemma start_inv:
  assumes "ss_start (int p) = Inr s" "0 < p"
  shows "ss_inv p s" "p * 7 < 128"
  using assms by (auto simp: ss_start_def ss_client_init_def res_simps ss_consts ss_inv_def client_ok_def server_ok_def
      in_flight_def ss_server_init_def)

subsection \<open>One outstanding request\<close>

definition hi32 :: "ss_client \<Rightarrow> u32" where
  "hi32 cl = ucast (drop_bit 32 (counter_hi cl))"

definition proj :: "nat \<Rightarrow> (nat \<times> 'a) list \<Rightarrow> 'a list" where
  "proj c xs = map snd (filter (\<lambda>x. fst x = c) xs)"

lemma proj_simps [simp]:
  "proj c [] = []" "proj c (x # xs) = (if fst x = c then [snd x] else []) @ proj c xs" "proj c (xs @ ys) = proj c xs @ proj c ys"
  by (simp_all add: proj_def)

lemma length_proj: "length (proj c xs) = cnt c xs"
  by (simp add: proj_def cnt_def)

lemma proj_remove:
  assumes "j < length xs"
  shows "fst (xs ! j) \<noteq> c \<Longrightarrow> proj c (take j xs @ drop (j + 1) xs) = proj c xs"
    and "fst (xs ! j) = c \<Longrightarrow> length (proj c xs) \<le> 1 \<Longrightarrow> proj c (take j xs @ drop (j + 1) xs) = [] \<and> proj c xs = [snd (xs ! j)]"
proof -
  have e: "proj c xs = proj c (take j xs @ xs ! j # drop (j + 1) xs)" using id_take_nth_drop [OF assms] by simp
  show "fst (xs ! j) \<noteq> c \<Longrightarrow> proj c (take j xs @ drop (j + 1) xs) = proj c xs" using e by simp
  show "fst (xs ! j) = c \<Longrightarrow> length (proj c xs) \<le> 1 \<Longrightarrow> proj c (take j xs @ drop (j + 1) xs) = [] \<and> proj c xs = [snd (xs ! j)]"
    using e by simp
qed

text \<open>
  A client with the immediates \<open>R\<close> of its requests on the way, the responses \<open>Rs\<close> on the way and the numbers
  \<open>L\<close> assigned to it: the last number may still be in a response or a completion.
\<close>

definition resp_of :: "ss_client \<Rightarrow> u64 \<Rightarrow> u32 option \<Rightarrow> bool" where
  "resp_of cl v w \<longleftrightarrow> (case w of None \<Rightarrow> sc_buf cl 40 = v | Some i \<Rightarrow> ss_answer (hi32 cl) v = RespImm i)"

definition exact1 :: "ss_client \<Rightarrow> u32 list \<Rightarrow> ss_resp list \<Rightarrow> u64 list \<Rightarrow> bool" where
  "exact1 cl R Rs L \<longleftrightarrow> counter_hi cl = push_bit 32 (drop_bit 32 (counter_hi cl)) \<and> (\<forall>i\<in>set R. i = hi32 cl)
     \<and> (if Rs = [] \<and> sc_cq cl = [] then L = sc_got cl
        else \<exists>v. L = sc_got cl @ [v] \<and> (\<forall>r\<in>set Rs. r = ss_answer (hi32 cl) v) \<and> (\<forall>w\<in>set (sc_cq cl). resp_of cl v w))"

definition on_way :: "nat \<Rightarrow> ss_sys \<Rightarrow> u32 list" where
  "on_way c s = proj c (ss_reqs s) @ proj c (sv_cq (ss_servers s (c mod 10)))"

definition ss_exact :: "ss_sys \<Rightarrow> bool" where
  "ss_exact s \<longleftrightarrow> (\<forall>c<70. exact1 (ss_clients s c) (on_way c s) (proj c (ss_resps s)) (proj c (ss_log s)))"

lemma answer_decodes:
  assumes "counter_hi cl = push_bit 32 (drop_bit 32 (counter_hi cl))" "ss_answer (hi32 cl) v = RespImm i"
  shows "counter_hi cl + ucast i = v"
proof -
  have e: "hi32 cl = ucast (drop_bit 32 v)" "i = ucast (v AND 0xffffffff)"
    using assms(2) by (simp_all add: ss_answer_def split: if_splits)
  have "drop_bit 32 (counter_hi cl) = drop_bit 32 v"
  proof (rule bit_word_eqI)
    fix n
    show "bit (drop_bit 32 (counter_hi cl)) n = bit (drop_bit 32 v) n"
    proof (cases "n < 32")
      case True
      have "bit (ucast (drop_bit 32 (counter_hi cl)) :: u32) n = bit (ucast (drop_bit 32 v) :: u32) n"
        using e(1) by (simp add: hi32_def)
      thus ?thesis using True by (simp add: bit_ucast_iff)
    qed (auto simp: bit_drop_bit_eq dest: bit_imp_le_length)
  qed
  hence h: "counter_hi cl = push_bit 32 (drop_bit 32 v)" using assms(1) by simp
  have m: "(0xffffffff :: u64) = mask 32" by (simp add: mask_eq_exp_minus_1)
  have l: "ucast i = take_bit 32 v" unfolding e(2) m
    by (rule bit_word_eqI) (auto simp: bit_simps)
  show ?thesis unfolding h l by (subst disjunctive_add) (auto simp: bit_simps intro!: bit_word_eqI)
qed

lemma hi_idem: "push_bit 32 (drop_bit 32 (push_bit 32 (drop_bit 32 v))) = push_bit 32 (drop_bit 32 (v :: u64))"
  by (rule bit_word_eqI) (auto simp: bit_push_bit_iff bit_drop_bit_eq)

lemma client_one:
  assumes "ss_inv 1 s" "c < 70"
  shows "cnt c (ss_reqs s) + cnt c (sv_cq (ss_servers s (c mod 10))) + cnt c (ss_resps s) + length (sc_cq (ss_clients s c))
      + reqs_to_send (ss_clients s c) = 1"
  using ss_inv_client [OF assms] by (simp add: client_ok_def in_flight_def)

text \<open>Clients that an action does not concern.\<close>

lemma exact_frame:
  assumes "exact1 (ss_clients s c) (on_way c s) (proj c (ss_resps s)) (proj c (ss_log s))"
    "ss_clients s' c = ss_clients s c" "set (on_way c s') \<subseteq> set (on_way c s)" "proj c (ss_resps s') = proj c (ss_resps s)"
    "proj c (ss_log s') = proj c (ss_log s)"
  shows "exact1 (ss_clients s' c) (on_way c s') (proj c (ss_resps s')) (proj c (ss_log s'))"
  using assms by (auto simp: exact1_def)

lemma exact_step:
  assumes "ss_exact s" "exact1 (ss_clients s' c) (on_way c s') (proj c (ss_resps s')) (proj c (ss_log s'))"
    "\<And>d. d \<noteq> c \<Longrightarrow> ss_clients s' d = ss_clients s d" "\<And>d. d \<noteq> c \<Longrightarrow> set (on_way d s') \<subseteq> set (on_way d s)"
    "\<And>d. d \<noteq> c \<Longrightarrow> proj d (ss_resps s') = proj d (ss_resps s)" "\<And>d. d \<noteq> c \<Longrightarrow> proj d (ss_log s') = proj d (ss_log s)"
  shows "ss_exact s'"
  unfolding ss_exact_def
proof (intro allI impI)
  fix d assume d: "d < (70 :: nat)"
  show "exact1 (ss_clients s' d) (on_way d s') (proj d (ss_resps s')) (proj d (ss_log s'))"
  proof (cases "d = c")
    case True
    thus ?thesis using assms(2) by simp
  next
    case False
    have "exact1 (ss_clients s d) (on_way d s) (proj d (ss_resps s)) (proj d (ss_log s))" using assms(1) d by (simp add: ss_exact_def)
    thus ?thesis by (rule exact_frame) (use assms(3-6) False in simp_all)
  qed
qed

lemma proj_map_Pair: "proj c (map (Pair d) xs) = (if c = d then xs else [])"
  by (induction xs) simp_all

lemma exact_send:
  assumes inv: "ss_inv 1 s" and ex: "ss_exact s" and run: "ss_exec (int 1) ps (ClientSend c) s = Inr s'"
  shows "ss_exact s'"
proof (cases "c < 70 \<and> 0 < reqs_to_send (ss_clients s c)")
  case True
  let ?cl = "ss_clients s c"
  have "length (sc_cq ?cl) = 0" using client_one [OF inv, of c] True by linarith
  hence tok0: "sc_cq ?cl = []" by simp
  have tok: "cnt c (ss_resps s) = 0" "sc_cq ?cl = []" "reqs_to_send ?cl = 1" "cnt c (ss_reqs s) = 0" "cnt c (sv_cq (ss_servers s (c mod 10))) = 0"
    using client_one [OF inv, of c] True tok0 by (linarith | assumption)+
  obtain cl where cl: "ss_client_send (int 1) ?cl = Inr (cl, replicate (reqs_to_send ?cl) (ucast (drop_bit 32 (counter_hi ?cl))))"
    "sc_cq cl = sc_cq ?cl" "counter_hi cl = counter_hi ?cl" "sc_got cl = sc_got ?cl"
    using client_send_ok [OF ss_inv_client [OF inv, of c]] True by auto
  have s': "s' = s\<lparr>ss_clients := (ss_clients s)(c := cl), ss_reqs := ss_reqs s @ map (Pair c) [hi32 ?cl]\<rparr>"
    using run True cl(1) tok(3) by (simp add: ss_consts hi32_def)
  have z: "proj c (ss_resps s) = []" "proj c (ss_reqs s) = []" "proj c (sv_cq (ss_servers s (c mod 10))) = []"
    using tok length_proj by (metis length_0_conv)+
  have exc: "exact1 ?cl (on_way c s) (proj c (ss_resps s)) (proj c (ss_log s))" using ex True by (simp add: ss_exact_def)
  have "exact1 cl [hi32 ?cl] [] (proj c (ss_log s))"
    using exc cl(2-4) z tok(2) by (simp add: exact1_def on_way_def hi32_def)
  hence "exact1 (ss_clients s' c) (on_way c s') (proj c (ss_resps s')) (proj c (ss_log s'))"
    using z by (simp add: s' on_way_def)
  thus ?thesis by (rule exact_step [OF ex]) (simp_all add: s' on_way_def)
qed (use assms in \<open>auto simp: ss_consts\<close>)

lemma exact_req_arrives:
  assumes inv: "ss_inv 1 s" and ex: "ss_exact s" and run: "ss_exec (int 1) ps (ReqArrives j) s = Inr s'"
  shows "ss_exact s'"
proof (cases "j < length (ss_reqs s)")
  case True
  let ?r = "ss_reqs s ! j" and ?l = "take j (ss_reqs s) @ drop (j + 1) (ss_reqs s)"
  let ?k = "fst ?r mod 10"
  have mem: "?r \<in> set (ss_reqs s)" using True by simp
  have pos: "0 < sv_recvs (ss_servers s ?k)" by (rule server_has_recv [OF inv _ mem]) simp
  let ?sv = "(ss_servers s ?k)\<lparr>sv_recvs := sv_recvs (ss_servers s ?k) - 1, sv_cq := sv_cq (ss_servers s ?k) @ [?r]\<rparr>"
  have s': "s' = s\<lparr>ss_reqs := ?l, ss_servers := (ss_servers s)(?k := ?sv)\<rparr>"
    using run True pos by (simp add: ss_arrive_def ss_consts Let_def)
  have sub: "set (on_way d s') \<subseteq> set (on_way d s)" for d
  proof -
    have "set (proj d ?l) \<subseteq> set (proj d (ss_reqs s))"
      using set_removed [of j "ss_reqs s" "j + 1"] by (auto simp: proj_def)
    moreover have "fst ?r = d \<Longrightarrow> snd ?r \<in> set (proj d (ss_reqs s))" using mem by (auto simp: proj_def)
    moreover have "set (proj d (sv_cq (ss_servers s ?k) @ [?r])) \<subseteq> set (proj d (sv_cq (ss_servers s ?k))) \<union> (if fst ?r = d then {snd ?r} else {})"
      by simp
    ultimately show ?thesis by (auto simp: s' on_way_def simp del: proj_simps(3) split: if_splits)
  qed
  have "exact1 (ss_clients s d) (on_way d s') (proj d (ss_resps s)) (proj d (ss_log s))" if "d < 70" for d
    using ex that sub [of d] by (auto simp: ss_exact_def exact1_def)
  thus ?thesis by (simp add: ss_exact_def s')
qed (use assms in auto)

lemma exact_resp_arrives:
  assumes inv: "ss_inv 1 s" and ex: "ss_exact s" and run: "ss_exec (int 1) ps (RespArrives j) s = Inr s'"
  shows "ss_exact s'"
proof (cases "j < length (ss_resps s)")
  case True
  obtain c r where cr: "ss_resps s ! j = (c, r)" by (cases "ss_resps s ! j")
  let ?l = "take j (ss_resps s) @ drop (j + 1) (ss_resps s)" and ?cl = "ss_clients s c"
  have mem: "(c, r) \<in> set (ss_resps s)" using cr True nth_mem by metis
  hence c: "c < 70" using inv by (force simp: ss_inv_def)
  have p1: "0 < cnt c (ss_resps s)" using cnt_remove [OF True, of c] by (simp add: cr)
  hence "length (sc_cq ?cl) = 0" "cnt c (ss_resps s) = 1" using client_one [OF inv c] by linarith+
  hence tok: "cnt c (ss_resps s) = 1" "sc_cq ?cl = []" by simp_all
  have pos: "0 < in_flight c s" using p1 by (simp add: in_flight_def)
  have pr: "proj c ?l = []" "proj c (ss_resps s) = [r]"
    using proj_remove(2) [OF True, of c] cr tok(1) by (simp_all add: length_proj)
  obtain cl where d: "ss_deliver r ?cl = Some cl" "counter_hi cl = counter_hi ?cl" "sc_got cl = sc_got ?cl"
    "sc_cq cl = sc_cq ?cl @ [case r of RespImm i \<Rightarrow> Some i | RespFull v \<Rightarrow> None]"
    "\<forall>v. r = RespFull v \<longrightarrow> (\<exists>i<1. sc_buf cl = (sc_buf ?cl)(i * 64 + 40 := v))"
    using deliver_ok [OF ss_inv_client [OF inv c] pos, of r] by (elim exE conjE) (rule that)
  have s': "s' = s\<lparr>ss_resps := ?l, ss_clients := (ss_clients s)(c := cl)\<rparr>" using run True cr d(1) by simp
  have exc: "exact1 ?cl (on_way c s) (proj c (ss_resps s)) (proj c (ss_log s))" using ex c by (simp add: ss_exact_def)
  obtain v where v: "proj c (ss_log s) = sc_got ?cl @ [v]" "r = ss_answer (hi32 ?cl) v" using exc pr(2) by (auto simp: exact1_def)
  have "resp_of cl v (case r of RespImm i \<Rightarrow> Some i | RespFull v \<Rightarrow> None)"
  proof (cases r)
    case (RespImm i)
    thus ?thesis using v(2) d(2) by (simp add: resp_of_def hi32_def)
  next
    case (RespFull u)
    hence "u = v" using v(2) by (simp add: ss_answer_def split: if_splits)
    thus ?thesis using RespFull d(5) by (auto simp: resp_of_def)
  qed
  hence "exact1 cl (on_way c s) [] (proj c (ss_log s))"
    using exc d(2-4) v(1) tok(2) by (simp add: exact1_def hi32_def)
  hence "exact1 (ss_clients s' c) (on_way c s') (proj c (ss_resps s')) (proj c (ss_log s'))"
    using pr(1) by (simp add: s' on_way_def del: proj_simps(3))
  moreover have "proj e ?l = proj e (ss_resps s)" if "e \<noteq> c" for e
    using proj_remove(1) [OF True, of e] cr that by simp
  ultimately show ?thesis by (intro exact_step [OF ex, of s' c]) (simp_all add: s' on_way_def del: proj_simps(3))
qed (use assms in auto)

lemma exact_client_poll:
  assumes inv: "ss_inv 1 s" and ex: "ss_exact s" and run: "ss_exec (int 1) ps (ClientPoll c k) s = Inr s'"
  shows "ss_exact s'"
proof (cases "c < 70 \<and> reqs_to_send (ss_clients s c) = 0 \<and> 0 < k \<and> sc_cq (ss_clients s c) \<noteq> []")
  case True
  let ?cl = "ss_clients s c"
  have len: "length (sc_cq ?cl) = 1" using client_one [OF inv, of c] True by (cases "sc_cq ?cl") auto
  then obtain w where w: "sc_cq ?cl = [w]" by (cases "sc_cq ?cl") auto
  have z: "proj c (ss_resps s) = []" "on_way c s = []"
    using client_one [OF inv, of c] True len by (auto simp: on_way_def length_proj simp flip: length_0_conv)
  have mk: "min k (min (nat (int 1)) (length (sc_cq ?cl))) = 1" using True len by simp
  let ?cl' = "ss_client_poll 1 ?cl"
  have s': "s' = s\<lparr>ss_clients := (ss_clients s)(c := ?cl')\<rparr>" using run True mk by (simp add: ss_consts Let_def)
  have exc: "exact1 ?cl (on_way c s) (proj c (ss_resps s)) (proj c (ss_log s))" using ex True by (simp add: ss_exact_def)
  then obtain v where v: "proj c (ss_log s) = sc_got ?cl @ [v]" "resp_of ?cl v w"
    and al: "counter_hi ?cl = push_bit 32 (drop_bit 32 (counter_hi ?cl))" using w by (auto simp: exact1_def)
  have "sc_got ?cl' = sc_got ?cl @ [v] \<and> counter_hi ?cl' = push_bit 32 (drop_bit 32 (counter_hi ?cl')) \<and> sc_cq ?cl' = []"
  proof (cases w)
    case None
    thus ?thesis using v(2) by (simp add: ss_client_poll_def w ss_read_resp_def resp_of_def Let_def hi_idem)
  next
    case (Some i)
    hence "counter_hi ?cl + ucast i = v" using v(2) answer_decodes [OF al] by (simp add: resp_of_def)
    thus ?thesis using Some al by (simp add: ss_client_poll_def w ss_read_resp_def Let_def)
  qed
  hence "exact1 ?cl' [] [] (proj c (ss_log s))" using v(1) by (simp add: exact1_def)
  hence "exact1 (ss_clients s' c) (on_way c s') (proj c (ss_resps s')) (proj c (ss_log s'))"
    using z by (simp add: s' on_way_def)
  thus ?thesis by (rule exact_step [OF ex]) (simp_all add: s' on_way_def)
qed (use assms in \<open>auto simp: ss_consts Let_def\<close>)

lemma proj_map_self: "proj c (map (\<lambda>i. (g i, h i)) xs) = map h (filter (\<lambda>i. g i = c) xs)"
  by (induction xs) simp_all

text \<open>The requests a poll takes, and the numbers they get: for a client at most one of them.\<close>

lemma filter_one:
  assumes "n \<le> length q" "length (proj c q) \<le> 1"
  shows "filter (\<lambda>i. fst (q ! i) = c) [0..<n] = [] \<and> proj c (drop n q) = proj c q
    \<or> (\<exists>i<n. filter (\<lambda>i. fst (q ! i) = c) [0..<n] = [i] \<and> proj c q = [snd (q ! i)] \<and> proj c (drop n q) = [])"
proof -
  have t: "map (\<lambda>i. snd (q ! i)) (filter (\<lambda>i. fst (q ! i) = c) [0..<n]) = proj c (take n q)"
  proof -
    have "take n q = map (\<lambda>i. (fst (q ! i), snd (q ! i))) [0..<n]" using assms(1) by (intro nth_equalityI) simp_all
    thus ?thesis by (simp only: proj_map_self)
  qed
  have e: "proj c q = proj c (take n q) @ proj c (drop n q)" by (simp flip: proj_simps(3))
  show ?thesis
  proof (cases "filter (\<lambda>i. fst (q ! i) = c) [0..<n]")
    case Nil
    thus ?thesis using t e by simp
  next
    case (Cons i ks)
    hence "i \<in> set (filter (\<lambda>i. fst (q ! i) = c) [0..<n])" by simp
    hence "i < n" by simp
    moreover have "length (proj c (take n q)) = length ks + 1" unfolding t [symmetric] Cons by simp
    hence "length ks = 0 \<and> length (proj c (drop n q)) = 0" using e assms(2) by simp
    ultimately show ?thesis using t e Cons by simp
  qed
qed

lemma exact_server_poll:
  assumes inv: "ss_inv 1 s" and ex: "ss_exact s" and ps: "ps \<le> 32" and run: "ss_exec (int 1) ps (ServerPoll k n) s = Inr s'"
  shows "ss_exact s'"
proof -
  let ?sv = "ss_servers s k" and ?v = "ss_counter s"
  define m where "m = min n (min (nat ps) (length (sv_cq ?sv)))"
  have m: "m \<le> length (sv_cq ?sv)" "m \<le> 32" using ps by (auto simp: m_def)
  have sok: "server_ok k ?sv" using inv by (simp add: ss_inv_def)
  define q where "q = sv_cq ?sv"
  let ?f = "\<lambda>i. (fst (q ! i), ?v + of_nat i, ss_answer (snd (q ! i)) (?v + of_nat i))"
  obtain sv where r: "ss_server_poll m ?v ?sv = Inr (?v + of_nat m, sv, map ?f [0..<m])" "sv_cq sv = drop m q"
    using server_poll_ok [OF sok m] unfolding q_def by blast
  let ?I = "\<lambda>c. filter (\<lambda>i. fst (q ! i) = c) [0..<m]"
  have s': "s' = s\<lparr>ss_servers := (ss_servers s)(k := sv), ss_counter := ?v + of_nat m,
     ss_resps := ss_resps s @ map (\<lambda>(c, v, r). (c, r)) (map ?f [0..<m]), ss_log := ss_log s @ map (\<lambda>(c, v, r). (c, v)) (map ?f [0..<m])\<rparr>"
    using run r(1) by (simp add: Let_def m_def [symmetric])
  have pr: "proj c (ss_resps s') = proj c (ss_resps s) @ map (\<lambda>i. ss_answer (snd (q ! i)) (?v + of_nat i)) (?I c)"
    "proj c (ss_log s') = proj c (ss_log s) @ map (\<lambda>i. ?v + of_nat i) (?I c)" for c
    by (simp_all add: s' proj_map_self comp_def)
  have mq: "m \<le> length q" using m(1) by (simp add: q_def)
  have qk: "fst x mod 10 = k" if "x \<in> set q" for x using sok that by (simp add: server_ok_def q_def)
  have none: "?I c = []" if "c mod 10 \<noteq> k" for c
  proof -
    have "fst (q ! i) \<noteq> c" if "i < m" for i using qk [OF nth_mem] that mq \<open>c mod 10 \<noteq> k\<close> by auto
    thus ?thesis by (simp add: filter_empty_conv)
  qed
  show ?thesis unfolding ss_exact_def
  proof (intro allI impI)
    fix c assume c: "c < (70 :: nat)"
    have exc: "exact1 (ss_clients s c) (on_way c s) (proj c (ss_resps s)) (proj c (ss_log s))" using ex c by (simp add: ss_exact_def)
    have one: "cnt c (ss_reqs s) + cnt c (sv_cq (ss_servers s (c mod 10))) + cnt c (ss_resps s) + length (sc_cq (ss_clients s c)) \<le> 1"
      using client_one [OF inv c] by linarith
    consider (no) "?I c = []" "set (on_way c s') \<subseteq> set (on_way c s)"
      | (yes) i where "c mod 10 = k" "?I c = [i]" "proj c q = [snd (q ! i)]" "proj c (drop m q) = []"
    proof (cases "c mod 10 = k")
      case True
      have "length (proj c q) \<le> 1" using one True by (simp add: length_proj q_def)
      from filter_one [OF mq this] show ?thesis
      proof
        assume "?I c = [] \<and> proj c (drop m q) = proj c q"
        thus ?thesis using no True r(2) by (simp add: on_way_def s' q_def)
      qed (use yes True in blast)
    next
      case False
      thus ?thesis using no none by (simp add: on_way_def s')
    qed
    thus "exact1 (ss_clients s' c) (on_way c s') (proj c (ss_resps s')) (proj c (ss_log s'))"
    proof cases
      case no
      show ?thesis by (rule exact_frame [OF exc _ no(2)]) (simp_all add: pr no(1), simp add: s')
    next
      case yes
      have "cnt c q = 1" using yes(3) length_proj [of c q] by simp
      hence z: "cnt c (ss_resps s) = 0" "cnt c (ss_reqs s) = 0" "length (sc_cq (ss_clients s c)) = 0"
        using one yes(1) by (auto simp: q_def)
      hence z2: "proj c (ss_resps s) = []" "proj c (ss_reqs s) = []" "sc_cq (ss_clients s c) = []"
        using length_proj by (metis length_0_conv)+
      have h: "snd (q ! i) = hi32 (ss_clients s c)" using exc yes(1,3) by (simp add: exact1_def on_way_def q_def)
      have "proj c (ss_log s) = sc_got (ss_clients s c)" "counter_hi (ss_clients s c) = push_bit 32 (drop_bit 32 (counter_hi (ss_clients s c)))"
        using exc z2 by (simp_all add: exact1_def)
      moreover have "on_way c s' = []" using yes(1,4) z2(2) r(2) by (simp add: on_way_def s')
      moreover have "ss_clients s' c = ss_clients s c" by (simp add: s')
      ultimately show ?thesis using z2 h by (simp add: exact1_def pr yes(2))
    qed
  qed
qed

lemma exact_run:
  assumes "ps \<le> 32" "ss_inv 1 s" "ss_exact s" "ss_run (int 1) ps acts s = Inr s'"
  shows "ss_exact s' \<and> ss_inv 1 s'"
  using assms(2-4)
proof (induction acts arbitrary: s)
  case (Cons a acts)
  obtain s1 where s1: "ss_exec (int 1) ps a s = Inr s1" "ss_inv 1 s1" using exec_ok [OF Cons.prems(1) _ assms(1)] by auto
  have "ss_exact s1"
  proof (cases a)
    case (ClientSend c) thus ?thesis using exact_send [OF Cons.prems(1,2)] s1(1) by blast
  next
    case (ReqArrives j) thus ?thesis using exact_req_arrives [OF Cons.prems(1,2)] s1(1) by blast
  next
    case (ServerPoll k n) thus ?thesis using exact_server_poll [OF Cons.prems(1,2) assms(1)] s1(1) by blast
  next
    case (RespArrives j) thus ?thesis using exact_resp_arrives [OF Cons.prems(1,2)] s1(1) by blast
  next
    case (ClientPoll c k) thus ?thesis using exact_client_poll [OF Cons.prems(1,2)] s1(1) by blast
  qed
  thus ?case using Cons.IH [OF s1(2)] Cons.prems(3) s1(1) by simp
qed simp

lemma start_exact: "ss_start (int 1) = Inr s \<Longrightarrow> ss_exact s"
  by (auto simp: ss_start_def ss_client_init_def res_simps ss_exact_def exact1_def on_way_def ss_server_init_def)

subsection \<open>Two outstanding requests\<close>

text \<open>One client, at rest, gets two numbers; everything of the others stays.\<close>

definition at_rest :: "nat \<Rightarrow> ss_sys \<Rightarrow> bool" where
  "at_rest c s \<longleftrightarrow> ss_reqs s = [] \<and> ss_resps s = [] \<and> sv_cq (ss_servers s (c mod 10)) = [] \<and> reqs_to_send (ss_clients s c) = 2"

definition two_numbers :: "nat \<Rightarrow> ss_act list" where
  "two_numbers c = [ClientSend c, ReqArrives 0, ReqArrives 0, ServerPoll (c mod 10) 2, RespArrives 0, RespArrives 0, ClientPoll c 2]"

lemma ss_run_append: "ss_run pc ps (xs @ ys) s = bind_res (ss_run pc ps xs s) (ss_run pc ps ys)"
proof (induction xs arbitrary: s)
  case (Cons a xs)
  have "ss_run pc ps (xs @ ys) = (\<lambda>x. bind_res (ss_run pc ps xs x) (ss_run pc ps ys))" using Cons.IH by (rule ext)
  thus ?case by (simp add: bind_res_assoc)
qed simp

lemma two_numbers_run:
  assumes inv: "ss_inv 2 s" and c: "c < 70" and rest: "at_rest c s"
  shows "\<exists>s'. ss_run 2 2 (two_numbers c) s = Inr s' \<and> at_rest c s' \<and> ss_counter s' = ss_counter s + 2
    \<and> (\<forall>d. d \<noteq> c \<longrightarrow> ss_clients s' d = ss_clients s d) \<and> (\<forall>k. k \<noteq> c mod 10 \<longrightarrow> ss_servers s' k = ss_servers s k)
    \<and> (\<forall>d. d \<noteq> c \<longrightarrow> proj d (ss_log s') = proj d (ss_log s))"
proof -
  let ?k = "c mod 10" and ?cl = "ss_clients s c" and ?sv = "ss_servers s (c mod 10)"
  have z: "ss_reqs s = []" "ss_resps s = []" "sv_cq ?sv = []" "reqs_to_send ?cl = 2" using rest by (simp_all add: at_rest_def)
  have cok: "client_ok 2 0 ?cl" using ss_inv_client [OF inv c] z by (simp add: in_flight_def)
  have sok: "server_ok ?k ?sv" using inv by (simp add: ss_inv_def)
  let ?im = "ucast (drop_bit 32 (counter_hi ?cl)) :: u32"
  obtain cl1 where c1: "ss_client_send (int 2) ?cl = Inr (cl1, replicate 2 ?im)" "client_ok 2 2 cl1" "sc_cq cl1 = sc_cq ?cl" "reqs_to_send cl1 = 0"
    using client_send_ok [OF cok] z(4) by (auto simp: numeral_2_eq_2)
  have cq: "sc_cq ?cl = []" using cok z(4) by (simp add: client_ok_def)
  define sv1 where "sv1 = ?sv\<lparr>sv_recvs := sv_recvs ?sv - 2, sv_cq := [(c, ?im), (c, ?im)]\<rparr>"
  have s128: "sv_recvs ?sv = 128" using sok z(3) by (simp add: server_ok_def)
  have "server_ok ?k sv1" using sok z(3) c s128 by (simp add: sv1_def server_ok_def)
  then obtain sv2 where s2: "ss_server_poll 2 (ss_counter s) sv1 = Inr (ss_counter s + of_nat 2, sv2,
      map (\<lambda>i. (fst (sv_cq sv1 ! i), ss_counter s + of_nat i, ss_answer (snd (sv_cq sv1 ! i)) (ss_counter s + of_nat i))) [0..<2])"
    "sv_cq sv2 = drop 2 (sv_cq sv1)"
    using server_poll_ok [of ?k sv1 2 "ss_counter s"] by (auto simp: sv1_def)
  let ?r0 = "ss_answer ?im (ss_counter s)" and ?r1 = "ss_answer ?im (ss_counter s + 1)"
  obtain cl2 where c2: "ss_deliver ?r0 cl1 = Some cl2" "client_ok 2 1 cl2" "length (sc_cq cl2) = 1" "reqs_to_send cl2 = 0"
    using deliver_ok [OF c1(2), of ?r0] c1(3,4) cq by auto
  obtain cl3 where c3: "ss_deliver ?r1 cl2 = Some cl3" "length (sc_cq cl3) = 2" "reqs_to_send cl3 = 0"
    using deliver_ok [OF c2(2), of ?r1] c2(3,4) by auto
  have u: "[0..<2] = [0, Suc 0]" "replicate 2 ?im = [?im, ?im]" by (simp_all add: numeral_2_eq_2)
  let ?s = "s\<lparr>ss_clients := (ss_clients s)(c := ss_client_poll 2 cl3), ss_servers := (ss_servers s)(?k := sv2),
     ss_counter := ss_counter s + 2, ss_log := ss_log s @ [(c, ss_counter s), (c, ss_counter s + 1)]\<rparr>"
  have "ss_run 2 2 (two_numbers c) s = Inr ?s"
    using c z c1(1) s128 s2(1) c2(1) c3
    by (simp add: two_numbers_def ss_consts u ss_arrive_def Let_def sv1_def numeral_2_eq_2 [symmetric] fun_upd_idem)
  moreover have "at_rest c ?s" using z s2(2) by (simp add: at_rest_def sv1_def ss_client_poll_def Let_def)
  ultimately show ?thesis by auto
qed

lemma many_numbers_run:
  assumes "ss_inv 2 s" "c < 70" "at_rest c s"
  shows "\<exists>acts s'. ss_run 2 2 acts s = Inr s' \<and> at_rest c s' \<and> ss_counter s' = ss_counter s + 2 * of_nat n
    \<and> (\<forall>d. d \<noteq> c \<longrightarrow> ss_clients s' d = ss_clients s d) \<and> (\<forall>k. k \<noteq> c mod 10 \<longrightarrow> ss_servers s' k = ss_servers s k)
    \<and> (\<forall>d. d \<noteq> c \<longrightarrow> proj d (ss_log s') = proj d (ss_log s))"
proof (induction n)
  case 0
  show ?case by (intro exI [of _ "[]"] exI [of _ s]) (simp add: assms(3))
next
  case (Suc n)
  then obtain acts s1 where s1: "ss_run 2 2 acts s = Inr s1" "at_rest c s1" "ss_counter s1 = ss_counter s + 2 * of_nat n"
    "\<forall>d. d \<noteq> c \<longrightarrow> ss_clients s1 d = ss_clients s d" "\<forall>k. k \<noteq> c mod 10 \<longrightarrow> ss_servers s1 k = ss_servers s k"
    "\<forall>d. d \<noteq> c \<longrightarrow> proj d (ss_log s1) = proj d (ss_log s)" by blast
  have "ss_inv 2 s1" using ss_run_ok [of 2 2 s acts] assms(1) s1(1) by simp
  then obtain s2 where "ss_run 2 2 (two_numbers c) s1 = Inr s2" "at_rest c s2" "ss_counter s2 = ss_counter s1 + 2"
    "\<forall>d. d \<noteq> c \<longrightarrow> ss_clients s2 d = ss_clients s1 d" "\<forall>k. k \<noteq> c mod 10 \<longrightarrow> ss_servers s2 k = ss_servers s1 k"
    "\<forall>d. d \<noteq> c \<longrightarrow> proj d (ss_log s2) = proj d (ss_log s1)"
    using two_numbers_run [OF _ assms(2) s1(2)] by blast
  thus ?case using s1 by (intro exI [of _ "acts @ two_numbers c"] exI [of _ s2]) (simp add: ss_run_append algebra_simps)
qed

text \<open>A client that sends for the first time, with two requests.\<close>

definition first_client :: ss_client where
  "first_client = \<lparr>sc_tx = tx0, counter_hi = 0, req_wi = 0, reqs_to_send = 2, sc_recvs = [], sc_cq = [], sc_buf = (\<lambda>_. 0), sc_got = []\<rparr>"

lemma first_tx:
  "tx_prepare 64 tx0 = Inr (True, tx0\<lparr>nb_tx := 1\<rparr>)" "tx_prepare 64 (tx0\<lparr>nb_tx := 1\<rparr>) = Inr (False, tx0\<lparr>nb_tx := 2\<rparr>)"
  "tx_prepare 64 (tx0\<lparr>nb_tx := 2, posted := 2\<rparr>) = Inr (False, tx0\<lparr>nb_tx := 3, posted := 2\<rparr>)"
  "tx_post 64 (tx0\<lparr>nb_tx := 2\<rparr>) = Inr (tx0\<lparr>nb_tx := 2, posted := 2\<rparr>)"
  "tx_post 64 (tx0\<lparr>nb_tx := 3, posted := 2\<rparr>) = Inr (tx0\<lparr>nb_tx := 3, posted := 3\<rparr>)"
  by code_simp+

lemmas first_tx_simps = first_tx [simplified tx0_def, simplified]

lemma first_prepare:
  "ss_client_prepare 2 2 first_client = Inr (first_client\<lparr>sc_tx := tx0\<lparr>nb_tx := 2\<rparr>, sc_recvs := [(0, 48), (64, 48)]\<rparr>)"
proof -
  have "ss_client_prepare 2 (Suc (Suc 0)) first_client = Inr (first_client\<lparr>sc_tx := tx0\<lparr>nb_tx := 2\<rparr>, sc_recvs := [(0, 48), (64, 48)]\<rparr>)"
    by (simp add: first_client_def tx0_def first_tx_simps hrd_post_dgram_recv_def HRD_MOD_ADD_def ss_consts)
  thus ?thesis by (simp only: numeral_2_eq_2 [symmetric])
qed

lemma first_send:
  "ss_client_send 2 first_client = Inr (first_client\<lparr>sc_tx := tx0\<lparr>nb_tx := 2, posted := 2\<rparr>, sc_recvs := [(0, 48), (64, 48)], reqs_to_send := 0\<rparr>, [0, 0])"
proof -
  have "replicate 2 (0 :: u32) = [0, 0]" by (simp add: numeral_2_eq_2)
  thus ?thesis using first_prepare by (simp add: ss_client_send_def first_client_def first_tx_simps ss_consts tx0_def)
qed

text \<open>
  Both numbers are sent as payload, to the first and the second RECV; the client polls after each of them and
  reads the first RECV both times.
\<close>

lemma twice_run:
  assumes "ss_clients s 3 = first_client" "ss_servers s 3 = ss_server_init" "ss_reqs s = []" "ss_resps s = []" "ss_counter s = 2 ^ 32"
  shows "\<exists>s'. ss_run 2 2 [ClientSend 3, ReqArrives 0, ReqArrives 0, ServerPoll 3 2, RespArrives 0, ClientPoll 3 1, ClientSend 3,
      RespArrives 0, ClientPoll 3 1] s = Inr s'
    \<and> ss_log s' = ss_log s @ [(3, 2 ^ 32), (3, 2 ^ 32 + 1)] \<and> sc_got (ss_clients s' 3) = [2 ^ 32, 2 ^ 32]"
  using assms
  by (simp add: ss_consts first_send,
      simp add: first_client_def ss_server_init_def ss_consts ss_arrive_def ss_server_poll_def first_tx_simps tx0_def Let_def,
      simp add: ss_answer_def ss_deliver_def ss_client_poll_def ss_read_resp_def ss_consts ss_client_send_def
        hrd_post_dgram_recv_def HRD_MOD_ADD_def first_tx_simps)

subsection \<open>Properties\<close>

text \<open>
  C10: With the checks of the programs, in every interleaving of 70 clients and the server threads, and
  with datagrams arriving in any order, no sender waits for a completion that never comes, no queue
  overflows, no datagram is lost for want of a RECV, and the numbers assigned are 0, 1, 2 and so on.
\<close>

theorem ss_no_datagram_lost:
  assumes "0 < p" "ss_start (int p) = Inr s" "ps \<le> 32"
  shows "\<exists>s'. ss_run (int p) ps acts s = Inr s' \<and> ss_lost s' = 0 \<and> map snd (ss_log s') = map of_nat [0..<length (ss_log s')]"
proof -
  note st = start_inv [OF assms(2,1)]
  obtain s' where "ss_run (int p) ps acts s = Inr s'" "ss_inv p s'" using ss_run_ok [OF st(2) assms(3) st(1)] by blast
  thus ?thesis by (auto simp: ss_inv_def)
qed

theorem ss_no_datagram_lost_witness:
  "\<exists>s s'. ss_start 16 = Inr s \<and> ss_run 16 32 [ClientSend 3, ReqArrives 2, ServerPoll 3 5, RespArrives 0, ClientPoll 3 1] s = Inr s' \<and> ss_lost s' = 0"
proof -
  have "\<exists>s. ss_start (int 16) = Inr s" by (simp add: ss_start_def ss_client_init_def ss_consts)
  then obtain s where s: "ss_start (int 16) = Inr s" by blast
  show ?thesis
    using ss_no_datagram_lost [OF _ s, of 32 "[ClientSend 3, ReqArrives 2, ServerPoll 3 5, RespArrives 0, ClientPoll 3 1]"] s
    by (simp del: ss_run.simps) blast
qed

text \<open>
  C5: With a postlist of one, every client of the datagram sequencer obtains the numbers that were assigned to
  it, in their order and without a change, the upper half included; at most the last one is not
  received yet. The encoding in 32 bits therefore loses nothing.
\<close>

theorem ss_one_request_exact:
  assumes "ss_start 1 = Inr s" "ps \<le> 32" "ss_run 1 ps acts s = Inr s'" "c < MAX_NUM_CLIENTS"
  shows "\<exists>rest. map snd (filter (\<lambda>x. fst x = c) (ss_log s')) = sc_got (ss_clients s' c) @ rest \<and> length rest \<le> 1"
proof -
  have st: "ss_start (int 1) = Inr s" using assms(1) by simp
  have run: "ss_run (int 1) ps acts s = Inr s'" using assms(3) by simp
  have "ss_inv 1 s" using start_inv(1) [OF st] by simp
  hence "ss_exact s'" using exact_run [OF assms(2) _ start_exact [OF st] run] by blast
  hence "exact1 (ss_clients s' c) (on_way c s') (proj c (ss_resps s')) (proj c (ss_log s'))"
    using assms(4) by (simp add: ss_exact_def ss_consts)
  hence "proj c (ss_log s') = sc_got (ss_clients s' c) \<or> (\<exists>v. proj c (ss_log s') = sc_got (ss_clients s' c) @ [v])"
    by (auto simp: exact1_def split: if_splits)
  thus ?thesis unfolding proj_def by auto
qed

theorem ss_one_request_exact_witness:
  "\<exists>s s' rest. ss_start 1 = Inr s \<and> ss_run 1 32 [ClientSend 3, ReqArrives 0, ServerPoll 3 5, RespArrives 0, ClientPoll 3 1] s = Inr s'
    \<and> map snd (filter (\<lambda>x. fst x = 3) (ss_log s')) = sc_got (ss_clients s' 3) @ rest \<and> length rest \<le> 1"
proof -
  have "\<exists>s. ss_start (int 1) = Inr s" by (simp add: ss_start_def ss_client_init_def ss_consts)
  then obtain s where s: "ss_start (int 1) = Inr s" by blast
  obtain s' where r: "ss_run (int 1) 32 [ClientSend 3, ReqArrives 0, ServerPoll 3 5, RespArrives 0, ClientPoll 3 1] s = Inr s'"
    using ss_run_ok [OF _ _ start_inv(1) [OF s], of 32] by (auto simp del: ss_run.simps)
  have "\<exists>rest. map snd (filter (\<lambda>x. fst x = 3) (ss_log s')) = sc_got (ss_clients s' 3) @ rest \<and> length rest \<le> 1"
    using ss_one_request_exact [of s 32 _ s' 3] s r by (simp del: ss_run.simps add: ss_consts)
  thus ?thesis using s r by auto
qed

text \<open>
  C23: With a postlist of two, which the checks admit, a client of the datagram sequencer can take the same number
  twice: it reads a number sent as payload at the position of its completion in the poll, not in the
  RECV it arrived in. There is a run, once the counter has passed \<open>2 ^ 32\<close>, in which client 3 is assigned
  \<open>2 ^ 32\<close> and \<open>2 ^ 32 + 1\<close> and obtains \<open>2 ^ 32\<close> two times.
\<close>

theorem ss_number_taken_twice:
  "\<exists>s acts s'. ss_start 2 = Inr s \<and> ss_run 2 2 acts s = Inr s' \<and> ss_lost s' = 0
    \<and> map snd (filter (\<lambda>x. fst x = 3) (ss_log s')) = [2 ^ 32, 2 ^ 32 + 1] \<and> sc_got (ss_clients s' 3) = [2 ^ 32, 2 ^ 32]"
proof -
  have "\<exists>s. ss_start 2 = Inr s \<and> (\<forall>c. ss_clients s c = first_client) \<and> (\<forall>k. ss_servers s k = ss_server_init)
     \<and> ss_reqs s = [] \<and> ss_resps s = [] \<and> ss_log s = [] \<and> ss_counter s = 0"
    by (simp add: ss_start_def ss_client_init_def first_client_def ss_consts)
  then obtain s where s: "ss_start 2 = Inr s" "\<forall>c. ss_clients s c = first_client" "\<forall>k. ss_servers s k = ss_server_init"
    "ss_reqs s = []" "ss_resps s = []" "ss_log s = []" "ss_counter s = 0" by blast
  have inv: "ss_inv 2 s" using start_inv(1) [of 2 s] s(1) by simp
  have "at_rest 9 s" using s by (simp add: at_rest_def first_client_def ss_server_init_def)
  from many_numbers_run [OF inv _ this, of "2 ^ 31"] obtain acts s1 where s1: "ss_run 2 2 acts s = Inr s1" "at_rest 9 s1"
    "ss_counter s1 = ss_counter s + 2 * of_nat (2 ^ 31)" "\<forall>d. d \<noteq> 9 \<longrightarrow> ss_clients s1 d = ss_clients s d"
    "\<forall>k. k \<noteq> 9 mod 10 \<longrightarrow> ss_servers s1 k = ss_servers s k" "\<forall>d. d \<noteq> 9 \<longrightarrow> proj d (ss_log s1) = proj d (ss_log s)" by auto
  have "ss_clients s1 3 = first_client" "ss_servers s1 3 = ss_server_init" "ss_reqs s1 = []" "ss_resps s1 = []" "ss_counter s1 = 2 ^ 32"
    using s1(2-5) s by (simp_all add: at_rest_def)
  from twice_run [OF this] obtain acts2 s2 where s2: "ss_run 2 2 acts2 s1 = Inr s2" "ss_log s2 = ss_log s1 @ [(3, 2 ^ 32), (3, 2 ^ 32 + 1)]"
    "sc_got (ss_clients s2 3) = [2 ^ 32, 2 ^ 32]"
    by blast
  have run: "ss_run 2 2 (acts @ acts2) s = Inr s2" using s1(1) s2(1) by (simp add: ss_run_append)
  have "ss_inv 2 s2" using ss_run_ok [of 2 2 s "acts @ acts2"] inv run by simp
  hence "ss_lost s2 = 0" by (simp add: ss_inv_def)
  moreover have "proj 3 (ss_log s2) = [2 ^ 32, 2 ^ 32 + 1]" using s1(6) s(6) s2(2) by simp
  ultimately show ?thesis using s(1) run s2(3) unfolding proj_def
    by (intro exI [of _ s] exI [of _ "acts @ acts2"] exI [of _ s2] conjI)
qed

end
