(* ===== verification/Mlx5_Size.thy ===== *)
theory Mlx5_Size
  imports Prelude
begin

text \<open>
  Sizes of the driver's queues (libmlx5 verbs.c, mlx5.h): rounding to a power of two, the logarithm,
  and the layout of receive queues. C \<open>int\<close> values are \<open>int\<close>; \<open>to_s32\<close> is the conversion of a wider
  value to \<open>int\<close>.
\<close>

definition to_s32 :: "int \<Rightarrow> int" where
  "to_s32 x = sint (of_int x :: u32)"

definition EINVAL :: int where "EINVAL = 22"
definition ENOMEM :: int where "ENOMEM = 12"

text \<open>\<open>mlx5_round_up_power_of_two\<close>: \<open>ret\<close> doubles; past \<open>2 ^ 62\<close> the shift overflows.\<close>

function round_up_from :: "int \<Rightarrow> int \<Rightarrow> int res" where
  "round_up_from ret sz =
     (if ret < sz \<and> 0 < ret then (if 2 ^ 62 \<le> ret then Inl UndefShift else round_up_from (2 * ret) sz)
      else Inr ret)"
  by pat_completeness auto

termination by (relation "measure (\<lambda>(ret, sz). nat (sz - ret))") auto

declare round_up_from.simps [simp del]

definition mlx5_round_up_power_of_two :: "int \<Rightarrow> int res" where
  "mlx5_round_up_power_of_two sz = bind_res (round_up_from 1 sz) (\<lambda>ret.
     if 2 ^ 31 - 1 < ret then Inr (- ENOMEM) else Inr ret)"

definition align_queue_size :: "int \<Rightarrow> int res" where
  "align_queue_size req = mlx5_round_up_power_of_two req"

text \<open>\<open>mlx5_ilog2\<close>: \<open>1 << t\<close> is defined for an \<open>int\<close> up to \<open>t = 30\<close>.\<close>

function ilog2_from :: "nat \<Rightarrow> int \<Rightarrow> int res" where
  "ilog2_from t n =
     (if 31 \<le> t then Inl UndefShift
      else if 2 ^ t < n then ilog2_from (t + 1) n else Inr (int t))"
  by pat_completeness auto

termination by (relation "measure (\<lambda>(t, n). 31 - t)") auto

declare ilog2_from.simps [simp del]

definition mlx5_ilog2 :: "int \<Rightarrow> int res" where
  "mlx5_ilog2 n = (if n \<le> 0 then Inr (- 1) else ilog2_from 0 n)"

subsection \<open>Receive queues\<close>

text \<open>The limits of the device context and the part of a work queue that the layout sets.\<close>

record wq_limits =
  max_rq_desc_sz :: int
  max_recv_wr :: int
  max_srq_recv_wr :: u32

record wq_layout =
  wqe_cnt :: int
  wqe_shift :: int
  max_post :: int
  max_gs :: int

definition MLX5_SEND_WQE_BB :: int where "MLX5_SEND_WQE_BB = 64"

text \<open>
  \<open>sizeof(struct mlx5_wqe_data_seg)\<close>, \<open>sizeof(struct mlx5_rwqe_sig)\<close> and
  \<open>sizeof(struct mlx5_wqe_srq_next_seg)\<close>.
\<close>

definition sizeof_data_seg :: int where "sizeof_data_seg = 16"
definition sizeof_rwqe_sig :: int where "sizeof_rwqe_sig = 16"
definition sizeof_srq_next_seg :: int where "sizeof_srq_next_seg = 16"

lemmas size_consts = sizeof_data_seg_def sizeof_rwqe_sig_def sizeof_srq_next_seg_def MLX5_SEND_WQE_BB_def
  EINVAL_def ENOMEM_def

text \<open>The products are of \<open>size_t\<close>, and are then converted to \<open>int\<close>.\<close>

definition mlx5_calc_rcv_wqe :: "wq_limits \<Rightarrow> bool \<Rightarrow> u32 \<Rightarrow> bool \<Rightarrow> int res" where
  "mlx5_calc_rcv_wqe ctx has_srq max_recv_sge wq_sig =
     (if has_srq then Inr 0
      else let num_scatter = to_s32 (max (uint max_recv_sge) 1);
               size0 = to_s32 (sizeof_data_seg * num_scatter);
               size = (if wq_sig then to_s32 (size0 + sizeof_rwqe_sig) else size0)
           in if size < 0 \<or> max_rq_desc_sz ctx < size then Inr (- EINVAL)
              else mlx5_round_up_power_of_two size)"

datatype qp_type = IBV_QPT_RC | IBV_QPT_UC | IBV_QPT_UD | IBV_QPT_RAW_ETH | IBV_QPT_XRC | IBV_QPT_XRC_SEND
  | IBV_QPT_XRC_RECV | IBV_EXP_QPT_DC_INI

fun qpt_has_rq :: "qp_type \<Rightarrow> bool" where
  "qpt_has_rq IBV_QPT_RC = True"
| "qpt_has_rq IBV_QPT_UC = True"
| "qpt_has_rq IBV_QPT_UD = True"
| "qpt_has_rq IBV_QPT_RAW_ETH = True"
| "qpt_has_rq IBV_QPT_XRC = False"
| "qpt_has_rq IBV_QPT_XRC_SEND = False"
| "qpt_has_rq IBV_QPT_XRC_RECV = False"
| "qpt_has_rq IBV_EXP_QPT_DC_INI = False"

text \<open>The layout with room for \<open>wq_size\<close> bytes of entries of \<open>wqe_size\<close>, after \<open>hdr\<close> bytes of an entry.\<close>

definition set_layout :: "int \<Rightarrow> int \<Rightarrow> int \<Rightarrow> wq_layout res" where
  "set_layout wq_size wqe_size hdr =
     bind_res (mlx5_ilog2 wqe_size) (\<lambda>sh.
     bind_res (mlx5_ilog2 (wq_size div wqe_size)) (\<lambda>lg.
     bind_res (check (0 \<le> lg) UndefShift) (\<lambda>_.
     Inr \<lparr>wqe_cnt = wq_size div wqe_size, wqe_shift = sh, max_post = 2 ^ nat lg,
          max_gs = (wqe_size - hdr) div sizeof_data_seg\<rparr>)))"

text \<open>
  \<open>mlx5_calc_rq_size\<close>: the size of the receive queue in bytes, and its layout; a negative size is an
  error, which leaves the layout.
\<close>

definition mlx5_calc_rq_size :: "wq_limits \<Rightarrow> qp_type \<Rightarrow> bool \<Rightarrow> u32 \<Rightarrow> u32 \<Rightarrow> bool \<Rightarrow> wq_layout \<Rightarrow> (int \<times> wq_layout) res" where
  "mlx5_calc_rq_size ctx qpt has_srq wrs sges wq_sig rq =
     (if wrs = 0 \<or> \<not> qpt_has_rq qpt then Inr (0, rq)
      else if uint (of_int (max_recv_wr ctx) :: u32) < uint wrs then Inr (- EINVAL, rq)
      else bind_res (mlx5_calc_rcv_wqe ctx has_srq sges wq_sig) (\<lambda>wqe_size.
      if wqe_size < 0 \<or> max_rq_desc_sz ctx < wqe_size then Inr (- EINVAL, rq)
      else bind_res (mlx5_round_up_power_of_two (uint wrs)) (\<lambda>n.
      let wq_size = to_s32 (n * wqe_size) in
      if wqe_size \<noteq> 0
      then let wq_size' = max wq_size MLX5_SEND_WQE_BB in
           bind_res (set_layout wq_size' wqe_size (if wq_sig then sizeof_rwqe_sig else 0)) (\<lambda>rq'. Inr (wq_size', rq'))
      else Inr (wq_size, \<lparr>wqe_cnt = 0, wqe_shift = 0, max_post = 0, max_gs = 0\<rparr>))))"

text \<open>\<open>mlx5_calc_rwq_size\<close>, for a work queue of its own.\<close>

definition mlx5_calc_rwq_size :: "wq_limits \<Rightarrow> bool \<Rightarrow> u32 \<Rightarrow> u32 \<Rightarrow> bool \<Rightarrow> wq_layout \<Rightarrow> (int \<times> wq_layout) res" where
  "mlx5_calc_rwq_size ctx mp_rq wrs sges wq_sig rq =
     (if wrs = 0 then Inr (- EINVAL, rq)
      else let num_scatter = to_s32 (max (uint sges) 1);
               size0 = to_s32 (sizeof_data_seg * num_scatter + (if mp_rq then sizeof_srq_next_seg else 0));
               size = (if wq_sig then to_s32 (size0 + sizeof_rwqe_sig) else size0)
           in if size \<le> 0 \<or> max_rq_desc_sz ctx < size then Inr (- EINVAL, rq)
              else bind_res (mlx5_round_up_power_of_two size) (\<lambda>wqe_size.
              bind_res (mlx5_round_up_power_of_two (uint wrs)) (\<lambda>n.
              let wq_size = max (to_s32 (n * wqe_size)) MLX5_SEND_WQE_BB in
              bind_res (set_layout wq_size wqe_size
                ((if wq_sig then sizeof_rwqe_sig else 0) + (if mp_rq then sizeof_srq_next_seg else 0))) (\<lambda>rq'.
              Inr (wq_size, rq')))))"

subsection \<open>Rounding and the logarithm\<close>

lemma round_up_from_power:
  assumes "k \<le> 62" "sz \<le> 2 ^ 62" "k = 0 \<or> 2 ^ (k - 1) < sz"
  shows "\<exists>j. round_up_from (2 ^ k) sz = Inr (2 ^ j) \<and> j \<le> 62 \<and> sz \<le> 2 ^ j \<and> (j = 0 \<or> 2 ^ (j - 1) < sz)"
  using assms
proof (induction "62 - k" arbitrary: k)
  case 0
  hence "\<not> (2 :: int) ^ k < sz" by simp
  hence "round_up_from (2 ^ k) sz = Inr (2 ^ k)" by (subst round_up_from.simps) (simp only: simp_thms if_False)
  thus ?case using 0 \<open>\<not> (2 :: int) ^ k < sz\<close> by (intro exI [of _ k]) simp
next
  case (Suc n)
  show ?case
  proof (cases "(2 :: int) ^ k < sz")
    case True
    have "k < 62" using Suc by simp
    hence "\<not> (2 :: int) ^ 62 \<le> 2 ^ k" by (simp only: power_increasing_iff not_le rel_simps)
    hence "round_up_from (2 ^ k) sz = round_up_from (2 ^ (k + 1)) sz"
      using True by (subst round_up_from.simps) simp
    thus ?thesis using Suc.hyps(1) [of "k + 1"] Suc.hyps(2) Suc.prems(2) True \<open>k < 62\<close> by simp
  next
    case False
    thus ?thesis using Suc.prems by (subst round_up_from.simps) auto
  qed
qed

text \<open>The rounded size is the least power of two that is large enough.\<close>

lemma round_up_ok:
  assumes "sz \<le> 2 ^ 30"
  shows "\<exists>j. mlx5_round_up_power_of_two sz = Inr (2 ^ j) \<and> j \<le> 30 \<and> sz \<le> 2 ^ j \<and> (j = 0 \<or> 2 ^ (j - 1) < sz)"
proof -
  obtain j where j: "round_up_from (2 ^ 0) sz = Inr (2 ^ j)" "sz \<le> 2 ^ j" "j = 0 \<or> 2 ^ (j - 1) < sz"
    using round_up_from_power [of 0 sz] assms by auto
  have "j \<le> 30"
  proof (rule ccontr)
    assume "\<not> j \<le> 30"
    hence "(2 :: int) ^ 30 \<le> 2 ^ (j - 1)" by (intro power_increasing) auto
    thus False using j(3) \<open>\<not> j \<le> 30\<close> assms by simp
  qed
  moreover have "(2 :: int) ^ j \<le> 2 ^ 30" using calculation by (intro power_increasing) auto
  ultimately show ?thesis using j by (intro exI [of _ j]) (simp add: mlx5_round_up_power_of_two_def)
qed

lemma ilog2_from_power: "t \<le> k \<Longrightarrow> k \<le> 30 \<Longrightarrow> ilog2_from t (2 ^ k) = Inr (int k)"
proof (induction "k - t" arbitrary: t)
  case 0
  thus ?case by (subst ilog2_from.simps) simp
next
  case (Suc n)
  have "(2 :: int) ^ t < 2 ^ k" using Suc by (intro power_strict_increasing) auto
  thus ?case using Suc by (subst ilog2_from.simps) simp
qed

lemma ilog2_power: "k \<le> 30 \<Longrightarrow> mlx5_ilog2 (2 ^ k) = Inr (int k)"
  by (simp add: mlx5_ilog2_def ilog2_from_power)

lemma to_s32_id: "- (2 ^ 31) \<le> x \<Longrightarrow> x < 2 ^ 31 \<Longrightarrow> to_s32 x = x"
  by (simp add: to_s32_def signed_of_int signed_take_bit_int_eq_self)

lemma set_layout_ok:
  assumes "a \<le> 30" "b \<le> a" "0 \<le> h" "h < 2 ^ b"
  shows "set_layout (2 ^ a) (2 ^ b) h =
     Inr \<lparr>wqe_cnt = 2 ^ (a - b), wqe_shift = int b, max_post = 2 ^ (a - b), max_gs = (2 ^ b - h) div 16\<rparr>"
proof -
  have "(2 :: int) ^ a div 2 ^ b = 2 ^ (a - b)" using assms(2) by (simp add: power_diff)
  thus ?thesis using assms by (simp add: set_layout_def ilog2_power size_consts)
qed

text \<open>The layout of a queue with \<open>n\<close> entries, for \<open>sges\<close> segments after a header of \<open>h\<close> bytes.\<close>

lemma layout_size_ok:
  assumes "16 * sges + h \<le> 2 ^ b" "0 \<le> h" "1 \<le> sges" "n \<le> 2 ^ c" "b + c \<le> 30" "4 \<le> b"
  defines "sz \<equiv> max (to_s32 (2 ^ c * 2 ^ b)) MLX5_SEND_WQE_BB"
  shows "\<exists>rq. set_layout sz (2 ^ b) h = Inr rq \<and> wqe_cnt rq * 2 ^ nat (wqe_shift rq) = sz
     \<and> (\<exists>k. wqe_cnt rq = 2 ^ k) \<and> max_post rq = wqe_cnt rq \<and> n \<le> wqe_cnt rq
     \<and> sges \<le> max_gs rq \<and> h + 16 * max_gs rq \<le> 2 ^ nat (wqe_shift rq)"
proof -
  define a where "a = max (b + c) 6"
  have p: "(2 :: int) ^ c * 2 ^ b = 2 ^ (b + c)" by (simp add: power_add)
  have "(2 :: int) ^ (b + c) \<le> 2 ^ 30" using assms(5) by (intro power_increasing) auto
  hence t: "to_s32 (2 ^ c * 2 ^ b) = 2 ^ (b + c)" unfolding p by (intro to_s32_id order_trans [OF _ zero_le_power]) auto
  have sz: "sz = 2 ^ a"
  proof (cases "6 \<le> b + c")
    case True
    have "(2 :: int) ^ 6 \<le> 2 ^ (b + c)" using True by (intro power_increasing) auto
    thus ?thesis using True by (simp add: sz_def t a_def MLX5_SEND_WQE_BB_def max_def)
  next
    case False
    have "(2 :: int) ^ (b + c) \<le> 2 ^ 6" using False by (intro power_increasing) auto
    thus ?thesis using False by (simp add: sz_def t a_def MLX5_SEND_WQE_BB_def max_def)
  qed
  have a: "a \<le> 30" "b \<le> a" "c \<le> a - b" using assms(5) by (auto simp: a_def)
  have "h < 2 ^ b" using assms(1,3) by linarith
  note l = set_layout_ok [OF a(1,2) assms(2) this]
  have "n \<le> 2 ^ (a - b)" using assms(4) power_increasing [OF a(3), of "2 :: int"] by linarith
  moreover have "(2 :: int) ^ (a - b) * 2 ^ b = 2 ^ a" using a(2) by (simp flip: power_add)
  moreover have "sges \<le> (2 ^ b - h) div 16" "h + 16 * ((2 ^ b - h) div 16) \<le> 2 ^ b" using assms(1) by linarith+
  ultimately show ?thesis unfolding sz l by auto
qed

lemma to_s32_small: "0 \<le> x \<Longrightarrow> x < 2 ^ 31 \<Longrightarrow> to_s32 x = x"
  by (rule to_s32_id) auto

text \<open>A layout holds \<open>wrs\<close> requests of \<open>sges\<close> segments in \<open>sz\<close> bytes, a power of two of entries.\<close>

definition layout_ok :: "u32 \<Rightarrow> u32 \<Rightarrow> int \<Rightarrow> int \<Rightarrow> wq_layout \<Rightarrow> bool" where
  "layout_ok wrs sges h sz rq \<longleftrightarrow> wqe_cnt rq * 2 ^ nat (wqe_shift rq) = sz \<and> (\<exists>k. wqe_cnt rq = 2 ^ k)
     \<and> max_post rq = wqe_cnt rq \<and> uint wrs \<le> wqe_cnt rq \<and> uint sges \<le> max_gs rq \<and> 1 \<le> max_gs rq
     \<and> h + 16 * max_gs rq \<le> 2 ^ nat (wqe_shift rq)"

lemma two_power_le: "(2 :: int) ^ a \<le> 2 ^ b \<longleftrightarrow> a \<le> b" "(2 :: int) ^ a < 2 ^ b \<longleftrightarrow> a < b"
  by (simp_all only: power_increasing_iff power_strict_increasing_iff rel_simps)

lemma round_up_small:
  assumes "1 \<le> sz" "sz \<le> 2 ^ k" "k \<le> 30"
  shows "\<exists>j. mlx5_round_up_power_of_two sz = Inr (2 ^ j) \<and> j \<le> k \<and> sz \<le> 2 ^ j"
proof -
  have "sz \<le> 2 ^ 30" using assms(2,3) two_power_le(1) [of k 30] by linarith
  then obtain j where j: "mlx5_round_up_power_of_two sz = Inr (2 ^ j)" "sz \<le> 2 ^ j" "j = 0 \<or> 2 ^ (j - 1) < sz"
    using round_up_ok by blast
  have "j = 0 \<or> (2 :: int) ^ (j - 1) < 2 ^ k" using j(3) assms(2) by linarith
  hence "j \<le> k" unfolding two_power_le by linarith
  thus ?thesis using j by blast
qed

lemma queue_layout:
  assumes "1 \<le> uint wrs" "uint wrs \<le> 2 ^ 15" "16 * max (uint sges) 1 + h \<le> 2 ^ b" "0 \<le> h" "b \<le> 15"
  shows "\<exists>c sz rq. mlx5_round_up_power_of_two (uint wrs) = Inr (2 ^ c)
     \<and> sz = max (to_s32 (2 ^ c * 2 ^ b)) MLX5_SEND_WQE_BB \<and> set_layout sz (2 ^ b) h = Inr rq \<and> layout_ok wrs sges h sz rq"
proof -
  obtain c where c: "mlx5_round_up_power_of_two (uint wrs) = Inr (2 ^ c)" "c \<le> 15" "uint wrs \<le> 2 ^ c"
    using round_up_small [OF assms(1,2)] by auto
  have "(2 :: int) ^ 4 \<le> 2 ^ b" using assms(3,4) by simp
  hence "4 \<le> b" unfolding two_power_le .
  from layout_size_ok [OF assms(3,4) _ c(3) _ this] obtain rq where
    "set_layout (max (to_s32 (2 ^ c * 2 ^ b)) MLX5_SEND_WQE_BB) (2 ^ b) h = Inr rq"
    "layout_ok wrs sges h (max (to_s32 (2 ^ c * 2 ^ b)) MLX5_SEND_WQE_BB) rq"
    using c(2) assms(5) unfolding layout_ok_def by fastforce
  thus ?thesis using c(1) by blast
qed

lemma rq_layout:
  assumes "1 \<le> uint wrs" "uint wrs \<le> max_recv_wr ctx" "max_recv_wr ctx \<le> 2 ^ 15" "max_rq_desc_sz ctx \<le> 2 ^ 15"
    "qpt_has_rq qpt" "uint sges < 2 ^ 26" and h_def: "h = (if wq_sig then 16 else 0)" and size: "size0 = 16 * max (uint sges) 1 + h"
  shows "\<exists>b sz rq'. size0 \<le> 2 ^ b \<and> (b = 0 \<or> 2 ^ (b - 1) < size0)
    \<and> mlx5_calc_rq_size ctx qpt False wrs sges wq_sig rq = Inr (sz, rq')
    \<and> (if max_rq_desc_sz ctx < 2 ^ b then sz = - EINVAL \<and> rq' = rq else layout_ok wrs sges h sz rq')"
proof -
  let ?size = "16 * max (uint sges) 1 + h"
  have wl: "uint wrs \<le> 2 ^ 15" and h0: "0 \<le> h" using assms(2,3) by (simp_all add: h_def)
  have u: "uint (of_int (max_recv_wr ctx) :: u32) = max_recv_wr ctx"
    using assms(1-3) by (simp add: unsigned_of_int take_bit_int_eq_self)
  have w: "wrs \<noteq> 0" using assms(1) by auto
  have n: "to_s32 (max (uint sges) 1) = max (uint sges) 1" using assms(6) by (intro to_s32_small) auto
  have n2: "to_s32 (16 * max (uint sges) 1) = 16 * max (uint sges) 1" using assms(6) by (intro to_s32_small) auto
  have n3: "to_s32 (16 * max (uint sges) 1 + 16) = 16 * max (uint sges) 1 + 16" using assms(6) by (intro to_s32_small) auto
  have calc: "mlx5_calc_rcv_wqe ctx False sges wq_sig =
     (if max_rq_desc_sz ctx < ?size then Inr (- EINVAL) else mlx5_round_up_power_of_two ?size)"
    by (auto simp: mlx5_calc_rcv_wqe_def Let_def size_consts n n2 n3 h_def)
  have "1 \<le> ?size" "?size \<le> 2 ^ 30" using assms(6) by (auto simp: h_def)
  then obtain b where b: "mlx5_round_up_power_of_two ?size = Inr (2 ^ b)" "?size \<le> 2 ^ b" "b = 0 \<or> 2 ^ (b - 1) < ?size"
    using round_up_ok by blast
  show ?thesis
  proof (cases "max_rq_desc_sz ctx < 2 ^ b")
    case True
    hence "mlx5_calc_rq_size ctx qpt False wrs sges wq_sig rq = Inr (- EINVAL, rq)"
      using w u assms(1,2,5) b(1) by (auto simp: mlx5_calc_rq_size_def calc size_consts EINVAL_def)
    thus ?thesis using True b(2,3) size by (intro exI [of _ b]) auto
  next
    case small: False
    have "(2 :: int) ^ b \<le> 2 ^ 15" using small assms(4) by linarith
    hence b15: "b \<le> 15" unfolding two_power_le .
    obtain c sz rq' where q: "mlx5_round_up_power_of_two (uint wrs) = Inr (2 ^ c)"
      "sz = max (to_s32 (2 ^ c * 2 ^ b)) MLX5_SEND_WQE_BB" "set_layout sz (2 ^ b) h = Inr rq'" "layout_ok wrs sges h sz rq'"
      using queue_layout [OF assms(1) wl b(2) h0 b15] by blast
    have "\<not> max_rq_desc_sz ctx < ?size" using small b(2) by linarith
    hence "mlx5_calc_rq_size ctx qpt False wrs sges wq_sig rq = Inr (sz, rq')"
      using w u assms(1,2,5) b(1) q small
      by (auto simp: mlx5_calc_rq_size_def calc Let_def h_def size_consts split: if_splits)
    thus ?thesis using q(4) small b(2,3) size by (intro exI [of _ b]) auto
  qed
qed

text \<open>The same for a work queue of its own, where only the size before rounding is checked.\<close>

lemma rwq_layout:
  assumes "1 \<le> uint wrs" "uint wrs \<le> 2 ^ 15" "max_rq_desc_sz ctx \<le> 2 ^ 15" "uint sges < 2 ^ 26"
    and h_def: "h = (if wq_sig then 16 else 0) + (if mp_rq then 16 else 0)"
  shows "\<exists>sz rq'. mlx5_calc_rwq_size ctx mp_rq wrs sges wq_sig rq = Inr (sz, rq')
    \<and> (if max_rq_desc_sz ctx < 16 * max (uint sges) 1 + h then sz = - EINVAL \<and> rq' = rq else layout_ok wrs sges h sz rq')"
proof -
  let ?size = "16 * max (uint sges) 1 + h"
  have h0: "0 \<le> h" by (simp add: h_def)
  have w: "wrs \<noteq> 0" using assms(1) by auto
  have n: "to_s32 (max (uint sges) 1) = max (uint sges) 1"
    "to_s32 (16 * max (uint sges) 1) = 16 * max (uint sges) 1"
    "to_s32 (16 * max (uint sges) 1 + 16) = 16 * max (uint sges) 1 + 16"
    "to_s32 (32 + 16 * max (uint sges) 1) = 16 * max (uint sges) 1 + 32"
    using assms(4) by (subst to_s32_small; auto)+
  have calc: "mlx5_calc_rwq_size ctx mp_rq wrs sges wq_sig rq =
     (if max_rq_desc_sz ctx < ?size then Inr (- EINVAL, rq)
      else bind_res (mlx5_round_up_power_of_two ?size) (\<lambda>wqe_size.
           bind_res (mlx5_round_up_power_of_two (uint wrs)) (\<lambda>n.
           let wq_size = max (to_s32 (n * wqe_size)) MLX5_SEND_WQE_BB in
           bind_res (set_layout wq_size wqe_size h) (\<lambda>rq'. Inr (wq_size, rq')))))"
    using w by (auto simp: mlx5_calc_rwq_size_def Let_def size_consts n h_def)
  show ?thesis
  proof (cases "max_rq_desc_sz ctx < ?size")
    case False
    have "1 \<le> ?size" "?size \<le> 2 ^ 15" using False assms(3) h0 by auto
    then obtain b where b: "mlx5_round_up_power_of_two ?size = Inr (2 ^ b)" "b \<le> 15" "?size \<le> 2 ^ b"
      using round_up_small [of ?size 15] by auto
    from queue_layout [OF assms(1,2) b(3) h0 b(2)] show ?thesis using b(1) False by (auto simp: calc Let_def)
  qed (simp add: calc)
qed

subsection \<open>Properties\<close>


definition wq_limits_witness :: wq_limits where
  "wq_limits_witness = \<lparr>max_rq_desc_sz = 512, max_recv_wr = 32768, max_srq_recv_wr = 32767\<rparr>"


text \<open>
  The size of a receive entry is computed modulo \<open>2 ^ 32\<close>: a request for \<open>2 ^ 28 + 1\<close> segments
  passes the check against the device's limit and is granted a queue whose entries hold one segment.
\<close>

theorem rq_sges_wrap:
  "\<exists>rq'. mlx5_calc_rq_size wq_limits_witness IBV_QPT_RC False 1 268435457 False \<lparr>wqe_cnt = 0, wqe_shift = 0, max_post = 0, max_gs = 0\<rparr>
     = Inr (64, rq') \<and> max_gs rq' = 1"
proof -
  have c: "mlx5_calc_rcv_wqe wq_limits_witness False 268435457 False = Inr (2 ^ 4)"
    by (simp add: mlx5_calc_rcv_wqe_def to_s32_def size_consts wq_limits_witness_def mlx5_round_up_power_of_two_def
          round_up_from.simps)
  have r: "mlx5_round_up_power_of_two 1 = Inr 1" by (simp add: mlx5_round_up_power_of_two_def round_up_from.simps)
  have "set_layout (2 ^ 6) (2 ^ 4) 0 = Inr \<lparr>wqe_cnt = 4, wqe_shift = 4, max_post = 4, max_gs = 1\<rparr>"
    using set_layout_ok [of 6 4 0] by simp
  thus ?thesis using c r
    by (simp add: mlx5_calc_rq_size_def wq_limits_witness_def to_s32_def MLX5_SEND_WQE_BB_def)
qed

end
