(* ===== verification/Pool_Spec.thy ===== *)
theory Pool_Spec
  imports Prelude
begin

text \<open>
  The contract of an allocator of numbered slots, and what its clients get from it. A client holds
  the slots it was given, and gives back slots it holds. The doorbell records and the user indices
  of the mlx5 driver are handed out by such allocators.
\<close>

datatype 'm pool_op = Take 'm | Give nat

text \<open>
  A run of a client from state \<open>s\<close>, holding the slots \<open>H\<close>: \<open>Take m\<close> asks for a slot, \<open>Give j\<close> gives
  back the \<open>j\<close>-th slot that is held, when there is one.
\<close>

fun pool_run :: "('m \<Rightarrow> 's \<Rightarrow> ('s \<times> nat option) res) \<Rightarrow> ('s \<Rightarrow> nat \<Rightarrow> 's res) \<Rightarrow> 'm pool_op list
    \<Rightarrow> 's \<Rightarrow> nat list \<Rightarrow> ('s \<times> nat list) res" where
  "pool_run tk gv [] s H = Inr (s, H)"
| "pool_run tk gv (Take m # ops) s H =
     bind_res (tk m s) (\<lambda>(s', r). pool_run tk gv ops s' (case r of None \<Rightarrow> H | Some x \<Rightarrow> H @ [x]))"
| "pool_run tk gv (Give j # ops) s H =
     (if j < length H
      then bind_res (gv s (H ! j)) (\<lambda>s'. pool_run tk gv ops s' (take j H @ drop (j + 1) H))
      else pool_run tk gv ops s H)"

text \<open>The requests of a run meet the allocator's precondition.\<close>

fun pool_env :: "('s \<Rightarrow> 'm \<Rightarrow> bool) \<Rightarrow> ('m \<Rightarrow> 's \<Rightarrow> ('s \<times> nat option) res) \<Rightarrow> ('s \<Rightarrow> nat \<Rightarrow> 's res)
    \<Rightarrow> 'm pool_op list \<Rightarrow> 's \<Rightarrow> nat list \<Rightarrow> bool" where
  "pool_env env tk gv [] s H = True"
| "pool_env env tk gv (Take m # ops) s H =
     (env s m \<and> (case tk m s of Inl _ \<Rightarrow> True
       | Inr (s', r) \<Rightarrow> pool_env env tk gv ops s' (case r of None \<Rightarrow> H | Some x \<Rightarrow> H @ [x])))"
| "pool_env env tk gv (Give j # ops) s H =
     (if j < length H
      then (case gv s (H ! j) of Inl _ \<Rightarrow> True
        | Inr s' \<Rightarrow> pool_env env tk gv ops s' (take j H @ drop (j + 1) H))
      else pool_env env tk gv ops s H)"

lemma pool_env_True: "pool_env (\<lambda>_ _. True) tk gv ops s H"
proof (induction ops arbitrary: s H)
  case (Cons a ops)
  thus ?case by (cases a) (auto split: sum.splits)
qed simp

lemma distinct_Nil: "distinct []"
  by simp

lemma set_remove_nth:
  assumes "distinct xs" "k < length xs"
  shows "set (take k xs @ drop (k + 1) xs) = set xs - {xs ! k}" "distinct (take k xs @ drop (k + 1) xs)"
proof -
  have "xs = take k xs @ xs ! k # drop (k + 1) xs" using id_take_nth_drop [OF assms(2)] by simp
  hence "distinct (take k xs @ xs ! k # drop (k + 1) xs)" "set xs = set (take k xs @ xs ! k # drop (k + 1) xs)"
    using assms(1) by metis+
  thus "set (take k xs @ drop (k + 1) xs) = set xs - {xs ! k}" "distinct (take k xs @ drop (k + 1) xs)" by auto
qed

locale slot_pool =
  fixes ok :: "'s \<Rightarrow> bool"
    and live :: "'s \<Rightarrow> nat set"
    and env :: "'s \<Rightarrow> 'm \<Rightarrow> bool"
    and tk :: "'m \<Rightarrow> 's \<Rightarrow> ('s \<times> nat option) res"
    and gv :: "'s \<Rightarrow> nat \<Rightarrow> 's res"
  assumes tk_ok: "ok s \<Longrightarrow> env s m \<Longrightarrow> \<exists>s' r. tk m s = Inr (s', r) \<and> ok s'
      \<and> live s' = live s \<union> set_option r \<and> live s \<inter> set_option r = {}"
    and gv_ok: "ok s \<Longrightarrow> x \<in> live s \<Longrightarrow> \<exists>s'. gv s x = Inr s' \<and> ok s' \<and> live s' = live s - {x}"
begin

text \<open>A run returns, and the client holds exactly the slots in use, each once.\<close>

lemma run_ok:
  assumes "ok s" "live s = set H" "distinct H" "pool_env env tk gv ops s H"
  shows "\<exists>s' H'. pool_run tk gv ops s H = Inr (s', H') \<and> ok s' \<and> live s' = set H' \<and> distinct H'"
  using assms
proof (induction ops arbitrary: s H)
  case (Cons a ops)
  show ?case
  proof (cases a)
    case (Take m)
    have e: "env s m" using Cons.prems(4) Take by simp
    obtain s' r where t: "tk m s = Inr (s', r)" "ok s'" "live s' = live s \<union> set_option r" "live s \<inter> set_option r = {}"
      using tk_ok [OF Cons.prems(1) e] by blast
    let ?H = "case r of None \<Rightarrow> H | Some x \<Rightarrow> H @ [x]"
    have "live s' = set ?H" "distinct ?H" using t(3,4) Cons.prems(2,3) by (auto split: option.splits)
    moreover have "pool_env env tk gv ops s' ?H" using Cons.prems(4) Take t(1) by simp
    ultimately show ?thesis using Cons.IH [OF t(2)] Take t(1) by simp
  next
    case (Give j)
    show ?thesis
    proof (cases "j < length H")
      case True
      hence "H ! j \<in> live s" using Cons.prems(2) by simp
      then obtain s' where g: "gv s (H ! j) = Inr s'" "ok s'" "live s' = live s - {H ! j}"
        using gv_ok [OF Cons.prems(1)] by blast
      let ?H = "take j H @ drop (j + 1) H"
      have "live s' = set ?H" "distinct ?H"
        using g(3) Cons.prems(2) set_remove_nth [OF Cons.prems(3) True] by simp_all
      moreover have "pool_env env tk gv ops s' ?H" using Cons.prems(4) Give True g(1) by simp
      ultimately show ?thesis using Cons.IH [OF g(2)] Give True g(1) by simp
    qed (use Cons Give in simp)
  qed
qed simp

end

end
