(* ===== verification/Mlx5_Srq.thy ===== *)
theory Mlx5_Srq
  imports Mlx5_Size Pool_Spec
begin

text \<open>
  Shared receive queues of the mlx5 driver (libmlx5 srq.c): the entries of the queue are linked into a
  list of free entries; posting takes entries at the head, a completion appends an entry at the tail.
  The buffer is the list of its entries, each with the fields of the structures of wqe.h as numbers;
  \<open>wqe_bytes\<close> is the memory of an entry, where they are big-endian. The spin lock is held for a
  whole operation.
\<close>

record data_seg =
  byte_count :: u32
  seg_lkey :: u32
  seg_addr :: u64

record srq_wqe =
  next_wqe_index :: u16
  wqe_signature :: u8
  scat :: "data_seg list"

record sge =
  sge_addr :: u64
  sge_length :: u32
  sge_lkey :: u32

record recv_wr =
  wr_id :: u64
  num_sge :: int
  sg_list :: "sge list"

record srq =
  srq_wqes :: "srq_wqe list"
  srq_wrid :: "u64 list"
  srqn :: u32
  srq_max :: int
  srq_max_gs :: int
  srq_wqe_shift :: int
  srq_head :: int
  srq_tail :: int
  srq_counter :: u16
  srq_db :: u32
  srq_wq_sig :: bool

definition MLX5_INVALID_LKEY :: u32 where "MLX5_INVALID_LKEY = 0x100"

text \<open>The memory of an entry.\<close>

definition be_bytes :: "nat \<Rightarrow> 'a::len word \<Rightarrow> u8 list" where
  "be_bytes n w = rev (le_bytes n w)"

definition seg_bytes :: "data_seg \<Rightarrow> u8 list" where
  "seg_bytes d = be_bytes 4 (byte_count d) @ be_bytes 4 (seg_lkey d) @ be_bytes 8 (seg_addr d)"

definition wqe_bytes :: "srq_wqe \<Rightarrow> u8 list" where
  "wqe_bytes w = [0, 0] @ be_bytes 2 (next_wqe_index w) @ [wqe_signature w] @ replicate 11 0
     @ concat (map seg_bytes (scat w))"

fun xor_bytes :: "u8 list \<Rightarrow> u8" where
  "xor_bytes [] = 0"
| "xor_bytes (b # bs) = b XOR xor_bytes bs"

definition calc_xor :: "u8 list \<Rightarrow> nat \<Rightarrow> u8 res" where
  "calc_xor p n = bind_res (check (n \<le> length p) OutOfBounds) (\<lambda>_. Inr (xor_bytes (take n p)))"

text \<open>The offset \<open>n << wqe_shift\<close> is an \<open>int\<close>: it must not be negative and must stay below \<open>2 ^ 31\<close>.\<close>

definition get_wqe :: "srq \<Rightarrow> int \<Rightarrow> srq_wqe res" where
  "get_wqe s n =
     bind_res (check (0 \<le> srq_wqe_shift s \<and> srq_wqe_shift s < 32 \<and> 0 \<le> n \<and> n * 2 ^ nat (srq_wqe_shift s) < 2 ^ 31) UndefShift) (\<lambda>_.
     bind_res (check (n < int (length (srq_wqes s))) OutOfBounds) (\<lambda>_.
     Inr (srq_wqes s ! nat n)))"

definition mlx5_free_srq_wqe :: "srq \<Rightarrow> int \<Rightarrow> srq res" where
  "mlx5_free_srq_wqe s ind =
     bind_res (get_wqe s (srq_tail s)) (\<lambda>w.
     Inr (s\<lparr>srq_wqes := (srq_wqes s)[nat (srq_tail s) := w\<lparr>next_wqe_index := of_int ind\<rparr>], srq_tail := ind\<rparr>))"

text \<open>The signature of an entry, computed with its own byte cleared.\<close>

definition set_sig_seg :: "srq \<Rightarrow> srq_wqe \<Rightarrow> nat \<Rightarrow> u16 \<Rightarrow> srq_wqe res" where
  "set_sig_seg s w sz idx =
     bind_res (calc_xor (wqe_bytes (w\<lparr>wqe_signature := 0\<rparr>)) sz) (\<lambda>a.
     bind_res (calc_xor (le_bytes 4 (srqn s)) 4) (\<lambda>b.
     bind_res (calc_xor (le_bytes 2 idx) 2) (\<lambda>c.
     Inr (w\<lparr>wqe_signature := NOT (a XOR b XOR c)\<rparr>))))"

definition seg_of :: "sge \<Rightarrow> data_seg" where
  "seg_of g = \<lparr>byte_count = sge_length g, seg_lkey = sge_lkey g, seg_addr = sge_addr g\<rparr>"

definition end_seg :: data_seg where
  "end_seg = \<lparr>byte_count = 0, seg_lkey = MLX5_INVALID_LKEY, seg_addr = 0\<rparr>"

text \<open>The loop that writes the segments \<open>i\<close>, \<open>i + 1\<close>, \<open>\<dots>\<close>, \<open>n\<close> of them.\<close>

fun put_sges :: "nat \<Rightarrow> nat \<Rightarrow> sge list \<Rightarrow> data_seg list \<Rightarrow> data_seg list res" where
  "put_sges 0 i sgl ds = Inr ds"
| "put_sges (Suc n) i sgl ds =
     bind_res (check (i < length sgl \<and> i < length ds) OutOfBounds) (\<lambda>_.
     put_sges n (i + 1) sgl (ds[i := seg_of (sgl ! i)]))"

text \<open>One turn of the loop of \<open>mlx5_post_srq_recv\<close>; the number returned is \<open>err\<close>.\<close>

definition post_srq_one :: "srq \<Rightarrow> recv_wr \<Rightarrow> int \<Rightarrow> (srq \<times> int) res" where
  "post_srq_one s wr nreq =
     (if srq_max_gs s < num_sge wr then Inr (s, EINVAL)
      else if srq_head s = srq_tail s then Inr (s, ENOMEM)
      else let head = srq_head s in
        bind_res (check (0 \<le> head \<and> head < int (length (srq_wrid s))) OutOfBounds) (\<lambda>_.
        bind_res (get_wqe s head) (\<lambda>w.
        bind_res (put_sges (nat (num_sge wr)) 0 (sg_list wr) (scat w)) (\<lambda>ds.
        let i = max 0 (num_sge wr) in
        bind_res (check (i < srq_max_gs s \<longrightarrow> i < int (length ds)) OutOfBounds) (\<lambda>_.
        let w' = w\<lparr>scat := (if i < srq_max_gs s then ds[nat i := end_seg] else ds)\<rparr> in
        bind_res (if srq_wq_sig s then set_sig_seg s w' (2 ^ nat (srq_wqe_shift s)) (of_int (head + nreq)) else Inr w') (\<lambda>w''.
        Inr (s\<lparr>srq_wrid := (srq_wrid s)[nat head := wr_id wr], srq_head := int (unat (next_wqe_index w)),
               srq_wqes := (srq_wqes s)[nat head := w'']\<rparr>, 0)))))))"

fun post_srq_loop :: "srq \<Rightarrow> recv_wr list \<Rightarrow> nat \<Rightarrow> (srq \<times> nat \<times> int \<times> recv_wr option) res" where
  "post_srq_loop s [] nreq = Inr (s, nreq, 0, None)"
| "post_srq_loop s (wr # ws) nreq =
     bind_res (post_srq_one s wr (int nreq)) (\<lambda>(s', err).
     if err \<noteq> 0 then Inr (s', nreq, err, Some wr) else post_srq_loop s' ws (nreq + 1))"

text \<open>The result: the queue, the number of requests posted, \<open>err\<close> and \<open>*bad_wr\<close>.\<close>

definition mlx5_post_srq_recv :: "srq \<Rightarrow> recv_wr list \<Rightarrow> (srq \<times> nat \<times> int \<times> recv_wr option) res" where
  "mlx5_post_srq_recv s ws =
     bind_res (post_srq_loop s ws 0) (\<lambda>(s', nreq, err, bad).
     if nreq \<noteq> 0
     then let c = srq_counter s' + of_nat nreq
          in Inr (s'\<lparr>srq_counter := c, srq_db := ucast c\<rparr>, nreq, err, bad)
     else Inr (s', nreq, err, bad))"

text \<open>
  \<open>mlx5_alloc_srq_buf\<close>, with the success of \<open>malloc\<close> and of the buffer allocation as arguments. The
  result is the value returned, the queue and the number of blocks that stay allocated. The segment
  count is computed in \<open>size_t\<close>; the size of the buffer is a product of two \<open>int\<close>.
\<close>

definition zero_seg :: data_seg where
  "zero_seg = \<lparr>byte_count = 0, seg_lkey = 0, seg_addr = 0\<rparr>"

definition free_list :: "int \<Rightarrow> int \<Rightarrow> srq_wqe list" where
  "free_list n gs = map (\<lambda>i. \<lparr>next_wqe_index = of_int ((int i + 1) AND (n - 1)), wqe_signature = 0,
                             scat = replicate (nat gs) zero_seg\<rparr>) [0..<nat n]"

definition mlx5_alloc_srq_buf :: "int \<Rightarrow> bool \<Rightarrow> bool \<Rightarrow> srq \<Rightarrow> (int \<times> srq \<times> nat) res" where
  "mlx5_alloc_srq_buf recv_wr_limit malloc_ok buf_ok s =
     (if srq_max_gs s < 0 then Inr (- 1, s, 0)
      else if \<not> malloc_ok then Inr (- 1, s, 0)
      else
        let size0 = max 32 (to_s32 (sizeof_srq_next_seg + srq_max_gs s * sizeof_data_seg)) in
        bind_res (mlx5_round_up_power_of_two size0) (\<lambda>sz.
        if recv_wr_limit < sz then Inr (- 1, s, 1)
        else
          let gs = to_s32 ((sz - sizeof_srq_next_seg) mod 2 ^ 64 div sizeof_data_seg) in
          bind_res (mlx5_ilog2 sz) (\<lambda>sh.
          let s1 = s\<lparr>srq_max_gs := gs, srq_wqe_shift := sh\<rparr> in
          let buf_size = srq_max s * sz in
          bind_res (check (- (2 ^ 31) \<le> buf_size \<and> buf_size < 2 ^ 31) IntOverflow) (\<lambda>_.
          if \<not> buf_ok then Inr (- 1, s1, 0)
          else bind_res (check (0 \<le> sh) UndefShift) (\<lambda>_.
          Inr (0, s1\<lparr>srq_wrid := replicate (nat (srq_max s)) 0, srq_wqes := free_list (srq_max s) gs,
                     srq_head := 0, srq_tail := srq_max s - 1\<rparr>, 2))))))"

subsection \<open>Entries\<close>

lemma length_seg_bytes [simp]: "length (seg_bytes d) = 16"
  by (simp add: seg_bytes_def be_bytes_def)

lemma length_wqe_bytes: "length (wqe_bytes w) = 16 + 16 * length (scat w)"
  by (simp add: wqe_bytes_def be_bytes_def length_concat comp_def sum_list_triv)

lemma xor_bytes_append: "xor_bytes (xs @ ys) = xor_bytes xs XOR xor_bytes ys"
  by (induction xs) (simp_all add: ac_simps)

lemma xor_wqe_signature: "xor_bytes (wqe_bytes w) = wqe_signature w XOR xor_bytes (wqe_bytes (w\<lparr>wqe_signature := 0\<rparr>))"
  by (simp add: wqe_bytes_def xor_bytes_append ac_simps)

text \<open>The bytes of a signed entry, of the queue number and of the index cancel to all ones.\<close>

lemma set_sig_seg_ok:
  assumes "n = length (wqe_bytes w)"
  shows "\<exists>w'. set_sig_seg s w n idx = Inr w' \<and> next_wqe_index w' = next_wqe_index w \<and> scat w' = scat w
     \<and> xor_bytes (wqe_bytes w') XOR xor_bytes (le_bytes 4 (srqn s)) XOR xor_bytes (le_bytes 2 idx) = - 1"
proof -
  let ?a = "xor_bytes (wqe_bytes (w\<lparr>wqe_signature := 0\<rparr>))" and ?b = "xor_bytes (le_bytes 4 (srqn s))"
  let ?c = "xor_bytes (le_bytes 2 idx)"
  let ?w = "w\<lparr>wqe_signature := NOT (?a XOR ?b XOR ?c)\<rparr>"
  have "length (wqe_bytes (w\<lparr>wqe_signature := 0\<rparr>)) = n" by (simp add: assms length_wqe_bytes)
  hence "set_sig_seg s w n idx = Inr ?w" by (simp add: set_sig_seg_def calc_xor_def)
  moreover have "xor_bytes (wqe_bytes ?w) XOR ?b XOR ?c = - 1"
    unfolding xor_wqe_signature [of ?w] by (rule bit_word_eqI) (auto simp: bit_simps)
  ultimately show ?thesis by auto
qed

lemma put_sges_ok:
  assumes "n + i \<le> length sgl" "n + i \<le> length ds"
  shows "\<exists>ds'. put_sges n i sgl ds = Inr ds' \<and> length ds' = length ds \<and> take i ds' = take i ds
     \<and> (\<forall>j. i \<le> j \<longrightarrow> j < i + n \<longrightarrow> ds' ! j = seg_of (sgl ! j))"
  using assms
proof (induction n arbitrary: i ds)
  case (Suc n)
  let ?ds = "ds[i := seg_of (sgl ! i)]"
  obtain ds' where d: "put_sges n (i + 1) sgl ?ds = Inr ds'" "length ds' = length ds" "take (i + 1) ds' = take (i + 1) ?ds"
    "\<forall>j. i + 1 \<le> j \<longrightarrow> j < i + 1 + n \<longrightarrow> ds' ! j = seg_of (sgl ! j)"
    using Suc.IH [of "i + 1" ?ds] Suc.prems by auto
  have i: "ds' ! i = seg_of (sgl ! i)"
    using arg_cong [OF d(3), of "\<lambda>xs. xs ! i"] Suc.prems by simp
  have "take i ds' = take i ds" using arg_cong [OF d(3), of "take i"] by (simp add: min_def)
  moreover have "ds' ! j = seg_of (sgl ! j)" if "i \<le> j" "j < i + Suc n" for j
    using that d(4) i by (cases "j = i") auto
  ultimately show ?case using d(1,2) Suc.prems by auto
qed auto

subsection \<open>The free list and the posted entries\<close>

text \<open>A chain of entries, each with the index of the next.\<close>

fun linked :: "srq_wqe list \<Rightarrow> nat list \<Rightarrow> bool" where
  "linked ws (x # y # xs) = (unat (next_wqe_index (ws ! x)) = y \<and> linked ws (y # xs))"
| "linked ws xs = True"

text \<open>Entry \<open>i\<close> holds request \<open>wr\<close>: its id, its segments and the mark after the last one.\<close>

definition intact :: "srq \<Rightarrow> nat \<Rightarrow> recv_wr \<Rightarrow> bool" where
  "intact s i wr \<longleftrightarrow> i < length (srq_wqes s) \<and> srq_wrid s ! i = wr_id wr \<and> num_sge wr \<le> srq_max_gs s
     \<and> (\<forall>j < nat (num_sge wr). scat (srq_wqes s ! i) ! j = seg_of (sg_list wr ! j))
     \<and> (max 0 (num_sge wr) < srq_max_gs s \<longrightarrow> scat (srq_wqes s ! i) ! nat (num_sge wr) = end_seg)"

definition srq_shape :: "srq \<Rightarrow> bool" where
  "srq_shape s \<longleftrightarrow> length (srq_wqes s) \<le> 2 ^ 16 \<and> length (srq_wrid s) = length (srq_wqes s) \<and> 0 \<le> srq_max_gs s
     \<and> (\<forall>w\<in>set (srq_wqes s). int (length (scat w)) = srq_max_gs s)
     \<and> 2 ^ nat (srq_wqe_shift s) = 16 + 16 * srq_max_gs s
     \<and> 0 \<le> srq_wqe_shift s \<and> int (length (srq_wqes s)) * 2 ^ nat (srq_wqe_shift s) < 2 ^ 31"

definition srq_inv :: "srq \<Rightarrow> nat list \<Rightarrow> (nat \<times> recv_wr) list \<Rightarrow> bool" where
  "srq_inv s chain pend \<longleftrightarrow> srq_shape s \<and> chain \<noteq> [] \<and> srq_head s = int (hd chain) \<and> srq_tail s = int (last chain)
     \<and> linked (srq_wqes s) chain \<and> distinct (chain @ map fst pend)
     \<and> set (chain @ map fst pend) = {..<length (srq_wqes s)} \<and> (\<forall>(i, wr)\<in>set pend. intact s i wr)"

definition wr_ok :: "recv_wr \<Rightarrow> bool" where
  "wr_ok wr \<longleftrightarrow> num_sge wr \<le> int (length (sg_list wr))"

lemma linked_cong: "(\<And>x. x \<in> set (butlast xs) \<Longrightarrow> next_wqe_index (ws ! x) = next_wqe_index (ws' ! x)) \<Longrightarrow> linked ws xs = linked ws' xs"
  by (induction ws xs rule: linked.induct) auto

lemma linked_update: "h \<notin> set (butlast xs) \<Longrightarrow> linked (ws[h := w]) xs = linked ws xs"
  by (rule linked_cong) (metis nth_list_update_neq)

lemma linked_snoc: "xs \<noteq> [] \<Longrightarrow> linked ws (xs @ [y]) \<longleftrightarrow> linked ws xs \<and> unat (next_wqe_index (ws ! last xs)) = y"
  by (induction ws xs rule: linked.induct) auto

lemma set_ineq_length: "distinct xs \<Longrightarrow> set xs = {..<n} \<Longrightarrow> length xs = n"
  by (metis card_lessThan distinct_card)

text \<open>The entries of a buffer that is smaller than \<open>2 ^ 31\<close> bytes are within the range of the shift.\<close>

lemma get_wqe_ok:
  assumes "0 \<le> srq_wqe_shift s" "int (length (srq_wqes s)) * 2 ^ nat (srq_wqe_shift s) < 2 ^ 31" "i < length (srq_wqes s)"
  shows "get_wqe s (int i) = Inr (srq_wqes s ! i)"
proof -
  let ?p = "2 ^ nat (srq_wqe_shift s) :: int"
  have "int i * ?p \<le> int (length (srq_wqes s)) * ?p" using assms(3) by (intro mult_right_mono) simp_all
  hence m: "int i * ?p < 2 ^ 31" using assms(2) by linarith
  have "1 * ?p \<le> int (length (srq_wqes s)) * ?p" using assms(3) by (intro mult_right_mono) simp_all
  hence "?p < 2 ^ 31" using assms(2) by linarith
  hence "nat (srq_wqe_shift s) < 31" by (metis not_le two_power_le)
  hence "srq_wqe_shift s < 32" by linarith
  thus ?thesis using assms m by (simp add: get_wqe_def)
qed

lemma shape_get_wqe: "srq_shape s \<Longrightarrow> i < length (srq_wqes s) \<Longrightarrow> get_wqe s (int i) = Inr (srq_wqes s ! i)"
  unfolding srq_shape_def by (blast intro: get_wqe_ok)

lemma intact_other:
  "intact s i wr \<Longrightarrow> i \<noteq> h \<Longrightarrow>
   intact (s\<lparr>srq_wrid := (srq_wrid s)[h := v], srq_head := hd', srq_wqes := (srq_wqes s)[h := w]\<rparr>) i wr"
  by (simp add: intact_def)

lemma post_one_taken:
  assumes inv: "srq_inv s (h # y # xs) pend" and wr: "wr_ok wr" "num_sge wr \<le> srq_max_gs s"
  shows "\<exists>s'. post_srq_one s wr nreq = Inr (s', 0) \<and> srq_inv s' (y # xs) (pend @ [(h, wr)]) \<and> srq_max_gs s' = srq_max_gs s
    \<and> srq_counter s' = srq_counter s \<and> length (srq_wqes s') = length (srq_wqes s)
    \<and> (\<forall>x. x \<noteq> h \<longrightarrow> srq_wqes s' ! x = srq_wqes s ! x)"
proof -
  let ?w = "srq_wqes s ! h" and ?n = "nat (num_sge wr)"
  have sh: "srq_shape s" and ht: "srq_head s = int h" "srq_tail s = int (last (y # xs))"
    and lk: "unat (next_wqe_index ?w) = y" "linked (srq_wqes s) (y # xs)"
    and ds: "distinct (h # (y # xs) @ map fst pend)" "insert h (set ((y # xs) @ map fst pend)) = {..<length (srq_wqes s)}"
    and pd: "\<forall>(i, wr)\<in>set pend. intact s i wr"
    using inv by (auto simp: srq_inv_def)
  have hl: "h < length (srq_wqes s)" using ds(2) by auto
  have ne: "srq_head s \<noteq> srq_tail s" using ht ds(1) last_in_set [of "y # xs"] by auto
  have ls: "int (length (scat ?w)) = srq_max_gs s" using sh hl by (simp add: srq_shape_def)
  have "?n + 0 \<le> length (sg_list wr)" "?n + 0 \<le> length (scat ?w)" using wr ls by (simp_all add: wr_ok_def nat_le_iff)
  from put_sges_ok [OF this] obtain dsg where d: "put_sges ?n 0 (sg_list wr) (scat ?w) = Inr dsg" "length dsg = length (scat ?w)"
    "\<forall>j<?n. dsg ! j = seg_of (sg_list wr ! j)"
    by auto
  define i where "i = max 0 (num_sge wr)"
  define w' where "w' = ?w\<lparr>scat := (if i < srq_max_gs s then dsg[nat i := end_seg] else dsg)\<rparr>"
  have lw: "length (scat w') = length (scat ?w)" by (simp add: w'_def d(2))
  have "length (wqe_bytes w') = 2 ^ nat (srq_wqe_shift s)"
  proof -
    have "int (length (wqe_bytes w')) = 2 ^ nat (srq_wqe_shift s)"
      using sh ls lw by (simp add: srq_shape_def length_wqe_bytes)
    thus ?thesis by (metis of_nat_eq_iff of_nat_numeral of_nat_power)
  qed
  then obtain w'' where w'': "(if srq_wq_sig s then set_sig_seg s w' (2 ^ nat (srq_wqe_shift s)) (of_int (int h + nreq)) else Inr w') = Inr w''"
    "next_wqe_index w'' = next_wqe_index w'" "scat w'' = scat w'"
    using set_sig_seg_ok [of "2 ^ nat (srq_wqe_shift s)" w' s] by (cases "srq_wq_sig s") auto
  let ?s = "s\<lparr>srq_wrid := (srq_wrid s)[h := wr_id wr], srq_head := int y, srq_wqes := (srq_wqes s)[h := w'']\<rparr>"
  have int_y: "int y = uint (next_wqe_index ?w)" using lk(1) by auto
  have run: "post_srq_one s wr nreq = Inr (?s, 0)"
    using wr(2) ne hl sh d(1,2) ls w''(1) ht(1) int_y shape_get_wqe [OF sh hl]
    by (cases "srq_wq_sig s")
      (simp_all add: post_srq_one_def Let_def srq_shape_def i_def [symmetric] w'_def [symmetric])
  have "int (length (scat w'')) = srq_max_gs s" using ls lw w''(3) by simp
  hence "srq_shape ?s" using sh by (auto simp: srq_shape_def dest!: set_update_subset_insert [THEN subsetD])
  moreover have "linked (srq_wqes ?s) (y # xs)"
    using lk(2) ds(1) linked_update [of h "y # xs"] in_set_butlastD [of h "y # xs"] by auto
  moreover have "intact ?s h wr"
  proof -
    have "scat w'' ! j = seg_of (sg_list wr ! j)" if "j < ?n" for j
      using that d(3) by (simp add: w''(3) w'_def i_def)
    moreover have "scat w'' ! ?n = end_seg" if "i < srq_max_gs s"
    proof -
      have "nat i = ?n" "?n < length dsg" using that ls d(2) by (auto simp: i_def)
      thus ?thesis using that by (simp add: w''(3) w'_def)
    qed
    ultimately show ?thesis using hl sh wr(2) by (simp add: intact_def srq_shape_def i_def)
  qed
  moreover have "\<forall>(j, v)\<in>set pend. intact ?s j v"
  proof -
    have "intact ?s j v" if "(j, v) \<in> set pend" for j v
    proof (rule intact_other)
      show "intact s j v" using pd that by blast
      show "j \<noteq> h" using ds(1) that by force
    qed
    thus ?thesis by blast
  qed
  ultimately have "srq_inv ?s (y # xs) (pend @ [(h, wr)])"
    using ds ht(2) by (auto simp: srq_inv_def)
  thus ?thesis using run by auto
qed

text \<open>Posting a list of requests: \<open>k\<close> of them are taken, and the error tells why it stopped.\<close>

lemma post_loop_taken:
  assumes "srq_inv s chain pend" "list_all wr_ok ws"
  shows "\<exists>k s' err bad. post_srq_loop s ws nreq = Inr (s', nreq + k, err, bad) \<and> k \<le> length ws \<and> k < length chain
    \<and> srq_inv s' (drop k chain) (pend @ zip (take k chain) (take k ws))
    \<and> srq_max_gs s' = srq_max_gs s \<and> srq_counter s' = srq_counter s \<and> length (srq_wqes s') = length (srq_wqes s)
    \<and> list_all (\<lambda>wr. num_sge wr \<le> srq_max_gs s) (take k ws)
    \<and> (\<forall>x. x \<notin> set (take k chain) \<longrightarrow> srq_wqes s' ! x = srq_wqes s ! x)
    \<and> (if k = length ws then err = 0 \<and> bad = None
       else bad = Some (ws ! k) \<and> err = (if srq_max_gs s < num_sge (ws ! k) then EINVAL else ENOMEM)
          \<and> (num_sge (ws ! k) \<le> srq_max_gs s \<longrightarrow> k = length chain - 1))"
  using assms
proof (induction ws arbitrary: s chain pend nreq)
  case Nil
  have "chain \<noteq> []" using Nil.prems(1) by (simp add: srq_inv_def)
  thus ?case using Nil.prems(1) by simp
next
  case (Cons wr ws)
  note inv = Cons.prems(1)
  have ne: "chain \<noteq> []" and ht: "srq_head s = int (hd chain)" "srq_tail s = int (last chain)"
    using inv by (auto simp: srq_inv_def)
  consider (big) "srq_max_gs s < num_sge wr" | (full) h where "num_sge wr \<le> srq_max_gs s" "chain = [h]"
    | (ok) h y xs where "num_sge wr \<le> srq_max_gs s" "chain = h # y # xs"
    using ne by (metis list.exhaust not_le)
  thus ?case
  proof cases
    case big
    hence "post_srq_loop s (wr # ws) nreq = Inr (s, nreq, EINVAL, Some wr)" by (simp add: post_srq_one_def EINVAL_def)
    thus ?thesis using big inv ne by (intro exI [of _ "0 :: nat"] exI [of _ s] exI [of _ EINVAL] exI [of _ "Some wr"]) (simp add: EINVAL_def)
  next
    case full
    hence "post_srq_loop s (wr # ws) nreq = Inr (s, nreq, ENOMEM, Some wr)"
      using ht by (simp add: post_srq_one_def ENOMEM_def)
    thus ?thesis using full inv by (intro exI [of _ "0 :: nat"] exI [of _ s] exI [of _ ENOMEM] exI [of _ "Some wr"]) (simp add: ENOMEM_def)
  next
    case ok
    have wr: "wr_ok wr" "list_all wr_ok ws" using Cons.prems(2) by simp_all
    obtain s1 where s1: "post_srq_one s wr (int nreq) = Inr (s1, 0)" "srq_inv s1 (y # xs) (pend @ [(h, wr)])"
      "srq_max_gs s1 = srq_max_gs s" "srq_counter s1 = srq_counter s" "length (srq_wqes s1) = length (srq_wqes s)"
      "\<forall>x. x \<noteq> h \<longrightarrow> srq_wqes s1 ! x = srq_wqes s ! x"
      using post_one_taken [OF inv [unfolded ok(2)] wr(1) ok(1)] by blast
    obtain k s' err bad where r: "post_srq_loop s1 ws (nreq + 1) = Inr (s', nreq + 1 + k, err, bad)" "k \<le> length ws"
      "k < length (y # xs)" "srq_inv s' (drop k (y # xs)) ((pend @ [(h, wr)]) @ zip (take k (y # xs)) (take k ws))"
      "srq_max_gs s' = srq_max_gs s1" "srq_counter s' = srq_counter s1" "length (srq_wqes s') = length (srq_wqes s1)"
      "list_all (\<lambda>wr. num_sge wr \<le> srq_max_gs s1) (take k ws)"
      "\<forall>x. x \<notin> set (take k (y # xs)) \<longrightarrow> srq_wqes s' ! x = srq_wqes s1 ! x"
      "if k = length ws then err = 0 \<and> bad = None
       else bad = Some (ws ! k) \<and> err = (if srq_max_gs s1 < num_sge (ws ! k) then EINVAL else ENOMEM)
          \<and> (num_sge (ws ! k) \<le> srq_max_gs s1 \<longrightarrow> k = length (y # xs) - 1)"
      using Cons.IH [OF s1(2) wr(2), of "nreq + 1"] by blast
    show ?thesis
      by (intro exI [of _ "k + 1"] exI [of _ s'] exI [of _ err] exI [of _ bad])
        (use r s1 ok in \<open>auto split: if_splits\<close>)
  qed
qed

text \<open>A completion gives the entry back at the end of the chain.\<close>

lemma free_wqe_given:
  assumes inv: "srq_inv s chain pend" and j: "j < length pend"
  shows "\<exists>s'. mlx5_free_srq_wqe s (int (fst (pend ! j))) = Inr s'
    \<and> srq_inv s' (chain @ [fst (pend ! j)]) (take j pend @ drop (j + 1) pend)
    \<and> srq_max_gs s' = srq_max_gs s \<and> srq_counter s' = srq_counter s \<and> length (srq_wqes s') = length (srq_wqes s)
    \<and> srq_wrid s' = srq_wrid s \<and> (\<forall>x. scat (srq_wqes s' ! x) = scat (srq_wqes s ! x))"
proof -
  let ?t = "last chain" and ?i = "fst (pend ! j)"
  have sh: "srq_shape s" and ne: "chain \<noteq> []" and ht: "srq_head s = int (hd chain)" "srq_tail s = int ?t"
    and lk: "linked (srq_wqes s) chain" and ds: "distinct (chain @ map fst pend)"
    and st: "set (chain @ map fst pend) = {..<length (srq_wqes s)}" and pd: "\<forall>(i, wr)\<in>set pend. intact s i wr"
    using inv unfolding srq_inv_def by blast+
  have tc: "?t \<in> set chain" using ne by simp
  have ip: "?i \<in> set (map fst pend)" using j by simp
  have "?t \<in> {..<length (srq_wqes s)}" "?i \<in> {..<length (srq_wqes s)}" unfolding st [symmetric] using tc ip by simp_all
  hence tl: "?t < length (srq_wqes s)" and il: "?i < length (srq_wqes s)" by simp_all
  let ?w = "(srq_wqes s ! ?t)\<lparr>next_wqe_index := of_nat ?i\<rparr>"
  let ?s = "s\<lparr>srq_wqes := (srq_wqes s)[?t := ?w], srq_tail := int ?i\<rparr>"
  have run: "mlx5_free_srq_wqe s (int ?i) = Inr ?s" using shape_get_wqe [OF sh tl] by (simp add: mlx5_free_srq_wqe_def ht)
  have u: "unat (of_nat ?i :: u16) = ?i"
    using il sh by (simp add: srq_shape_def unat_of_nat take_bit_nat_eq_self)
  have "srq_shape ?s" using sh tl by (auto simp: srq_shape_def dest!: set_update_subset_insert [THEN subsetD])
  moreover have "linked (srq_wqes ?s) (chain @ [?i])"
  proof -
    have "distinct (butlast chain @ [?t])" using ds ne by simp
    hence "linked (srq_wqes ?s) chain" using lk linked_update by simp
    thus ?thesis using ne tl u by (simp add: linked_snoc)
  qed
  moreover have rm: "set (map fst (take j pend @ drop (j + 1) pend)) = set (map fst pend) - {?i}"
    "distinct (map fst (take j pend @ drop (j + 1) pend))"
    using set_remove_nth [of "map fst pend" j] ds j by (simp_all add: take_map drop_map)
  moreover have "intact ?s k v" if "(k, v) \<in> set (take j pend @ drop (j + 1) pend)" for k v
  proof -
    have "(k, v) \<in> set pend" using that by (auto dest: in_set_takeD in_set_dropD)
    moreover have "k \<in> set (map fst pend)" using calculation by force
    moreover have "set chain \<inter> set (map fst pend) = {}" using ds by simp
    moreover have "k \<noteq> ?t" using calculation(2,3) tc by blast
    ultimately show ?thesis using pd by (auto simp: intact_def)
  qed
  moreover have "distinct ((chain @ [?i]) @ map fst (take j pend @ drop (j + 1) pend))"
    using ds ip rm by (auto simp del: map_append set_map)
  moreover have "set ((chain @ [?i]) @ map fst (take j pend @ drop (j + 1) pend)) = {..<length (srq_wqes ?s)}"
    using st ip rm(1) by (auto simp del: map_append set_map)
  ultimately have "srq_inv ?s (chain @ [?i]) (take j pend @ drop (j + 1) pend)"
    using ne ht(1) unfolding srq_inv_def by (simp del: map_append set_map set_append add: case_prod_beta)
  moreover have "scat (srq_wqes ?s ! x) = scat (srq_wqes s ! x)" for x using tl by (cases "x = ?t") simp_all
  ultimately show ?thesis using run by auto
qed

subsection \<open>A new queue\<close>

lemma and_power_minus_1: "(0 :: int) \<le> x \<Longrightarrow> x AND (2 ^ k - 1) = x mod 2 ^ k"
  by (simp add: take_bit_eq_mod flip: mask_eq_exp_minus_1 take_bit_eq_mask)

lemma free_list_next:
  assumes "k \<le> 16" "i + 1 < 2 ^ k"
  shows "unat (next_wqe_index (free_list (2 ^ k) gs ! i)) = i + 1"
proof -
  have "int (i + 1) < int (2 ^ k)" using assms(2) by (simp only: of_nat_less_iff)
  hence i: "int i + 1 < 2 ^ k" by simp
  hence m: "(int i + 1) AND (2 ^ k - 1) = int i + 1" by (simp add: and_power_minus_1)
  have "(2 :: int) ^ k \<le> 2 ^ 16" unfolding two_power_le by (rule assms(1))
  hence "unat (of_int (int i + 1) :: u16) = i + 1"
    using i by (simp only: unsigned_of_int) (simp add: take_bit_int_eq_self nat_add_distrib)
  moreover have "i < nat (2 ^ k)" using i by simp
  ultimately show ?thesis using m by (simp add: free_list_def)
qed

lemma linked_free_list:
  assumes "k \<le> 16" "a + n \<le> 2 ^ k"
  shows "linked (free_list (2 ^ k) gs) [a..<a + n]"
  using assms(2)
proof (induction n)
  case (Suc n)
  show ?case
  proof (cases n)
    case (Suc m)
    have "last [a..<a + n] = a + m" using Suc by simp
    moreover have "unat (next_wqe_index (free_list (2 ^ k) gs ! (a + m))) = a + n"
      using free_list_next [OF assms(1), of "a + m" gs] Suc \<open>a + Suc n \<le> 2 ^ k\<close> by simp
    moreover have "[a..<a + Suc n] = [a..<a + n] @ [a + n]" by simp
    ultimately show ?thesis using Suc.IH Suc.prems linked_snoc [of "[a..<a + n]"] Suc by simp
  qed simp
qed simp

text \<open>The new queue has all entries in its free list, in order.\<close>

lemma alloc_srq_ok:
  assumes "srq_max s = 2 ^ k" "k \<le> 16" "0 \<le> srq_max_gs s" "srq_max_gs s < 2 ^ 24" "lim \<le> 2 ^ 30"
  shows "\<exists>j. max 32 (16 + 16 * srq_max_gs s) \<le> 2 ^ j \<and> j \<le> 30 \<and>
    (if lim < 2 ^ j then mlx5_alloc_srq_buf lim True True s = Inr (- 1, s, 1)
     else if 2 ^ 31 \<le> srq_max s * 2 ^ j then mlx5_alloc_srq_buf lim True True s = Inl IntOverflow
     else \<exists>s'. mlx5_alloc_srq_buf lim True True s = Inr (0, s', 2) \<and> srq_inv s' [0..<2 ^ k] []
       \<and> srq_max_gs s \<le> srq_max_gs s' \<and> srq_max s' = srq_max s)"
proof -
  let ?size = "max 32 (16 + 16 * srq_max_gs s)"
  have t: "to_s32 (16 + srq_max_gs s * 16) = 16 + 16 * srq_max_gs s" using assms(3,4) by (subst to_s32_small) auto
  have "?size \<le> 2 ^ 30" using assms(4) by simp
  then obtain j where j: "mlx5_round_up_power_of_two ?size = Inr (2 ^ j)" "j \<le> 30" "?size \<le> 2 ^ j"
    using round_up_ok by blast
  have "(2 :: int) ^ 5 \<le> 2 ^ j" using j(3) by simp
  hence j5: "5 \<le> j" unfolding two_power_le .
  have l30: "(2 :: int) ^ j \<le> 2 ^ 30" using j(2) unfolding two_power_le .
  let ?gs = "(2 ^ j - 16) div 16 :: int"
  have "(2 ^ j - 16) mod 2 ^ 64 = (2 ^ j - 16 :: int)" using j(3) l30 by (intro mod_pos_pos_trivial) auto
  moreover have "to_s32 ?gs = ?gs" using j(3) l30 by (intro to_s32_small) auto
  ultimately have gs: "to_s32 ((2 ^ j - 16) mod 18446744073709551616 div 16) = ?gs" by simp
  have e: "(2 :: int) ^ j = 16 + 16 * ?gs"
  proof -
    have "(2 :: int) ^ j = 16 * 2 ^ (j - 4)" using j5 power_add [of "2 :: int" 4 "j - 4"] by simp
    thus ?thesis by simp
  qed
  have il: "mlx5_ilog2 (2 ^ j) = Inr (int j)" by (rule ilog2_power [OF j(2)])
  consider (big) "lim < 2 ^ j" | (overflow) "\<not> lim < 2 ^ j" "2 ^ 31 \<le> srq_max s * 2 ^ j" | (ok) "\<not> lim < 2 ^ j" "srq_max s * 2 ^ j < 2 ^ 31"
    by linarith
  thus ?thesis
  proof cases
    case big
    have "mlx5_alloc_srq_buf lim True True s = Inr (- 1, s, 1)"
      using assms(3) big j(1) by (simp add: mlx5_alloc_srq_buf_def Let_def size_consts t)
    thus ?thesis using big j by auto
  next
    case overflow
    have "mlx5_alloc_srq_buf lim True True s = Inl IntOverflow"
      using assms(3) overflow j(1) by (simp add: mlx5_alloc_srq_buf_def Let_def size_consts t il)
    thus ?thesis using overflow j by auto
  next
    case ok
    have nn: "0 \<le> srq_max s * 2 ^ j" by (simp add: assms(1))
    let ?s = "s\<lparr>srq_max_gs := ?gs, srq_wqe_shift := int j, srq_wrid := replicate (nat (srq_max s)) 0,
                srq_wqes := free_list (srq_max s) ?gs, srq_head := 0, srq_tail := srq_max s - 1\<rparr>"
    have run: "mlx5_alloc_srq_buf lim True True s = Inr (0, ?s, 2)"
      using assms(3) ok nn j(1) by (simp add: mlx5_alloc_srq_buf_def Let_def size_consts t gs il)
    have n: "nat (2 ^ k) = 2 ^ k" by (simp add: nat_power_eq)
    have len: "length (free_list (2 ^ k) ?gs) = 2 ^ k" by (simp add: free_list_def n)
    have g0: "0 \<le> ?gs" using j(3) e by linarith
    have "srq_shape ?s"
      using e g0 ok(2) power_increasing [OF assms(2), of "2 :: nat"]
      by (auto simp: srq_shape_def assms(1) len n) (simp add: free_list_def n, auto)
    moreover have "linked (free_list (2 ^ k) ?gs) [0..<2 ^ k]" using linked_free_list [OF assms(2), of 0 "2 ^ k"] by simp
    ultimately have "srq_inv ?s [0..<2 ^ k] []"
      by (simp add: srq_inv_def assms(1) len last_upt lessThan_atLeast0 of_nat_diff)
    moreover have "srq_max_gs s \<le> ?gs" using j(3) e by linarith
    ultimately show ?thesis using run j ok by (intro exI [of _ j]) auto
  qed
qed

subsection \<open>Runs\<close>

datatype srq_op = Post "recv_wr list" | Complete nat

text \<open>The entries the device finds from the old head, following the indices.\<close>

fun walk :: "srq_wqe list \<Rightarrow> nat \<Rightarrow> nat \<Rightarrow> nat list" where
  "walk ws h 0 = []"
| "walk ws h (Suc n) = h # walk ws (unat (next_wqe_index (ws ! h))) n"

text \<open>
  A run of posts and completions; \<open>pend\<close> are the posted entries with their requests, which the device
  completes in any order.
\<close>

fun srq_run :: "srq_op list \<Rightarrow> srq \<Rightarrow> (nat \<times> recv_wr) list \<Rightarrow> (srq \<times> (nat \<times> recv_wr) list) res" where
  "srq_run [] s pend = Inr (s, pend)"
| "srq_run (Post ws # ops) s pend =
     bind_res (mlx5_post_srq_recv s ws) (\<lambda>(s', n, err, bad).
     srq_run ops s' (pend @ zip (walk (srq_wqes s) (nat (srq_head s)) n) ws))"
| "srq_run (Complete j # ops) s pend =
     (if j < length pend
      then bind_res (mlx5_free_srq_wqe s (int (fst (pend ! j)))) (\<lambda>s'. srq_run ops s' (take j pend @ drop (j + 1) pend))
      else srq_run ops s pend)"

fun op_ok :: "srq_op \<Rightarrow> bool" where
  "op_ok (Post ws) = list_all wr_ok ws"
| "op_ok (Complete j) = True"

lemma walk_chain: "linked ws chain \<Longrightarrow> k < length chain \<Longrightarrow> walk ws (hd chain) k = take k chain"
proof (induction k arbitrary: chain)
  case (Suc k)
  then obtain x y xs where "chain = x # y # xs" by (cases chain rule: remdups_adj.cases) auto
  thus ?case using Suc.IH [of "y # xs"] Suc.prems by simp
qed simp

lemma zip_take_left: "zip (take k xs) (take k ys) = zip (take k xs) ys"
proof (induction k arbitrary: xs ys)
  case (Suc k)
  show ?case using Suc by (cases xs; cases ys) simp_all
qed simp

lemma srq_inv_db: "srq_inv (s\<lparr>srq_counter := c, srq_db := d\<rparr>) chain pend = srq_inv s chain pend"
  by (simp add: srq_inv_def srq_shape_def intact_def)

text \<open>What a post returns, in a queue with the free entries \<open>chain\<close>.\<close>

lemma post_srq_recv_ok:
  assumes "srq_inv s chain pend" "list_all wr_ok ws"
  shows "\<exists>k s' err bad. mlx5_post_srq_recv s ws = Inr (s', k, err, bad) \<and> k \<le> length ws
    \<and> srq_inv s' (drop k chain) (pend @ zip (take k chain) (take k ws)) \<and> srq_max_gs s' = srq_max_gs s
    \<and> srq_counter s' = srq_counter s + of_nat k \<and> (k \<noteq> 0 \<longrightarrow> srq_db s' = ucast (srq_counter s'))
    \<and> length (srq_wqes s') = length (srq_wqes s) \<and> k < length chain
    \<and> (\<forall>x. x \<notin> set (take k chain) \<longrightarrow> srq_wqes s' ! x = srq_wqes s ! x)
    \<and> list_all (\<lambda>wr. num_sge wr \<le> srq_max_gs s) (take k ws)
    \<and> (if k = length ws then err = 0 \<and> bad = None
       else bad = Some (ws ! k) \<and> err = (if srq_max_gs s < num_sge (ws ! k) then EINVAL else ENOMEM)
          \<and> (num_sge (ws ! k) \<le> srq_max_gs s \<longrightarrow> k = length chain - 1))"
proof -
  obtain k s' err bad where r: "post_srq_loop s ws 0 = Inr (s', 0 + k, err, bad)" "k \<le> length ws" "k < length chain"
    "srq_inv s' (drop k chain) (pend @ zip (take k chain) (take k ws))" "srq_max_gs s' = srq_max_gs s"
    "srq_counter s' = srq_counter s" "length (srq_wqes s') = length (srq_wqes s)"
    "\<forall>x. x \<notin> set (take k chain) \<longrightarrow> srq_wqes s' ! x = srq_wqes s ! x" "list_all (\<lambda>wr. num_sge wr \<le> srq_max_gs s) (take k ws)"
    "if k = length ws then err = 0 \<and> bad = None
       else bad = Some (ws ! k) \<and> err = (if srq_max_gs s < num_sge (ws ! k) then EINVAL else ENOMEM)
          \<and> (num_sge (ws ! k) \<le> srq_max_gs s \<longrightarrow> k = length chain - 1)"
    using post_loop_taken [OF assms, of 0] by blast
  let ?s = "if k \<noteq> 0 then s'\<lparr>srq_counter := srq_counter s' + of_nat k, srq_db := ucast (srq_counter s' + of_nat k)\<rparr> else s'"
  have run: "mlx5_post_srq_recv s ws = Inr (?s, k, err, bad)" using r(1) by (simp add: mlx5_post_srq_recv_def Let_def)
  have "srq_inv ?s (drop k chain) (pend @ zip (take k chain) (take k ws))" using r(4) by (cases "k = 0") (simp_all add: srq_inv_db)
  moreover have "srq_max_gs ?s = srq_max_gs s" "length (srq_wqes ?s) = length (srq_wqes s)"
    "srq_counter ?s = srq_counter s + of_nat k" "k \<noteq> 0 \<longrightarrow> srq_db ?s = ucast (srq_counter ?s)"
    "\<forall>x. x \<notin> set (take k chain) \<longrightarrow> srq_wqes ?s ! x = srq_wqes s ! x"
    using r(5-8) by simp_all
  ultimately show ?thesis using run r(2,3,9,10) by blast
qed

lemma srq_run_inv:
  assumes "srq_inv s chain pend" "list_all op_ok ops"
  shows "\<exists>s' chain' pend'. srq_run ops s pend = Inr (s', pend') \<and> srq_inv s' chain' pend'
    \<and> srq_max_gs s' = srq_max_gs s \<and> length (srq_wqes s') = length (srq_wqes s)"
  using assms
proof (induction ops arbitrary: s chain pend)
  case (Cons a ops)
  have ops: "list_all op_ok ops" using Cons.prems(2) by simp
  show ?case
  proof (cases a)
    case (Post ws)
    have ws: "list_all wr_ok ws" using Cons.prems(2) Post by simp
    obtain k s1 err bad where p: "mlx5_post_srq_recv s ws = Inr (s1, k, err, bad)"
      "srq_inv s1 (drop k chain) (pend @ zip (take k chain) (take k ws))" "srq_max_gs s1 = srq_max_gs s"
      "length (srq_wqes s1) = length (srq_wqes s)" "k < length chain"
      using post_srq_recv_ok [OF Cons.prems(1) ws] by blast
    have "linked (srq_wqes s) chain" "nat (srq_head s) = hd chain" using Cons.prems(1) by (simp_all add: srq_inv_def)
    hence w: "walk (srq_wqes s) (nat (srq_head s)) k = take k chain" using p(5) by (simp add: walk_chain)
    show ?thesis using Cons.IH [OF p(2)[unfolded zip_take_left] ops] Post p by (simp add: w)
  next
    case (Complete j)
    show ?thesis
    proof (cases "j < length pend")
      case True
      obtain s1 where f: "mlx5_free_srq_wqe s (int (fst (pend ! j))) = Inr s1"
        "srq_inv s1 (chain @ [fst (pend ! j)]) (take j pend @ drop (j + 1) pend)" "srq_max_gs s1 = srq_max_gs s"
        "length (srq_wqes s1) = length (srq_wqes s)"
        using free_wqe_given [OF Cons.prems(1) True] by blast
      show ?thesis using Cons.IH [OF f(2) ops] Complete True f by simp
    qed (use Cons.IH [OF Cons.prems(1) ops] Complete in simp)
  qed
next
  case Nil
  thus ?case by auto
qed

lemma new_srq_run:
  assumes "srq_max s0 = 2 ^ k" "k \<le> 16" "0 \<le> srq_max_gs s0" "srq_max_gs s0 < 2 ^ 24" "lim \<le> 2 ^ 30"
    "mlx5_alloc_srq_buf lim True True s0 = Inr (0, s, b)" "list_all op_ok ops"
  shows "\<exists>s' chain pend. srq_run ops s [] = Inr (s', pend) \<and> srq_inv s' chain pend \<and> srq_max_gs s' = srq_max_gs s
    \<and> length (srq_wqes s') = 2 ^ k \<and> length chain + length pend = 2 ^ k"
proof -
  have i: "srq_inv s [0..<2 ^ k] []" using alloc_srq_ok [OF assms(1-5)] assms(6) by (auto split: if_splits)
  have "{0..<2 ^ k} = {..<length (srq_wqes s)}" using i by (simp add: srq_inv_def)
  hence l: "length (srq_wqes s) = 2 ^ k" by (metis card_atLeastLessThan card_lessThan diff_zero)
  obtain s' chain pend where r: "srq_run ops s [] = Inr (s', pend)" "srq_inv s' chain pend" "srq_max_gs s' = srq_max_gs s"
    "length (srq_wqes s') = length (srq_wqes s)" using srq_run_inv [OF i assms(7)] by blast
  have "distinct (chain @ map fst pend)" "set (chain @ map fst pend) = {..<length (srq_wqes s')}"
    using r(2) unfolding srq_inv_def by blast+
  from set_ineq_length [OF this] have "length chain + length pend = 2 ^ k" using r(4) l by simp
  thus ?thesis using r l by auto
qed

lemma takeWhile_prefix_length:
  assumes "j \<le> length ws" "list_all P (take j ws)"
  shows "j \<le> length (takeWhile P ws)" "j < length ws \<Longrightarrow> \<not> P (ws ! j) \<Longrightarrow> length (takeWhile P ws) = j"
proof -
  have "takeWhile P ws = take j ws @ takeWhile P (drop j ws)"
    using assms(2) takeWhile_append2 [of "take j ws" P "drop j ws"] by (simp add: list_all_iff)
  hence l: "length (takeWhile P ws) = j + length (takeWhile P (drop j ws))" using assms(1) by simp
  thus "j \<le> length (takeWhile P ws)" by simp
  show "length (takeWhile P ws) = j" if "j < length ws" "\<not> P (ws ! j)" using l that by (simp add: Cons_nth_drop_Suc [symmetric])
qed

subsection \<open>Properties\<close>

text \<open>
  C12: In a new shared receive queue, any sequence of posts of lists of requests and of completions in any
  order runs without an access outside the queue. At every moment the posted entries are pairwise
  different and fewer than the queue has, and each still holds its request: its id, its segments and the
  mark after them. So no posted entry is reused before its completion.
\<close>

theorem srq_posts_intact:
  assumes "srq_max s0 = 2 ^ k" "k \<le> 16" "0 \<le> srq_max_gs s0" "srq_max_gs s0 < 2 ^ 24" "lim \<le> 2 ^ 30"
    "mlx5_alloc_srq_buf lim True True s0 = Inr (0, s, b)" "list_all op_ok ops"
  shows "\<exists>s' pend. srq_run ops s [] = Inr (s', pend) \<and> distinct (map fst pend) \<and> length pend < 2 ^ k
    \<and> list_all (\<lambda>(i, wr). intact s' i wr) pend"
proof -
  obtain s' chain pend where r: "srq_run ops s [] = Inr (s', pend)" "srq_inv s' chain pend" "length chain + length pend = 2 ^ k"
    using new_srq_run [OF assms] by blast
  have "chain \<noteq> []" "distinct (chain @ map fst pend)" "\<forall>(i, wr)\<in>set pend. intact s' i wr"
    using r(2) unfolding srq_inv_def by blast+
  hence "distinct (map fst pend)" "length pend < 2 ^ k" "list_all (\<lambda>(i, wr). intact s' i wr) pend"
    using r(3) by (simp_all add: list_all_iff flip: length_greater_0_conv)
  thus ?thesis using r(1) by blast
qed

definition srq_witness :: srq where
  "srq_witness = \<lparr>srq_wqes = [], srq_wrid = [], srqn = 7, srq_max = 4, srq_max_gs = 1, srq_wqe_shift = 0, srq_head = 0,
     srq_tail = 0, srq_counter = 0, srq_db = 0, srq_wq_sig = False\<rparr>"

definition wr_witness :: "u64 \<Rightarrow> recv_wr" where
  "wr_witness n = \<lparr>wr_id = n, num_sge = 1, sg_list = [\<lparr>sge_addr = 4096, sge_length = 64, sge_lkey = 9\<rparr>]\<rparr>"

definition srq_ops_witness :: "srq_op list" where
  "srq_ops_witness = [Post [wr_witness 1, wr_witness 2], Complete 0, Post [wr_witness 3]]"

lemma srq_ops_witness_ok: "list_all op_ok srq_ops_witness"
  by (simp add: srq_ops_witness_def wr_ok_def wr_witness_def)

lemma srq_witness_alloc: "\<exists>s. mlx5_alloc_srq_buf 32768 True True srq_witness = Inr (0, s, 2)"
  by (simp add: mlx5_alloc_srq_buf_def srq_witness_def to_s32_def size_consts mlx5_round_up_power_of_two_def
        round_up_from.simps mlx5_ilog2_def ilog2_from.simps)

theorem srq_posts_intact_witness:
  "\<exists>s s' pend. mlx5_alloc_srq_buf 32768 True True srq_witness = Inr (0, s, 2)
    \<and> srq_run srq_ops_witness s [] = Inr (s', pend) \<and> distinct (map fst pend) \<and> list_all (\<lambda>(i, wr). intact s' i wr) pend"
proof -
  obtain s where s: "mlx5_alloc_srq_buf 32768 True True srq_witness = Inr (0, s, 2)" using srq_witness_alloc by blast
  show ?thesis
    using srq_posts_intact [of srq_witness 2, OF _ _ _ _ _ s srq_ops_witness_ok] s by (fastforce simp: srq_witness_def)
qed

text \<open>
  C21: A post into a shared receive queue takes exactly the requests it should. After any run with \<open>p\<close> posted entries in a
  queue of \<open>2 ^ k\<close> there is room for \<open>2 ^ k - 1 - p\<close> requests, one entry always staying free; of a list of requests the
  longest prefix is posted that fits in the room and has no request with more segments than an entry holds. The result is 0 when that is the
  whole list, \<open>EINVAL\<close> when it ends before a request with too many segments, even if the queue is full, and \<open>ENOMEM\<close>
  otherwise, with the first request that was not posted. The counter the device reads grows by the number posted.
\<close>

theorem srq_post_accepts:
  assumes "srq_max s0 = 2 ^ k" "k \<le> 16" "0 \<le> srq_max_gs s0" "srq_max_gs s0 < 2 ^ 24" "lim \<le> 2 ^ 30"
    "mlx5_alloc_srq_buf lim True True s0 = Inr (0, s, b)" "list_all op_ok ops" "srq_run ops s [] = Inr (s1, pend)"
    "list_all wr_ok ws"
    "n = min (length (takeWhile (\<lambda>wr. num_sge wr \<le> srq_max_gs s) ws)) (2 ^ k - 1 - length pend)"
  shows "\<exists>s'. mlx5_post_srq_recv s1 ws =
      Inr (s', n, if n = length ws then 0 else if srq_max_gs s < num_sge (ws ! n) then EINVAL else ENOMEM,
           if n = length ws then None else Some (ws ! n))
    \<and> srq_counter s' = srq_counter s1 + of_nat n \<and> (n \<noteq> 0 \<longrightarrow> srq_db s' = ucast (srq_counter s'))"
proof -
  let ?P = "\<lambda>wr. num_sge wr \<le> srq_max_gs s"
  obtain chain where r: "srq_inv s1 chain pend" "srq_max_gs s1 = srq_max_gs s" "length chain + length pend = 2 ^ k"
    using new_srq_run [OF assms(1-7)] assms(8) by auto
  obtain j s' err bad where p: "mlx5_post_srq_recv s1 ws = Inr (s', j, err, bad)" "j \<le> length ws" "j < length chain"
    "srq_counter s' = srq_counter s1 + of_nat j" "j \<noteq> 0 \<longrightarrow> srq_db s' = ucast (srq_counter s')"
    "list_all ?P (take j ws)"
    "if j = length ws then err = 0 \<and> bad = None
       else bad = Some (ws ! j) \<and> err = (if srq_max_gs s1 < num_sge (ws ! j) then EINVAL else ENOMEM)
          \<and> (?P (ws ! j) \<longrightarrow> j = length chain - 1)"
    using post_srq_recv_ok [OF r(1) assms(9)] unfolding r(2) by blast
  have room: "2 ^ k - 1 - length pend = length chain - 1" using r(3) by linarith
  have tw: "j \<le> length (takeWhile ?P ws)" "j < length ws \<Longrightarrow> \<not> ?P (ws ! j) \<Longrightarrow> length (takeWhile ?P ws) = j"
    using takeWhile_prefix_length [OF p(2,6)] by blast+
  have "j = n"
  proof (cases "j = length ws")
    case True
    thus ?thesis using tw(1) p(3) length_takeWhile_le [of ?P ws] unfolding assms(10) room by linarith
  next
    case False
    hence "?P (ws ! j) \<longrightarrow> j = length chain - 1" using p(7) by presburger
    thus ?thesis using tw False p(2,3) unfolding assms(10) room by linarith
  qed
  thus ?thesis using p r(2) by (cases "j = length ws") auto
qed

theorem srq_post_accepts_witness:
  "\<exists>s s1 pend s'. mlx5_alloc_srq_buf 32768 True True srq_witness = Inr (0, s, 2) \<and> srq_run [] s [] = Inr (s1, pend)
    \<and> mlx5_post_srq_recv s1 [wr_witness 1, wr_witness 2, wr_witness 3, wr_witness 4] = Inr (s', 3, ENOMEM, Some (wr_witness 4))"
proof -
  obtain s where s: "mlx5_alloc_srq_buf 32768 True True srq_witness = Inr (0, s, 2)" using srq_witness_alloc by blast
  obtain j where "srq_max_gs srq_witness \<le> srq_max_gs s"
    using alloc_srq_ok [of srq_witness 2 32768] s by (auto simp: srq_witness_def split: if_splits)
  hence g: "1 \<le> srq_max_gs s" by (simp add: srq_witness_def)
  show ?thesis
    using srq_post_accepts [of srq_witness 2, OF _ _ _ _ _ s, of "[]" s "[]" "[wr_witness 1, wr_witness 2, wr_witness 3, wr_witness 4]" 3] s g
    by (auto simp: srq_witness_def wr_ok_def wr_witness_def)
qed

end
