(* ===== verification/Mlx5_Dbrec.thy ===== *)
theory Mlx5_Dbrec
  imports Pool_Spec
begin

text \<open>
  Doorbell records of the mlx5 driver (libmlx5 dbrec.c): pages are cut into records of a cache line
  each, with a bitmap of free records and a use count per page. The list of pages is a list of
  page records, first page first; the mutex is held for a whole operation. Addresses are
  natural numbers. Page memory is a parameter of the allocation.
\<close>

record db_page =
  pg_buf :: nat
  num_db :: int
  use_cnt :: int
  pg_free :: "u64 list"

text \<open>The page size and the cache line size of a context.\<close>

record db_ctx =
  page_size :: nat
  cache_line_size :: nat
  db_list :: "db_page list"

text \<open>
  \<open>__add_page\<close>: the new page at the front of the list. \<open>mem\<close> is the address \<open>mlx5_alloc_buf\<close> gives;
  \<open>None\<close> when it or \<open>calloc\<close> fails.
\<close>

definition add_page :: "nat option \<Rightarrow> db_ctx \<Rightarrow> db_ctx option res" where
  "add_page mem ctx =
     bind_res (check (cache_line_size ctx \<noteq> 0) DivByZero) (\<lambda>_.
     let pp = page_size ctx div cache_line_size ctx;
         nlong = (pp + 64 - 1) div 64
     in case mem of
          None \<Rightarrow> Inr None
        | Some a \<Rightarrow> Inr (Some (ctx\<lparr>db_list :=
            \<lparr>pg_buf = a, num_db = int pp, use_cnt = 0, pg_free = replicate nlong (- 1)\<rparr> # db_list ctx\<rparr>)))"

text \<open>The index of the first page that has a free record.\<close>

fun find_page :: "db_page list \<Rightarrow> nat option" where
  "find_page [] = None"
| "find_page (p # ps) = (if use_cnt p < num_db p then Some 0 else map_option Suc (find_page ps))"

text \<open>The loop over the words of the bitmap, and \<open>ffsl\<close>.\<close>

fun first_nonzero :: "u64 list \<Rightarrow> nat res" where
  "first_nonzero [] = Inl OutOfBounds"
| "first_nonzero (w # ws) = (if w \<noteq> 0 then Inr 0 else bind_res (first_nonzero ws) (\<lambda>i. Inr (i + 1)))"

definition ffsl :: "u64 \<Rightarrow> nat" where
  "ffsl w = (if w = 0 then 0 else length (takeWhile (\<lambda>i. \<not> bit w i) [0..<64]) + 1)"

text \<open>Take the first free record of page number \<open>k\<close>.\<close>

definition take_record :: "nat \<Rightarrow> db_ctx \<Rightarrow> (db_ctx \<times> nat option) res" where
  "take_record k ctx =
     (let page = db_list ctx ! k in
      bind_res (first_nonzero (pg_free page)) (\<lambda>i.
      let j = ffsl (pg_free page ! i) - 1;
          page' = page\<lparr>use_cnt := use_cnt page + 1,
                       pg_free := (pg_free page)[i := pg_free page ! i AND NOT (push_bit j 1)]\<rparr>
      in Inr (ctx\<lparr>db_list := (db_list ctx)[k := page']\<rparr>,
              Some (pg_buf page + (i * 64 + j) * cache_line_size ctx))))"

definition mlx5_alloc_dbrec :: "nat option \<Rightarrow> db_ctx \<Rightarrow> (db_ctx \<times> nat option) res" where
  "mlx5_alloc_dbrec mem ctx =
     (case find_page (db_list ctx) of
        Some k \<Rightarrow> take_record k ctx
      | None \<Rightarrow>
          bind_res (add_page mem ctx) (\<lambda>r.
          case r of None \<Rightarrow> Inr (ctx, None) | Some ctx' \<Rightarrow> take_record 0 ctx'))"

text \<open>The index of the page of an address: the masked address is the start of the page.\<close>

fun page_of :: "nat \<Rightarrow> db_page list \<Rightarrow> nat option" where
  "page_of a [] = None"
| "page_of a (p # ps) = (if a = pg_buf p then Some 0 else map_option Suc (page_of a ps))"

definition mlx5_free_db :: "db_ctx \<Rightarrow> nat \<Rightarrow> db_ctx res" where
  "mlx5_free_db ctx db =
     (let ps = page_size ctx in
      case page_of (unat ((of_nat db :: u64) AND NOT (of_nat ps - 1))) (db_list ctx) of
        None \<Rightarrow> Inr ctx
      | Some k \<Rightarrow>
          let page = db_list ctx ! k in
          bind_res (check (cache_line_size ctx \<noteq> 0) DivByZero) (\<lambda>_.
          let i = (db - pg_buf page) div cache_line_size ctx in
          bind_res (check (i div 64 < length (pg_free page)) OutOfBounds) (\<lambda>_.
          let page' = page\<lparr>use_cnt := use_cnt page - 1,
                           pg_free := (pg_free page)[i div 64 := pg_free page ! (i div 64) OR push_bit (i mod 64) 1]\<rparr>
          in Inr (ctx\<lparr>db_list := (if use_cnt page' = 0 then take k (db_list ctx) @ drop (k + 1) (db_list ctx)
                                  else (db_list ctx)[k := page'])\<rparr>))))"

subsection \<open>Records in use\<close>

text \<open>Record \<open>i\<close> of a page is in use when its bit is cleared.\<close>

definition rec_used :: "db_page \<Rightarrow> nat \<Rightarrow> bool" where
  "rec_used p i \<longleftrightarrow> i < 64 * length (pg_free p) \<and> \<not> bit (pg_free p ! (i div 64)) (i mod 64)"

definition used_addrs :: "nat \<Rightarrow> db_page \<Rightarrow> nat set" where
  "used_addrs cl p = (\<lambda>i. pg_buf p + i * cl) ` {i. rec_used p i}"

definition live_recs :: "db_ctx \<Rightarrow> nat set" where
  "live_recs ctx = (\<Union>p\<in>set (db_list ctx). used_addrs (cache_line_size ctx) p)"

text \<open>The invariant: pages are aligned and apart, and the use counts are right.\<close>

definition page_ok :: "nat \<Rightarrow> nat \<Rightarrow> db_page \<Rightarrow> bool" where
  "page_ok ps cl p \<longleftrightarrow> ps dvd pg_buf p \<and> pg_buf p + ps \<le> 2 ^ 64 \<and> num_db p = int (ps div cl)
     \<and> length (pg_free p) = (ps div cl + 63) div 64 \<and> {i. rec_used p i} \<subseteq> {..<ps div cl}
     \<and> use_cnt p = int (card {i. rec_used p i})"

definition ctx_ok0 :: "db_ctx \<Rightarrow> bool" where
  "ctx_ok0 ctx \<longleftrightarrow> (\<exists>k<64. page_size ctx = 2 ^ k) \<and> 0 < cache_line_size ctx \<and> cache_line_size ctx dvd page_size ctx
     \<and> distinct (map pg_buf (db_list ctx)) \<and> (\<forall>p\<in>set (db_list ctx). page_ok (page_size ctx) (cache_line_size ctx) p)"

definition ctx_ok :: "db_ctx \<Rightarrow> bool" where
  "ctx_ok ctx \<longleftrightarrow> ctx_ok0 ctx \<and> (\<forall>p\<in>set (db_list ctx). 0 < use_cnt p)"

lemma ffsl_bit:
  assumes "w \<noteq> 0"
  shows "ffsl w - 1 < 64" "bit w (ffsl w - 1)" "\<And>i. i < ffsl w - 1 \<Longrightarrow> \<not> bit w i"
proof -
  let ?t = "takeWhile (\<lambda>i. \<not> bit w i) [0..<64]"
  have f: "ffsl w - 1 = length ?t" using assms by (simp add: ffsl_def)
  have ex: "\<exists>i<64. bit w i" using assms by (auto simp: bit_eq_iff)
  have "length ?t \<noteq> 64"
  proof
    assume "length ?t = 64"
    hence "?t = [0..<64]" by (metis length_upt diff_zero takeWhile_eq_take take_all_iff order_refl)
    hence "\<forall>i\<in>set [0..<64]. \<not> bit w i" using set_takeWhileD by metis
    thus False using ex by auto
  qed
  moreover have "length ?t \<le> 64" using length_takeWhile_le [of _ "[0..<64]"] by simp
  ultimately have l: "length ?t < 64" by simp
  thus "ffsl w - 1 < 64" unfolding f .
  have "\<not> \<not> bit w ([0..<64] ! length ?t)" using nth_length_takeWhile [of "\<lambda>i. \<not> bit w i" "[0..<64]"] l by simp
  thus "bit w (ffsl w - 1)" unfolding f using l by simp
  show "\<not> bit w i" if "i < ffsl w - 1" for i
  proof -
    have il: "i < length ?t" using that unfolding f .
    have "\<not> bit w (?t ! i)" using set_takeWhileD [OF nth_mem [OF il]] by simp
    thus ?thesis using takeWhile_nth [OF il] il l by simp
  qed
qed

lemma first_nonzero_Inr:
  "first_nonzero ws = Inr i \<Longrightarrow> i < length ws \<and> ws ! i \<noteq> 0 \<and> (\<forall>j<i. ws ! j = 0)"
proof (induction ws arbitrary: i)
  case (Cons w ws)
  thus ?case by (cases i) (auto simp: res_simps less_Suc_eq_0_disj nth_Cons split: if_splits nat.splits)
qed simp

lemma first_nonzero_returns: "\<exists>i<length ws. ws ! i \<noteq> 0 \<Longrightarrow> \<exists>i. first_nonzero ws = Inr i"
proof (induction ws)
  case (Cons w ws)
  show ?case
  proof (cases "w = 0")
    case True
    hence "\<exists>i<length ws. ws ! i \<noteq> 0" using Cons.prems by (auto simp: less_Suc_eq_0_disj)
    then obtain i where "first_nonzero ws = Inr i" using Cons.IH by blast
    thus ?thesis using True by simp
  qed simp
qed simp

lemma rec_used_finite [simp]: "finite {i. rec_used p i}"
  by (rule finite_subset [of _ "{..<64 * length (pg_free p)}"]) (auto simp: rec_used_def)

lemma rec_used_take:
  assumes "i < length (pg_free p)" "j < 64"
  shows "{x. rec_used (p\<lparr>use_cnt := c, pg_free := (pg_free p)[i := pg_free p ! i AND NOT (push_bit j 1)]\<rparr>) x}
       = insert (i * 64 + j) {x. rec_used p x}"
proof -
  have "rec_used (p\<lparr>use_cnt := c, pg_free := (pg_free p)[i := pg_free p ! i AND NOT (push_bit j 1)]\<rparr>) x
      \<longleftrightarrow> x = i * 64 + j \<or> rec_used p x" for x
  proof (cases "x div 64 = i")
    case True
    have "x = i * 64 + j \<longleftrightarrow> x mod 64 = j" using True by (metis add_left_cancel div_mult_mod_eq)
    moreover have "x < 64 * length (pg_free p)" using True assms(1) by linarith
    ultimately show ?thesis
      using True assms by (auto simp: rec_used_def bit_and_iff bit_not_iff bit_exp_iff)
  next
    case False
    hence "x \<noteq> i * 64 + j" using assms(2) by auto
    thus ?thesis using False by (simp add: rec_used_def)
  qed
  thus ?thesis by blast
qed

lemma rec_used_put:
  assumes "n div 64 < length (pg_free p)"
  shows "{x. rec_used (p\<lparr>use_cnt := c, pg_free := (pg_free p)[n div 64 := pg_free p ! (n div 64) OR push_bit (n mod 64) 1]\<rparr>) x}
       = {x. rec_used p x} - {n}"
proof -
  have "rec_used (p\<lparr>use_cnt := c, pg_free := (pg_free p)[n div 64 := pg_free p ! (n div 64) OR push_bit (n mod 64) 1]\<rparr>) x
      \<longleftrightarrow> rec_used p x \<and> x \<noteq> n" for x
  proof (cases "x div 64 = n div 64")
    case True
    have "x = n \<longleftrightarrow> x mod 64 = n mod 64" using True by (metis div_mult_mod_eq)
    thus ?thesis
      using True assms by (auto simp: rec_used_def bit_or_iff bit_exp_iff)
  qed (auto simp: rec_used_def)
  thus ?thesis by blast
qed

lemma first_free:
  assumes "use_cnt p < num_db p" "page_ok ps cl p"
  shows "\<exists>i. first_nonzero (pg_free p) = Inr i \<and> i < length (pg_free p)
     \<and> ffsl (pg_free p ! i) - 1 < 64 \<and> \<not> rec_used p (i * 64 + (ffsl (pg_free p ! i) - 1))
     \<and> i * 64 + (ffsl (pg_free p ! i) - 1) < ps div cl"
proof -
  let ?n = "ps div cl"
  have ok: "num_db p = int ?n" "length (pg_free p) = (?n + 63) div 64"
    "{i. rec_used p i} \<subseteq> {..<?n}" "use_cnt p = int (card {i. rec_used p i})"
    using assms(2) by (simp_all add: page_ok_def)
  have "{i. rec_used p i} \<noteq> {..<?n}" using assms(1) ok by auto
  then obtain x where x: "x < ?n" "\<not> rec_used p x" using ok(3) by auto
  have xl: "x < 64 * length (pg_free p)" using x(1) ok(2) by linarith
  have xb: "bit (pg_free p ! (x div 64)) (x mod 64)" using x(2) xl by (simp add: rec_used_def)
  have "x div 64 < length (pg_free p)" using xl by (simp add: less_mult_imp_div_less mult.commute)
  moreover have "pg_free p ! (x div 64) \<noteq> 0" using xb by auto
  ultimately obtain i where i: "first_nonzero (pg_free p) = Inr i" using first_nonzero_returns by blast
  note il = first_nonzero_Inr [OF i]
  let ?w = "pg_free p ! i"
  note fb = ffsl_bit [of ?w]
  have w: "?w \<noteq> 0" using il by blast
  let ?k = "i * 64 + (ffsl ?w - 1)"
  have kd: "?k div 64 = i" "?k mod 64 = ffsl ?w - 1" using fb(1) [OF w] by auto
  have "\<not> rec_used p ?k" using fb(2) [OF w] kd by (simp add: rec_used_def)
  moreover have "?k \<le> x"
  proof (rule ccontr)
    assume "\<not> ?k \<le> x"
    hence lt: "x < ?k" by simp
    have "x div 64 \<le> i" using div_le_mono [of x ?k 64] lt kd by simp
    moreover have "\<not> x div 64 < i" using il xb by (metis bit_0_eq bot_apply bot_bool_def)
    ultimately have xi: "x div 64 = i" by simp
    hence "x mod 64 < ffsl ?w - 1" using lt by (metis div_mult_mod_eq nat_add_left_cancel_less)
    thus False using fb(3) [OF w] xb xi by blast
  qed
  ultimately show ?thesis using i il fb(1) [OF w] x(1) by auto
qed

subsection \<open>The context\<close>

lemma find_page_Some: "find_page ps = Some k \<Longrightarrow> k < length ps \<and> use_cnt (ps ! k) < num_db (ps ! k)"
  by (induction ps arbitrary: k) (auto split: if_splits)

lemma page_of_Some: "page_of a ps = Some k \<Longrightarrow> k < length ps \<and> pg_buf (ps ! k) = a"
  by (induction ps arbitrary: k) (auto split: if_splits)

lemma page_of_None: "page_of a ps = None \<longleftrightarrow> a \<notin> pg_buf ` set ps"
  by (induction ps) auto

lemma union_update:
  assumes "k < length xs" "distinct xs" "f (xs ! k) \<inter> (\<Union>x\<in>set xs - {xs ! k}. f x) = {}"
  shows "f y = insert d (f (xs ! k)) \<Longrightarrow> (\<Union>x\<in>set (xs[k := y]). f x) = insert d (\<Union>x\<in>set xs. f x)"
    and "f y = f (xs ! k) - {d} \<Longrightarrow> d \<in> f (xs ! k) \<Longrightarrow>
         (\<Union>x\<in>set (xs[k := y]). f x) = (\<Union>x\<in>set xs. f x) - {d}"
  using assms nth_mem [OF assms(1)] by (auto simp: set_update_distinct)

text \<open>The addresses in use of a page lie in the page, a whole cache line each.\<close>

lemma used_in_page:
  assumes "page_ok ps cl p" "cl dvd ps" "0 < cl" "a \<in> used_addrs cl p"
  shows "pg_buf p \<le> a" "a + cl \<le> pg_buf p + ps" "cl dvd a - pg_buf p"
proof -
  from assms(1,4) obtain i where i: "a = pg_buf p + i * cl" "i < ps div cl"
    by (auto simp: used_addrs_def page_ok_def)
  have "(i + 1) * cl \<le> ps div cl * cl" using i(2) by (intro mult_le_mono1) simp
  hence "(i + 1) * cl \<le> ps" using assms(2) by simp
  thus "pg_buf p \<le> a" "a + cl \<le> pg_buf p + ps" "cl dvd a - pg_buf p" using i(1) by (auto simp: algebra_simps)
qed

lemma page_start:
  assumes "ps dvd b" "b \<le> a" "a < b + (ps :: nat)"
  shows "a div ps * ps = b"
proof -
  from assms(1) obtain q where "b = q * ps" by (metis dvd_def mult.commute)
  moreover have "a div ps = q" using assms(2,3) \<open>b = q * ps\<close> by (intro div_nat_eqI) (auto simp: algebra_simps)
  ultimately show ?thesis by simp
qed

lemma used_page_start:
  assumes "page_ok ps cl p" "cl dvd ps" "0 < cl" "a \<in> used_addrs cl p"
  shows "a div ps * ps = pg_buf p"
  using used_in_page [OF assms] assms by (intro page_start) (auto simp: page_ok_def)

lemma used_disjoint:
  assumes "page_ok ps cl p" "page_ok ps cl q" "cl dvd ps" "0 < cl" "pg_buf p \<noteq> pg_buf q"
  shows "used_addrs cl p \<inter> used_addrs cl q = {}"
proof -
  have "a \<notin> used_addrs cl q" if "a \<in> used_addrs cl p" for a
    using used_page_start [OF assms(1,3,4) that] used_page_start [OF assms(2,3,4), of a] assms(5) by auto
  thus ?thesis by blast
qed

text \<open>\<open>db & ~(ps - 1)\<close> is the start of the page of \<open>db\<close>.\<close>

lemma mask_page:
  assumes "ps = 2 ^ k" "k < 64" "a < 2 ^ 64"
  shows "unat ((of_nat a :: u64) AND NOT (of_nat ps - 1)) = a div ps * ps"
proof -
  have m: "(of_nat ps - 1 :: u64) = mask k" by (simp add: assms(1) mask_eq_exp_minus_1)
  have "(of_nat a :: u64) AND NOT (mask k) = push_bit k (drop_bit k (of_nat a))"
    by (rule bit_word_eqI) (auto simp: bit_simps)
  moreover have "unat (push_bit k (drop_bit k (of_nat a :: u64))) = take_bit 64 (push_bit k (drop_bit k a))"
    using assms(3) by (simp only: unsigned_push_bit_eq unsigned_drop_bit_eq unsigned_of_nat)
      (simp add: take_bit_nat_eq_self)
  moreover have "take_bit 64 (push_bit k (drop_bit k a)) = a div 2 ^ k * 2 ^ k"
    using assms(3) by (subst take_bit_nat_eq_self)
      (simp_all add: push_bit_eq_mult drop_bit_eq_div le_less_trans [OF div_times_less_eq_dividend])
  ultimately show ?thesis unfolding m by (simp add: assms(1))
qed

text \<open>Taking a record of a page that has a free one.\<close>

lemma take_record_ok:
  assumes "k < length (db_list ctx)" "p = db_list ctx ! k" "use_cnt p < num_db p"
    "page_ok (page_size ctx) (cache_line_size ctx) p" "0 < cache_line_size ctx"
  shows "\<exists>p' d. take_record k ctx = Inr (ctx\<lparr>db_list := (db_list ctx)[k := p']\<rparr>, Some d)
    \<and> d \<notin> used_addrs (cache_line_size ctx) p \<and> pg_buf p' = pg_buf p
    \<and> used_addrs (cache_line_size ctx) p' = insert d (used_addrs (cache_line_size ctx) p)
    \<and> page_ok (page_size ctx) (cache_line_size ctx) p' \<and> 0 < use_cnt p'"
proof -
  let ?ps = "page_size ctx" and ?cl = "cache_line_size ctx"
  obtain i where i: "first_nonzero (pg_free p) = Inr i" "i < length (pg_free p)"
    "ffsl (pg_free p ! i) - 1 < 64" "\<not> rec_used p (i * 64 + (ffsl (pg_free p ! i) - 1))"
    "i * 64 + (ffsl (pg_free p ! i) - 1) < ?ps div ?cl"
    using first_free [OF assms(3,4)] by blast
  define j where "j = ffsl (pg_free p ! i) - 1"
  define p' where "p' = p\<lparr>use_cnt := use_cnt p + 1, pg_free := (pg_free p)[i := pg_free p ! i AND NOT (push_bit j 1)]\<rparr>"
  have used: "{x. rec_used p' x} = insert (i * 64 + j) {x. rec_used p x}"
    unfolding p'_def by (rule rec_used_take) (use i in \<open>simp_all add: j_def\<close>)
  have run: "take_record k ctx = Inr (ctx\<lparr>db_list := (db_list ctx)[k := p']\<rparr>, Some (pg_buf p + (i * 64 + j) * ?cl))"
    using i(1) by (simp add: take_record_def Let_def p'_def j_def assms(2)[symmetric])
  have c: "use_cnt p' = int (card {x. rec_used p' x})"
    using assms(4) i(4) by (simp add: used card_insert_if j_def page_ok_def) (simp add: p'_def)
  have ok: "page_ok ?ps ?cl p'" unfolding page_ok_def used [symmetric]
    using assms(4) i(5) c used by (auto simp: page_ok_def j_def) (simp_all add: p'_def)
  have "0 < use_cnt p'" unfolding c used by (simp add: card_gt_0_iff)
  moreover have "pg_buf p + (i * 64 + j) * ?cl \<notin> used_addrs ?cl p"
    using i(4) assms(5) by (auto simp: used_addrs_def j_def)
  moreover have "used_addrs ?cl p' = insert (pg_buf p + (i * 64 + j) * ?cl) (used_addrs ?cl p)"
    unfolding used_addrs_def used by (simp add: p'_def)
  ultimately show ?thesis using run ok by (intro exI [of _ p'] exI) (simp add: p'_def)
qed

text \<open>The page the allocator adds.\<close>

lemma new_page_ok:
  fixes a :: nat
  assumes "0 < cl" "ps dvd a" "a + ps \<le> 2 ^ 64"
  defines "p \<equiv> \<lparr>pg_buf = a, num_db = int (ps div cl), use_cnt = 0, pg_free = replicate ((ps div cl + 64 - 1) div 64) (- 1)\<rparr>"
  shows "page_ok ps cl p" "used_addrs cl p = {}"
proof -
  have "x div 64 < (ps div cl + 63) div 64" if "x < 64 * ((ps div cl + 63) div 64)" for x
    using that by (simp add: less_mult_imp_div_less mult.commute)
  hence "\<not> rec_used p x" for x by (simp add: rec_used_def p_def)
  thus "page_ok ps cl p" "used_addrs cl p = {}" using assms by (simp_all add: page_ok_def used_addrs_def)
qed

text \<open>What the memory given to the allocator has to be: a page that is not in use.\<close>

definition fresh_mem :: "db_ctx \<Rightarrow> nat option \<Rightarrow> bool" where
  "fresh_mem ctx mem \<longleftrightarrow> (case mem of None \<Rightarrow> True
     | Some a \<Rightarrow> page_size ctx dvd a \<and> a + page_size ctx \<le> 2 ^ 64 \<and> a \<notin> pg_buf ` set (db_list ctx))"

lemma map_update_same: "k < length xs \<Longrightarrow> f y = f (xs ! k) \<Longrightarrow> map f (xs[k := y]) = map f xs"
  by (metis list_update_id map_update)

lemma other_page:
  assumes "ctx_ok0 ctx" "k < length (db_list ctx)" "x \<in> set (db_list ctx) - {db_list ctx ! k}"
    "page_ok (page_size ctx) (cache_line_size ctx) p" "pg_buf p = pg_buf (db_list ctx ! k)"
  shows "used_addrs (cache_line_size ctx) p \<inter> used_addrs (cache_line_size ctx) x = {}"
proof (rule used_disjoint [where ps = "page_size ctx"])
  have "pg_buf (db_list ctx ! k) \<noteq> pg_buf x"
    using assms(1-3) by (metis DiffD1 DiffD2 ctx_ok0_def distinct_map inj_onD insertI1 nth_mem)
  thus "pg_buf p \<noteq> pg_buf x" using assms(5) by simp
qed (use assms in \<open>auto simp: ctx_ok0_def\<close>)

lemma page_disjoint:
  assumes "ctx_ok0 ctx" "k < length (db_list ctx)"
  shows "used_addrs (cache_line_size ctx) (db_list ctx ! k)
     \<inter> (\<Union>x\<in>set (db_list ctx) - {db_list ctx ! k}. used_addrs (cache_line_size ctx) x) = {}"
  using other_page [OF assms _ _ refl] assms by (fastforce simp: ctx_ok0_def)

lemma ctx_ok0_update:
  assumes "ctx_ok0 ctx" "k < length (db_list ctx)" "pg_buf p' = pg_buf (db_list ctx ! k)"
    "page_ok (page_size ctx) (cache_line_size ctx) p'"
  shows "ctx_ok0 (ctx\<lparr>db_list := (db_list ctx)[k := p']\<rparr>)"
  using assms set_update_subset_insert [of "db_list ctx" k p']
  by (auto simp: ctx_ok0_def map_update_same)

lemma take_live:
  assumes "ctx_ok0 ctx" "k < length (db_list ctx)" "use_cnt (db_list ctx ! k) < num_db (db_list ctx ! k)"
    "\<forall>x\<in>set (db_list ctx) - {db_list ctx ! k}. 0 < use_cnt x"
  shows "\<exists>ctx' d. take_record k ctx = Inr (ctx', Some d) \<and> ctx_ok ctx'
     \<and> d \<notin> live_recs ctx \<and> live_recs ctx' = insert d (live_recs ctx)"
proof -
  let ?cl = "cache_line_size ctx" and ?p = "db_list ctx ! k"
  have p: "page_ok (page_size ctx) ?cl ?p" "0 < ?cl" "distinct (db_list ctx)"
    using assms(1,2) by (auto simp: ctx_ok0_def distinct_map)
  obtain p' d where r: "take_record k ctx = Inr (ctx\<lparr>db_list := (db_list ctx)[k := p']\<rparr>, Some d)"
    "d \<notin> used_addrs ?cl ?p" "pg_buf p' = pg_buf ?p" "used_addrs ?cl p' = insert d (used_addrs ?cl ?p)"
    "page_ok (page_size ctx) ?cl p'" "0 < use_cnt p'"
    using take_record_ok [OF assms(2) refl assms(3) p(1,2)] by blast
  let ?c = "ctx\<lparr>db_list := (db_list ctx)[k := p']\<rparr>"
  have "ctx_ok ?c"
    using ctx_ok0_update [OF assms(1,2) r(3,5)] r(6) assms(4) p(3) assms(2) by (auto simp: ctx_ok_def set_update_distinct)
  moreover have "d \<notin> live_recs ctx"
    using r(2,4) other_page [OF assms(1,2) _ r(5,3)] by (fastforce simp: live_recs_def)
  moreover have "live_recs ?c = insert d (live_recs ctx)"
    using union_update(1) [where f = "used_addrs ?cl", OF assms(2) p(3) page_disjoint [OF assms(1,2)] r(4)]
    by (simp add: live_recs_def)
  ultimately show ?thesis using r(1) by blast
qed

text \<open>An allocation fails only without memory; otherwise it gives a record that was not in use.\<close>

lemma alloc_dbrec_ok:
  assumes "ctx_ok ctx" "fresh_mem ctx mem"
  shows "(\<exists>ctx' d. mlx5_alloc_dbrec mem ctx = Inr (ctx', Some d) \<and> ctx_ok ctx'
     \<and> d \<notin> live_recs ctx \<and> live_recs ctx' = insert d (live_recs ctx))
     \<or> mem = None \<and> mlx5_alloc_dbrec mem ctx = Inr (ctx, None)"
proof (cases "find_page (db_list ctx)")
  case (Some k)
  thus ?thesis using take_live [of ctx k] find_page_Some [OF Some] assms(1)
    by (simp add: mlx5_alloc_dbrec_def ctx_ok_def)
next
  case None
  have cl: "0 < cache_line_size ctx" using assms(1) by (simp add: ctx_ok_def ctx_ok0_def)
  show ?thesis
  proof (cases mem)
    case (Some a)
    let ?ps = "page_size ctx" and ?cl = "cache_line_size ctx"
    define p where "p = \<lparr>pg_buf = a, num_db = int (?ps div ?cl), use_cnt = 0,
                          pg_free = replicate ((?ps div ?cl + 64 - 1) div 64) (- 1)\<rparr>"
    let ?c = "ctx\<lparr>db_list := p # db_list ctx\<rparr>"
    have a: "?ps dvd a" "a + ?ps \<le> 2 ^ 64" "a \<notin> pg_buf ` set (db_list ctx)"
      using assms(2) Some by (simp_all add: fresh_mem_def)
    have p: "page_ok ?ps ?cl p" "used_addrs ?cl p = {}" unfolding p_def using new_page_ok [OF cl a(1,2)] .
    have live: "live_recs ?c = live_recs ctx" using p(2) by (simp add: live_recs_def)
    have ok: "ctx_ok0 ?c" using assms(1) p(1) a(3) by (auto simp: ctx_ok_def ctx_ok0_def) (simp_all add: p_def)
    have "0 < ?ps" "?cl dvd ?ps" using assms(1) by (auto simp: ctx_ok_def ctx_ok0_def)
    hence "0 < ?ps div ?cl" by (simp add: div_greater_zero_iff dvd_imp_le cl)
    hence "use_cnt p < num_db p" by (simp add: p_def)
    hence "\<exists>ctx' d. take_record 0 ?c = Inr (ctx', Some d) \<and> ctx_ok ctx'
       \<and> d \<notin> live_recs ?c \<and> live_recs ctx' = insert d (live_recs ?c)"
      using take_live [OF ok, of 0] assms(1) by (simp add: ctx_ok_def)
    moreover have "mlx5_alloc_dbrec mem ctx = take_record 0 ?c"
      using None Some cl by (simp add: mlx5_alloc_dbrec_def add_page_def p_def Let_def)
    ultimately show ?thesis unfolding live by simp
  qed (use None cl in \<open>simp add: mlx5_alloc_dbrec_def add_page_def\<close>)
qed

text \<open>The page with the record given back.\<close>

lemma put_record_ok:
  assumes "page_ok ps cl p" "0 < cl" "rec_used p i"
  defines "p' \<equiv> p\<lparr>use_cnt := use_cnt p - 1,
                   pg_free := (pg_free p)[i div 64 := pg_free p ! (i div 64) OR push_bit (i mod 64) 1]\<rparr>"
  shows "i div 64 < length (pg_free p)" "page_ok ps cl p'"
    "used_addrs cl p' = used_addrs cl p - {pg_buf p + i * cl}"
    "use_cnt p' = 0 \<Longrightarrow> used_addrs cl p = {pg_buf p + i * cl}"
proof -
  show l: "i div 64 < length (pg_free p)"
    using assms(3) by (simp add: rec_used_def less_mult_imp_div_less mult.commute)
  have used: "{x. rec_used p' x} = {x. rec_used p x} - {i}" unfolding p'_def by (rule rec_used_put [OF l])
  have c: "use_cnt p' = int (card {x. rec_used p' x})"
  proof -
    have "card {x. rec_used p x} = Suc (card ({x. rec_used p x} - {i}))"
      using assms(3) card_Suc_Diff1 [of "{x. rec_used p x}" i] by simp
    thus ?thesis unfolding used using assms(1) by (simp add: p'_def page_ok_def)
  qed
  show "page_ok ps cl p'" using assms(1) c used by (auto simp: page_ok_def) (simp_all add: p'_def)
  show u: "used_addrs cl p' = used_addrs cl p - {pg_buf p + i * cl}"
    unfolding used_addrs_def used using assms(2) by (auto simp: p'_def)
  assume "use_cnt p' = 0"
  hence "{x. rec_used p' x} = {}" using c by simp
  hence "{x. rec_used p x} = {i}" using used assms(3) by blast
  thus "used_addrs cl p = {pg_buf p + i * cl}" by (simp add: used_addrs_def)
qed


text \<open>Giving back a record in use leaves exactly the other ones in use.\<close>

lemma free_db_ok:
  assumes "ctx_ok ctx" "d \<in> live_recs ctx"
  shows "\<exists>ctx'. mlx5_free_db ctx d = Inr ctx' \<and> ctx_ok ctx' \<and> live_recs ctx' = live_recs ctx - {d}"
proof -
  let ?cl = "cache_line_size ctx" and ?ps = "page_size ctx"
  have ok: "ctx_ok0 ctx" and pos: "\<forall>x\<in>set (db_list ctx). 0 < use_cnt x" using assms(1) by (simp_all add: ctx_ok_def)
  have cl: "0 < ?cl" "?cl dvd ?ps" "distinct (db_list ctx)" "distinct (map pg_buf (db_list ctx))"
    using ok by (auto simp: ctx_ok0_def distinct_map)
  from ok obtain e where e: "?ps = 2 ^ e" "e < 64" by (auto simp: ctx_ok0_def)
  from assms(2) obtain q where q: "q \<in> set (db_list ctx)" "d \<in> used_addrs ?cl q" by (auto simp: live_recs_def)
  have qok: "page_ok ?ps ?cl q" using q(1) ok by (simp add: ctx_ok0_def)
  have start: "d div ?ps * ?ps = pg_buf q" by (rule used_page_start [OF qok cl(2,1) q(2)])
  have "d < 2 ^ 64" using used_in_page(2) [OF qok cl(2,1) q(2)] cl(1) qok by (simp add: page_ok_def)
  hence m: "unat ((of_nat d :: u64) AND NOT (of_nat ?ps - 1)) = pg_buf q" using mask_page [OF e] start by simp
  have "page_of (pg_buf q) (db_list ctx) \<noteq> None" using q(1) by (simp add: page_of_None)
  then obtain k where k: "page_of (pg_buf q) (db_list ctx) = Some k" by blast
  note kp = page_of_Some [OF k]
  have qk: "db_list ctx ! k = q" using kp q(1) cl(4) by (metis distinct_map inj_onD nth_mem)
  from q(2) obtain i where i: "rec_used q i" "d = pg_buf q + i * ?cl" by (auto simp: used_addrs_def)
  have ix: "(d - pg_buf q) div ?cl = i" using i(2) cl(1) by simp
  define p' where "p' = q\<lparr>use_cnt := use_cnt q - 1,
                   pg_free := (pg_free q)[i div 64 := pg_free q ! (i div 64) OR push_bit (i mod 64) 1]\<rparr>"
  note put = put_record_ok [OF qok cl(1) i(1), folded p'_def i(2)]
  let ?l = "if use_cnt p' = 0 then take k (db_list ctx) @ drop (k + 1) (db_list ctx) else (db_list ctx)[k := p']"
  have run: "mlx5_free_db ctx d = Inr (ctx\<lparr>db_list := ?l\<rparr>)"
    using k cl(1) put(1) ix by (simp add: mlx5_free_db_def Let_def m qk p'_def)
  show ?thesis
  proof (cases "use_cnt p' = 0")
    case True
    have s: "set ?l = set (db_list ctx) - {q}" "distinct (map pg_buf ?l)"
      using True set_remove_nth(1) [OF cl(3)] set_remove_nth(2) [OF cl(4)] kp qk
      by (simp_all add: take_map drop_map)
    have "live_recs (ctx\<lparr>db_list := ?l\<rparr>) = live_recs ctx - {d}"
      unfolding live_recs_def using s(1) put(4) [OF True] page_disjoint [OF ok, of k] kp qk q(1) by auto
    moreover have "ctx_ok (ctx\<lparr>db_list := ?l\<rparr>)"
      using ok pos s by (auto simp: ctx_ok_def ctx_ok0_def)
    ultimately show ?thesis using run by blast
  next
    case False
    have b: "pg_buf p' = pg_buf (db_list ctx ! k)" by (simp add: p'_def qk)
    have "0 \<le> use_cnt p'" using put(2) by (simp add: page_ok_def)
    hence "ctx_ok (ctx\<lparr>db_list := ?l\<rparr>)"
      using False ctx_ok0_update [OF ok _ b put(2)] kp pos cl(3) by (auto simp: ctx_ok_def set_update_distinct)
    moreover have "live_recs (ctx\<lparr>db_list := ?l\<rparr>) = live_recs ctx - {d}"
      unfolding live_recs_def
      using False union_update(2) [where f = "used_addrs ?cl", OF _ cl(3) page_disjoint [OF ok], of k] kp put(3) q(2) qk
      by simp
    ultimately show ?thesis using run by blast
  qed
qed

lemma take_record_config:
  "take_record k ctx = Inr (ctx', r) \<Longrightarrow> page_size ctx' = page_size ctx \<and> cache_line_size ctx' = cache_line_size ctx"
  by (auto simp: take_record_def Let_def res_simps)

lemma alloc_dbrec_config:
  "mlx5_alloc_dbrec mem ctx = Inr (ctx', r) \<Longrightarrow> page_size ctx' = page_size ctx \<and> cache_line_size ctx' = cache_line_size ctx"
  by (auto simp: mlx5_alloc_dbrec_def add_page_def Let_def res_simps split: option.splits dest!: take_record_config)

lemma free_db_config:
  "mlx5_free_db ctx d = Inr ctx' \<Longrightarrow> page_size ctx' = page_size ctx \<and> cache_line_size ctx' = cache_line_size ctx"
  by (auto simp: mlx5_free_db_def Let_def res_simps split: option.splits)

definition ctx_ok_with :: "nat \<Rightarrow> nat \<Rightarrow> db_ctx \<Rightarrow> bool" where
  "ctx_ok_with ps cl ctx \<longleftrightarrow> ctx_ok ctx \<and> page_size ctx = ps \<and> cache_line_size ctx = cl"

interpretation db_pool: slot_pool "ctx_ok_with ps cl" live_recs fresh_mem mlx5_alloc_dbrec mlx5_free_db
proof unfold_locales
  fix ctx mem assume a: "ctx_ok_with ps cl ctx" "fresh_mem ctx mem"
  have "\<exists>s' r. mlx5_alloc_dbrec mem ctx = Inr (s', r) \<and> ctx_ok s'
     \<and> live_recs s' = live_recs ctx \<union> set_option r \<and> live_recs ctx \<inter> set_option r = {}"
    using alloc_dbrec_ok [OF _ a(2)] a(1) by (fastforce simp: ctx_ok_with_def)
  thus "\<exists>s' r. mlx5_alloc_dbrec mem ctx = Inr (s', r) \<and> ctx_ok_with ps cl s'
     \<and> live_recs s' = live_recs ctx \<union> set_option r \<and> live_recs ctx \<inter> set_option r = {}"
    using a(1) alloc_dbrec_config by (fastforce simp: ctx_ok_with_def)
next
  fix ctx d assume a: "ctx_ok_with ps cl ctx" "d \<in> live_recs ctx"
  show "\<exists>s'. mlx5_free_db ctx d = Inr s' \<and> ctx_ok_with ps cl s' \<and> live_recs s' = live_recs ctx - {d}"
    using free_db_ok [OF _ a(2)] a(1) free_db_config by (fastforce simp: ctx_ok_with_def)
qed

lemma live_aligned:
  assumes "ctx_ok ctx" "d \<in> live_recs ctx"
  shows "cache_line_size ctx dvd d"
proof -
  from assms obtain p where p: "p \<in> set (db_list ctx)" "d \<in> used_addrs (cache_line_size ctx) p"
    by (auto simp: live_recs_def)
  hence "page_size ctx dvd pg_buf p" "cache_line_size ctx dvd page_size ctx"
    using assms(1) by (auto simp: ctx_ok_def ctx_ok0_def page_ok_def)
  thus ?thesis using p(2) by (auto simp: used_addrs_def intro: dvd_trans)
qed

lemma live_recs_Nil: "db_list ctx = [] \<Longrightarrow> live_recs ctx = {}"
  by (simp add: live_recs_def)

lemma live_empty:
  assumes "ctx_ok ctx" "live_recs ctx = {}"
  shows "db_list ctx = []"
proof (rule ccontr)
  assume "db_list ctx \<noteq> []"
  then obtain p where p: "p \<in> set (db_list ctx)" by (cases "db_list ctx") auto
  hence "0 < card {i. rec_used p i}" using assms(1) by (auto simp: ctx_ok_def ctx_ok0_def page_ok_def)
  hence "{i. rec_used p i} \<noteq> {}" by (metis card.empty less_irrefl)
  thus False using assms(2) p by (auto simp: live_recs_def used_addrs_def)
qed

subsection \<open>Properties\<close>

text \<open>
  C13: Any sequence of allocations and releases of doorbell records, from a context with no pages and
  with page-aligned memory that is not in use, runs without an access outside a bitmap. The records
  a client holds at the end are pairwise different, aligned to a cache line, and are exactly the
  records marked as used; when the client holds none, every page was given back.
\<close>

theorem dbrec_exclusive:
  assumes "k < 64" "page_size ctx = 2 ^ k" "0 < cache_line_size ctx" "cache_line_size ctx dvd page_size ctx"
    "db_list ctx = []" "pool_env fresh_mem mlx5_alloc_dbrec mlx5_free_db ops ctx []"
  shows "\<exists>ctx' H. pool_run mlx5_alloc_dbrec mlx5_free_db ops ctx [] = Inr (ctx', H) \<and> distinct H
    \<and> (\<forall>d. d \<in> set H \<longleftrightarrow> d \<in> live_recs ctx') \<and> list_all (\<lambda>d. cache_line_size ctx dvd d) H
    \<and> (db_list ctx' = [] \<longleftrightarrow> H = [])"
proof -
  have "ctx_ok_with (page_size ctx) (cache_line_size ctx) ctx"
    unfolding ctx_ok_with_def ctx_ok_def ctx_ok0_def using assms(3,4,5) exI [of "\<lambda>k. k < 64 \<and> page_size ctx = 2 ^ k" k, OF conjI, OF assms(1,2)]
    by simp
  moreover have "live_recs ctx = set []" using assms(5) by (simp add: live_recs_def)
  ultimately obtain c H where r:
    "pool_run mlx5_alloc_dbrec mlx5_free_db ops ctx [] = Inr (c, H)"
    "ctx_ok_with (page_size ctx) (cache_line_size ctx) c" "live_recs c = set H" "distinct H"
    using db_pool.run_ok [OF _ _ distinct_Nil assms(6)] by blast
  have "list_all (\<lambda>d. cache_line_size ctx dvd d) H"
    using r(2,3) live_aligned [of c] unfolding list_all_iff ctx_ok_with_def by metis
  moreover have "db_list c = [] \<longleftrightarrow> H = []"
    using r(2,3) live_empty [of c] unfolding ctx_ok_with_def by (metis list.set(1) live_recs_Nil set_empty)
  ultimately show ?thesis using r by blast
qed

definition db_witness :: db_ctx where
  "db_witness = \<lparr>page_size = 4096, cache_line_size = 64, db_list = []\<rparr>"

lemma db_witness_simps [simp]:
  "page_size db_witness = 4096" "cache_line_size db_witness = 64" "db_list db_witness = []"
  by (simp_all add: db_witness_def)

lemmas db_run_simps = mlx5_alloc_dbrec_def add_page_def take_record_def ffsl_def upt_conv_Cons Let_def

theorem dbrec_exclusive_witness:
  "\<exists>ctx' H. pool_run mlx5_alloc_dbrec mlx5_free_db [Take (Some 8192), Take None, Give 0] db_witness [] = Inr (ctx', H)
     \<and> distinct H \<and> list_all (\<lambda>d. 64 dvd d) H"
proof -
  have e: "pool_env fresh_mem mlx5_alloc_dbrec mlx5_free_db [Take (Some 8192), Take None, Give 0] db_witness []"
    by (simp add: db_run_simps fresh_mem_def split: sum.splits)
  have p: "page_size db_witness = 2 ^ 12" by simp
  show ?thesis using dbrec_exclusive [OF _ p _ _ _ e] by (simp del: pool_run.simps) blast
qed

end
