(* ===== verification/Mlx5_Table.thy ===== *)
theory Mlx5_Table
  imports Pool_Spec
begin

text \<open>
  The resource tables of a device context (libmlx5 qp.c, srq.c, mlx5.c): a number of 24 bits is looked
  up in two levels, the first an array of 4096 entries, the second a block of 4096 pointers that is
  allocated with the first resource of the entry and freed with the last one. Arrays are functions of
  the index, with the bound checked at each access; \<open>None\<close> is the null pointer. Whether \<open>calloc\<close>
  succeeds is an argument of the operations.
\<close>

definition MLX5_QP_TABLE_SHIFT :: nat where "MLX5_QP_TABLE_SHIFT = 12"
definition MLX5_QP_TABLE_MASK :: nat where "MLX5_QP_TABLE_MASK = 2 ^ MLX5_QP_TABLE_SHIFT - 1"
definition MLX5_QP_TABLE_SIZE :: nat where "MLX5_QP_TABLE_SIZE = 2 ^ (24 - MLX5_QP_TABLE_SHIFT)"
definition MLX5_SRQ_TABLE_SHIFT :: nat where "MLX5_SRQ_TABLE_SHIFT = 12"
definition MLX5_SRQ_TABLE_MASK :: nat where "MLX5_SRQ_TABLE_MASK = 2 ^ MLX5_SRQ_TABLE_SHIFT - 1"
definition MLX5_SRQ_TABLE_SIZE :: nat where "MLX5_SRQ_TABLE_SIZE = 2 ^ (24 - MLX5_SRQ_TABLE_SHIFT)"

lemma table_consts [simp]:
  "MLX5_QP_TABLE_SHIFT = 12" "MLX5_QP_TABLE_MASK = 4095" "MLX5_QP_TABLE_SIZE = 4096"
  "MLX5_SRQ_TABLE_SHIFT = 12" "MLX5_SRQ_TABLE_MASK = 4095" "MLX5_SRQ_TABLE_SIZE = 4096"
  by (simp_all add: MLX5_QP_TABLE_SHIFT_def MLX5_QP_TABLE_MASK_def MLX5_QP_TABLE_SIZE_def
        MLX5_SRQ_TABLE_SHIFT_def MLX5_SRQ_TABLE_MASK_def MLX5_SRQ_TABLE_SIZE_def)

record 'p rsc_slot =
  refcnt :: int
  rsc_ptrs :: "nat \<Rightarrow> 'p option"

type_synonym 'p rtable = "nat \<Rightarrow> 'p rsc_slot"

text \<open>The indices of a resource number in the two levels.\<close>

definition tind :: "nat \<Rightarrow> u32 \<Rightarrow> nat" where
  "tind sh rsn = unat (drop_bit sh rsn)"

definition toff :: "nat \<Rightarrow> u32 \<Rightarrow> nat" where
  "toff msk rsn = unat (rsn AND of_nat msk)"

definition mlx5_find_rsc :: "'p rtable \<Rightarrow> u32 \<Rightarrow> 'p option res" where
  "mlx5_find_rsc t rsn =
     (let k = tind MLX5_QP_TABLE_SHIFT rsn in
      bind_res (check (k < MLX5_QP_TABLE_SIZE) OutOfBounds) (\<lambda>_.
      if refcnt (t k) \<noteq> 0 then Inr (rsc_ptrs (t k) (toff MLX5_QP_TABLE_MASK rsn)) else Inr None))"

definition mlx5_store_rsc :: "bool \<Rightarrow> 'p rtable \<Rightarrow> u32 \<Rightarrow> 'p \<Rightarrow> ('p rtable \<times> int) res" where
  "mlx5_store_rsc calloc_ok t rsn p =
     (let k = tind MLX5_QP_TABLE_SHIFT rsn in
      bind_res (check (k < MLX5_QP_TABLE_SIZE) OutOfBounds) (\<lambda>_.
      if refcnt (t k) = 0 \<and> \<not> calloc_ok then Inr (t, - 1)
      else let ptrs = (if refcnt (t k) = 0 then (\<lambda>_. None) else rsc_ptrs (t k))
           in Inr (t(k := \<lparr>refcnt = refcnt (t k) + 1,
                           rsc_ptrs = ptrs(toff MLX5_QP_TABLE_MASK rsn := Some p)\<rparr>), 0)))"

text \<open>
  With a count that is not positive the pointer of the row is null or the one of a block that was freed; the write through it is undefined, an
  error here.
\<close>

definition mlx5_clear_rsc :: "'p rtable \<Rightarrow> u32 \<Rightarrow> 'p rtable res" where
  "mlx5_clear_rsc t rsn =
     (let k = tind MLX5_QP_TABLE_SHIFT rsn in
      bind_res (check (k < MLX5_QP_TABLE_SIZE) OutOfBounds) (\<lambda>_.
      if refcnt (t k) - 1 = 0 then Inr (t(k := (t k)\<lparr>refcnt := 0\<rparr>))
      else if refcnt (t k) \<le> 0 then Inl BadPointer
      else Inr (t(k := \<lparr>refcnt = refcnt (t k) - 1,
                        rsc_ptrs = (rsc_ptrs (t k))(toff MLX5_QP_TABLE_MASK rsn := None)\<rparr>))))"

text \<open>The table of shared receive queues, with the constants the code uses in each function.\<close>

definition mlx5_find_srq :: "'p rtable \<Rightarrow> u32 \<Rightarrow> 'p option res" where
  "mlx5_find_srq t srqn =
     (let k = tind MLX5_SRQ_TABLE_SHIFT srqn in
      bind_res (check (k < MLX5_SRQ_TABLE_SIZE) OutOfBounds) (\<lambda>_.
      if refcnt (t k) \<noteq> 0 then Inr (rsc_ptrs (t k) (toff MLX5_SRQ_TABLE_MASK srqn)) else Inr None))"

definition mlx5_store_srq :: "bool \<Rightarrow> 'p rtable \<Rightarrow> u32 \<Rightarrow> 'p \<Rightarrow> ('p rtable \<times> int) res" where
  "mlx5_store_srq calloc_ok t srqn p =
     (let k = tind MLX5_SRQ_TABLE_SHIFT srqn in
      bind_res (check (k < MLX5_SRQ_TABLE_SIZE) OutOfBounds) (\<lambda>_.
      if refcnt (t k) = 0 \<and> \<not> calloc_ok then Inr (t, - 1)
      else let ptrs = (if refcnt (t k) = 0 then (\<lambda>_. None) else rsc_ptrs (t k))
           in Inr (t(k := \<lparr>refcnt = refcnt (t k) + 1,
                           rsc_ptrs = ptrs(toff MLX5_QP_TABLE_MASK srqn := Some p)\<rparr>), 0)))"

definition mlx5_clear_srq :: "'p rtable \<Rightarrow> u32 \<Rightarrow> 'p rtable res" where
  "mlx5_clear_srq t srqn =
     (let k = tind MLX5_QP_TABLE_SHIFT srqn in
      bind_res (check (k < MLX5_SRQ_TABLE_SIZE) OutOfBounds) (\<lambda>_.
      if refcnt (t k) - 1 = 0 then Inr (t(k := (t k)\<lparr>refcnt := 0\<rparr>))
      else if refcnt (t k) \<le> 0 then Inl BadPointer
      else Inr (t(k := \<lparr>refcnt = refcnt (t k) - 1,
                        rsc_ptrs = (rsc_ptrs (t k))(toff MLX5_SRQ_TABLE_MASK srqn := None)\<rparr>))))"

text \<open>The table of user indices chooses the number itself: the first entry with room.\<close>

fun find_tind :: "'p rtable \<Rightarrow> nat \<Rightarrow> nat \<Rightarrow> nat" where
  "find_tind t k 0 = k"
| "find_tind t k (Suc n) = (if refcnt (t k) < int MLX5_QP_TABLE_MASK then k else find_tind t (k + 1) n)"

fun find_null :: "(nat \<Rightarrow> 'p option) \<Rightarrow> nat \<Rightarrow> nat \<Rightarrow> nat" where
  "find_null f i 0 = i"
| "find_null f i (Suc n) = (if f i = None then i else find_null f (i + 1) n)"

definition get_free_uidx :: "'p rtable \<Rightarrow> int" where
  "get_free_uidx t =
     (let k = find_tind t 0 MLX5_QP_TABLE_SIZE in
      if k = MLX5_QP_TABLE_SIZE then - 1
      else if refcnt (t k) = 0 then int (k * 2 ^ MLX5_QP_TABLE_SHIFT)
      else int (or (k * 2 ^ MLX5_QP_TABLE_SHIFT) (find_null (rsc_ptrs (t k)) 0 (MLX5_QP_TABLE_MASK + 1))))"

definition mlx5_store_uidx :: "bool \<Rightarrow> 'p rtable \<Rightarrow> 'p \<Rightarrow> ('p rtable \<times> u32) res" where
  "mlx5_store_uidx calloc_ok t p =
     (let uidx = get_free_uidx t in
      if uidx < 0 then Inr (t, - 1)
      else let w = (of_int uidx :: u32); k = tind MLX5_QP_TABLE_SHIFT w in
           bind_res (check (k < MLX5_QP_TABLE_SIZE) OutOfBounds) (\<lambda>_.
           if refcnt (t k) = 0 \<and> \<not> calloc_ok then Inr (t, - 1)
           else let ptrs = (if refcnt (t k) = 0 then (\<lambda>_. None) else rsc_ptrs (t k))
                in Inr (t(k := \<lparr>refcnt = refcnt (t k) + 1,
                                rsc_ptrs = ptrs(toff MLX5_QP_TABLE_MASK w := Some p)\<rparr>), w)))"

definition mlx5_clear_uidx :: "'p rtable \<Rightarrow> u32 \<Rightarrow> 'p rtable res" where
  "mlx5_clear_uidx t uidx =
     (let k = tind MLX5_QP_TABLE_SHIFT uidx in
      bind_res (check (k < MLX5_QP_TABLE_SIZE) OutOfBounds) (\<lambda>_.
      if refcnt (t k) - 1 = 0 then Inr (t(k := (t k)\<lparr>refcnt := 0\<rparr>))
      else if refcnt (t k) \<le> 0 then Inl BadPointer
      else Inr (t(k := \<lparr>refcnt = refcnt (t k) - 1,
                        rsc_ptrs = (rsc_ptrs (t k))(toff MLX5_QP_TABLE_MASK uidx := None)\<rparr>))))"

definition mlx5_find_uidx :: "'p rtable \<Rightarrow> u32 \<Rightarrow> 'p option res" where
  "mlx5_find_uidx t uidx =
     (let k = tind MLX5_QP_TABLE_SHIFT uidx in
      bind_res (check (k < MLX5_QP_TABLE_SIZE) OutOfBounds) (\<lambda>_.
      if refcnt (t k) \<noteq> 0 then Inr (rsc_ptrs (t k) (toff MLX5_QP_TABLE_MASK uidx)) else Inr None))"

text \<open>The tables of a new context.\<close>

definition empty_rtable :: "'p rtable" where
  "empty_rtable = (\<lambda>_. \<lparr>refcnt = 0, rsc_ptrs = (\<lambda>_. None)\<rparr>)"

subsection \<open>The map a table stands for\<close>

abbreviation tcol :: "u32 \<Rightarrow> nat" where "tcol rsn \<equiv> toff 4095 rsn"
abbreviation trow :: "u32 \<Rightarrow> nat" where "trow rsn \<equiv> tind 12 rsn"

definition slot_map :: "'p rsc_slot \<Rightarrow> nat \<Rightarrow> 'p option" where
  "slot_map s i = (if refcnt s \<noteq> 0 then rsc_ptrs s i else None)"

definition rsc_map :: "'p rtable \<Rightarrow> u32 \<Rightarrow> 'p option" where
  "rsc_map t rsn = (if trow rsn < 4096 then slot_map (t (trow rsn)) (tcol rsn) else None)"

definition slot_ok :: "'p rsc_slot \<Rightarrow> bool" where
  "slot_ok s \<longleftrightarrow> refcnt s = int (card {i. i < 4096 \<and> slot_map s i \<noteq> None})"

definition table_ok :: "'p rtable \<Rightarrow> bool" where
  "table_ok t \<longleftrightarrow> (\<forall>k<4096. slot_ok (t k))"

lemma tcol_less [simp]: "tcol rsn < 4096"
proof -
  have "rsn AND 4095 \<le> 4095" by (rule word_and_le1)
  hence "unat (rsn AND 4095) \<le> unat (4095 :: u32)" by (rule word_le_nat_alt [THEN iffD1])
  thus ?thesis by (simp add: toff_def)
qed

lemma tcol_eq: "tcol rsn = unat rsn mod 4096"
proof -
  have m: "(4095 :: u32) = mask 12" by (simp add: mask_eq_exp_minus_1)
  have "unat (take_bit 12 rsn) = take_bit 12 (unat rsn)" by (rule unsigned_take_bit_eq)
  thus ?thesis by (simp add: toff_def m take_bit_eq_mask [symmetric] take_bit_eq_mod)
qed

lemma trow_eq: "trow rsn = unat rsn div 4096"
proof -
  have "take_bit 32 (unat rsn) = unat rsn" using unsigned_less [of rsn] by (simp add: take_bit_nat_eq_self_iff)
  thus ?thesis by (simp only: tind_def unsigned_drop_bit_eq) (simp add: drop_bit_eq_div)
qed

lemma trow_tcol: "trow a = trow b \<Longrightarrow> tcol a = tcol b \<Longrightarrow> a = b"
  by (metis div_mult_mod_eq trow_eq tcol_eq word_unat_eq_iff)

lemma srq_as_rsc: "mlx5_find_srq = mlx5_find_rsc" "mlx5_store_srq = mlx5_store_rsc" "mlx5_clear_srq = mlx5_clear_rsc"
  by (simp_all add: Let_def fun_eq_iff mlx5_find_srq_def mlx5_find_rsc_def mlx5_store_srq_def mlx5_store_rsc_def
        mlx5_clear_srq_def mlx5_clear_rsc_def)

lemma uidx_as_rsc: "mlx5_find_uidx = mlx5_find_rsc" "mlx5_clear_uidx = mlx5_clear_rsc"
  by (simp_all add: Let_def fun_eq_iff mlx5_find_uidx_def mlx5_find_rsc_def mlx5_clear_uidx_def mlx5_clear_rsc_def)

lemma store_uidx_as_rsc:
  assumes "0 \<le> get_free_uidx t"
  shows "mlx5_store_uidx c t p = bind_res (mlx5_store_rsc c t (of_int (get_free_uidx t)) p)
     (\<lambda>(t', r). Inr (t', if r = 0 then of_int (get_free_uidx t) else - 1))"
  using assms by (simp add: mlx5_store_uidx_def mlx5_store_rsc_def Let_def check_def)

text \<open>One entry.\<close>

definition slot_put :: "'p rsc_slot \<Rightarrow> nat \<Rightarrow> 'p \<Rightarrow> 'p rsc_slot" where
  "slot_put s i p = \<lparr>refcnt = refcnt s + 1,
     rsc_ptrs = (if refcnt s = 0 then (\<lambda>_. None) else rsc_ptrs s)(i := Some p)\<rparr>"

definition slot_del :: "'p rsc_slot \<Rightarrow> nat \<Rightarrow> 'p rsc_slot" where
  "slot_del s i = (if refcnt s - 1 = 0 then s\<lparr>refcnt := 0\<rparr>
     else \<lparr>refcnt = refcnt s - 1, rsc_ptrs = (rsc_ptrs s)(i := None)\<rparr>)"

lemma slot_put_ok:
  assumes "slot_ok s" "i < 4096" "slot_map s i = None"
  shows "slot_ok (slot_put s i p)" "slot_map (slot_put s i p) = (slot_map s)(i := Some p)"
proof -
  show m: "slot_map (slot_put s i p) = (slot_map s)(i := Some p)"
    using assms(1) by (auto simp: slot_map_def slot_put_def slot_ok_def fun_eq_iff)
  have "{x. x < 4096 \<and> slot_map (slot_put s i p) x \<noteq> None} = insert i {x. x < 4096 \<and> slot_map s x \<noteq> None}"
    using assms(2) unfolding m by auto
  thus "slot_ok (slot_put s i p)"
    using assms unfolding slot_ok_def by (simp add: card_insert_if) (simp add: slot_put_def)
qed

lemma slot_del_ok:
  assumes "slot_ok s" "i < 4096" "slot_map s i = Some p"
  shows "0 < refcnt s" "slot_ok (slot_del s i)" "\<And>x. x < 4096 \<Longrightarrow> slot_map (slot_del s i) x = ((slot_map s)(i := None)) x"
proof -
  define S where "S = {x. x < (4096 :: nat) \<and> slot_map s x \<noteq> None}"
  have i: "i \<in> S" using assms(2,3) by (simp add: S_def)
  have c: "refcnt s = int (card S)" using assms(1) by (simp add: slot_ok_def S_def)
  have f: "finite S" by (simp add: S_def)
  have "0 < card S" using i f card_gt_0_iff by blast
  thus pos: "0 < refcnt s" using c by linarith
  show m: "slot_map (slot_del s i) x = ((slot_map s)(i := None)) x" if x: "x < 4096" for x
  proof (cases "refcnt s = 1")
    case True
    hence "card S = 1" using c by linarith
    then obtain y where "S = {y}" by (rule card_1_singletonE)
    hence "x \<noteq> i \<Longrightarrow> x \<notin> S" using i by blast
    hence n: "x \<noteq> i \<Longrightarrow> slot_map s x = None" using x by (simp add: S_def)
    have "slot_map (slot_del s i) x = None" using True by (simp add: slot_map_def slot_del_def)
    thus ?thesis using n by simp
  next
    case False
    thus ?thesis using pos by (simp add: slot_map_def slot_del_def)
  qed
  have e: "{x. x < 4096 \<and> slot_map (slot_del s i) x \<noteq> None} = S - {i}"
  proof (rule set_eqI)
    fix x
    show "x \<in> {x. x < 4096 \<and> slot_map (slot_del s i) x \<noteq> None} \<longleftrightarrow> x \<in> S - {i}"
      by (cases "x < 4096") (auto simp: S_def m)
  qed
  have rc: "refcnt (slot_del s i) = refcnt s - 1" by (simp add: slot_del_def)
  show "slot_ok (slot_del s i)" unfolding slot_ok_def e rc using c card_Suc_Diff1 [OF f i] by linarith
qed

text \<open>The whole table.\<close>

lemma find_rsc_map: "trow rsn < 4096 \<Longrightarrow> mlx5_find_rsc t rsn = Inr (rsc_map t rsn)"
  by (simp add: mlx5_find_rsc_def rsc_map_def slot_map_def Let_def)

lemma rsc_map_upd:
  assumes "trow rsn < 4096" "\<And>i. i < 4096 \<Longrightarrow> slot_map s' i = ((slot_map (t (trow rsn)))(tcol rsn := v)) i"
  shows "rsc_map (t(trow rsn := s')) = (rsc_map t)(rsn := v)"
proof
  fix x
  show "rsc_map (t(trow rsn := s')) x = ((rsc_map t)(rsn := v)) x"
    using assms trow_tcol [of x rsn] by (auto simp: rsc_map_def)
qed

lemma store_rsc_ok:
  assumes "table_ok t" "trow rsn < 4096" "rsc_map t rsn = None" "c \<or> refcnt (t (trow rsn)) \<noteq> 0"
  shows "\<exists>t'. mlx5_store_rsc c t rsn p = Inr (t', 0) \<and> table_ok t' \<and> rsc_map t' = (rsc_map t)(rsn \<mapsto> p)"
proof -
  let ?s = "t (trow rsn)"
  have s: "slot_ok ?s" "slot_map ?s (tcol rsn) = None" using assms by (auto simp: table_ok_def rsc_map_def)
  note put = slot_put_ok [OF s(1) tcol_less s(2), of p]
  have "mlx5_store_rsc c t rsn p = Inr (t(trow rsn := slot_put ?s (tcol rsn) p), 0)"
    using assms(2,4) by (auto simp: mlx5_store_rsc_def slot_put_def Let_def)
  moreover have "table_ok (t(trow rsn := slot_put ?s (tcol rsn) p))" using assms(1) put(1) by (simp add: table_ok_def)
  moreover have "rsc_map (t(trow rsn := slot_put ?s (tcol rsn) p)) = (rsc_map t)(rsn \<mapsto> p)"
    by (rule rsc_map_upd) (simp_all add: assms(2) put(2))
  ultimately show ?thesis by blast
qed

lemma store_rsc_fails:
  "trow rsn < 4096 \<Longrightarrow> refcnt (t (trow rsn)) = 0 \<Longrightarrow> mlx5_store_rsc False t rsn p = Inr (t, - 1)"
  by (simp add: mlx5_store_rsc_def Let_def)

lemma clear_rsc_ok:
  assumes "table_ok t" "rsc_map t rsn = Some p"
  shows "\<exists>t'. mlx5_clear_rsc t rsn = Inr t' \<and> table_ok t' \<and> rsc_map t' = (rsc_map t)(rsn := None)"
proof -
  let ?s = "t (trow rsn)"
  have s: "slot_ok ?s" "slot_map ?s (tcol rsn) = Some p" "trow rsn < 4096"
    using assms by (auto simp: table_ok_def rsc_map_def split: if_splits)
  note del = slot_del_ok [OF s(1) tcol_less s(2)]
  have "mlx5_clear_rsc t rsn = Inr (t(trow rsn := slot_del ?s (tcol rsn)))"
    using s(3) del(1) by (auto simp: mlx5_clear_rsc_def slot_del_def Let_def)
  moreover have "table_ok (t(trow rsn := slot_del ?s (tcol rsn)))" using assms(1) del(2) by (simp add: table_ok_def)
  moreover have "rsc_map (t(trow rsn := slot_del ?s (tcol rsn))) = (rsc_map t)(rsn := None)"
    by (rule rsc_map_upd [OF s(3)]) (rule del(3))
  ultimately show ?thesis by blast
qed

lemma empty_rtable_ok: "table_ok empty_rtable" "rsc_map empty_rtable = Map.empty"
  by (auto simp: table_ok_def slot_ok_def empty_rtable_def rsc_map_def slot_map_def fun_eq_iff)

subsection \<open>The contract of a resource table\<close>

datatype 'p rsc_op = Store bool u32 'p | Clear u32

text \<open>A run of stores and clears, and the same run on a map.\<close>

fun table_run :: "(bool \<Rightarrow> 't \<Rightarrow> u32 \<Rightarrow> 'p \<Rightarrow> ('t \<times> int) res) \<Rightarrow> ('t \<Rightarrow> u32 \<Rightarrow> 't res) \<Rightarrow> 'p rsc_op list \<Rightarrow> 't
    \<Rightarrow> ('t \<times> int list) res" where
  "table_run st cl [] t = Inr (t, [])"
| "table_run st cl (Store c n p # ops) t =
     bind_res (st c t n p) (\<lambda>(t', r). bind_res (table_run st cl ops t') (\<lambda>(t'', rs). Inr (t'', r # rs)))"
| "table_run st cl (Clear n # ops) t =
     bind_res (cl t n) (\<lambda>t'. bind_res (table_run st cl ops t') (\<lambda>(t'', rs). Inr (t'', 0 # rs)))"

text \<open>\<open>rs\<close> are the results of the operations: a store that failed leaves the map.\<close>

fun map_run :: "'p rsc_op list \<Rightarrow> int list \<Rightarrow> (u32 \<rightharpoonup> 'p) \<Rightarrow> (u32 \<rightharpoonup> 'p)" where
  "map_run (Store c n p # ops) (r # rs) m = map_run ops rs (if r = 0 then m(n \<mapsto> p) else m)"
| "map_run (Clear n # ops) (r # rs) m = map_run ops rs (m(n := None))"
| "map_run ops rs m = m"

text \<open>
  Numbers have 24 bits, are stored when not in use, and are cleared when in use. Without the last condition the tables are no maps: clearing a number that is
  not in use takes one from the count of its row all the same.
\<close>

fun table_env :: "('t \<Rightarrow> u32 \<Rightarrow> 'p option res) \<Rightarrow> (bool \<Rightarrow> 't \<Rightarrow> u32 \<Rightarrow> 'p \<Rightarrow> ('t \<times> int) res) \<Rightarrow> ('t \<Rightarrow> u32 \<Rightarrow> 't res)
    \<Rightarrow> 'p rsc_op list \<Rightarrow> 't \<Rightarrow> bool" where
  "table_env fd st cl [] t = True"
| "table_env fd st cl (Store c n p # ops) t =
     (n < 2 ^ 24 \<and> (case fd t n of Inr None \<Rightarrow> True | _ \<Rightarrow> False)
       \<and> (case st c t n p of Inl _ \<Rightarrow> True | Inr (t', r) \<Rightarrow> table_env fd st cl ops t'))"
| "table_env fd st cl (Clear n # ops) t =
     (n < 2 ^ 24 \<and> (case fd t n of Inr (Some _) \<Rightarrow> True | _ \<Rightarrow> False)
       \<and> (case cl t n of Inl _ \<Rightarrow> True | Inr t' \<Rightarrow> table_env fd st cl ops t'))"

locale keyed_table =
  fixes tok :: "'t \<Rightarrow> bool"
    and tmap :: "'t \<Rightarrow> u32 \<rightharpoonup> 'p"
    and fd :: "'t \<Rightarrow> u32 \<Rightarrow> 'p option res"
    and st :: "bool \<Rightarrow> 't \<Rightarrow> u32 \<Rightarrow> 'p \<Rightarrow> ('t \<times> int) res"
    and cl :: "'t \<Rightarrow> u32 \<Rightarrow> 't res"
  assumes fd_map: "n < 2 ^ 24 \<Longrightarrow> fd t n = Inr (tmap t n)"
    and st_ok: "tok t \<Longrightarrow> n < 2 ^ 24 \<Longrightarrow> tmap t n = None \<Longrightarrow>
      \<exists>t' r. st c t n p = Inr (t', r) \<and> tok t' \<and> tmap t' = (if r = 0 then (tmap t)(n \<mapsto> p) else tmap t) \<and> (c \<longrightarrow> r = 0)"
    and cl_ok: "tok t \<Longrightarrow> n < 2 ^ 24 \<Longrightarrow> tmap t n = Some p \<Longrightarrow>
      \<exists>t'. cl t n = Inr t' \<and> tok t' \<and> tmap t' = (tmap t)(n := None)"
begin

lemma run_map:
  assumes "tok t" "table_env fd st cl ops t"
  shows "\<exists>t' rs. table_run st cl ops t = Inr (t', rs) \<and> length rs = length ops \<and> tok t' \<and> tmap t' = map_run ops rs (tmap t)"
  using assms
proof (induction ops arbitrary: t)
  case (Cons a ops)
  show ?case
  proof (cases a)
    case (Store c n p)
    have n: "n < 2 ^ 24" "tmap t n = None"
      using Cons.prems(2) fd_map [of n t] by (auto simp: Store split: option.splits)
    obtain t' r where s: "st c t n p = Inr (t', r)" "tok t'" "tmap t' = (if r = 0 then (tmap t)(n \<mapsto> p) else tmap t)"
      using st_ok [OF Cons.prems(1) n] by blast
    have "table_env fd st cl ops t'" using Cons.prems(2) s(1) by (simp add: Store)
    then obtain t'' rs where r: "table_run st cl ops t' = Inr (t'', rs)" "length rs = length ops" "tok t''"
      "tmap t'' = map_run ops rs (tmap t')" using Cons.IH [OF s(2)] by blast
    show ?thesis by (intro exI [of _ t''] exI [of _ "r # rs"]) (simp add: Store s r)
  next
    case (Clear n)
    obtain p where n: "n < 2 ^ 24" "tmap t n = Some p"
      using Cons.prems(2) fd_map [of n t] by (auto simp: Clear split: option.splits)
    obtain t' where s: "cl t n = Inr t'" "tok t'" "tmap t' = (tmap t)(n := None)"
      using cl_ok [OF Cons.prems(1) n] by blast
    have "table_env fd st cl ops t'" using Cons.prems(2) s(1) by (simp add: Clear)
    then obtain t'' rs where r: "table_run st cl ops t' = Inr (t'', rs)" "length rs = length ops" "tok t''"
      "tmap t'' = map_run ops rs (tmap t')" using Cons.IH [OF s(2)] by blast
    show ?thesis by (intro exI [of _ t''] exI [of _ "0 # rs"]) (simp add: Clear s r)
  qed
qed simp

end

lemma trow_24: "n < 2 ^ 24 \<Longrightarrow> trow n < 4096"
  by (simp add: trow_eq word_less_nat_alt less_mult_imp_div_less)

lemma store_rsc_total:
  assumes "table_ok t" "n < 2 ^ 24" "rsc_map t n = None"
  shows "\<exists>t' r. mlx5_store_rsc c t n p = Inr (t', r) \<and> table_ok t'
      \<and> rsc_map t' = (if r = 0 then (rsc_map t)(n \<mapsto> p) else rsc_map t) \<and> (c \<longrightarrow> r = 0)"
proof (cases "c \<or> refcnt (t (trow n)) \<noteq> 0")
  case True
  obtain t' where "mlx5_store_rsc c t n p = Inr (t', 0)" "table_ok t'" "rsc_map t' = (rsc_map t)(n \<mapsto> p)"
    using store_rsc_ok [OF assms(1) trow_24 [OF assms(2)] assms(3) True] by blast
  thus ?thesis by (intro exI [of _ t'] exI [of _ 0]) simp
next
  case False
  hence "mlx5_store_rsc c t n p = Inr (t, - 1)" using store_rsc_fails [OF trow_24 [OF assms(2)], of t p] by simp
  thus ?thesis using False assms(1) by (intro exI [of _ t] exI [of _ "- 1"]) simp
qed

interpretation rsc_tab: keyed_table table_ok rsc_map mlx5_find_rsc mlx5_store_rsc mlx5_clear_rsc
  by (unfold_locales; (rule find_rsc_map [OF trow_24] store_rsc_total clear_rsc_ok; assumption))

interpretation srq_tab: keyed_table table_ok rsc_map mlx5_find_srq mlx5_store_srq mlx5_clear_srq
  unfolding srq_as_rsc by unfold_locales

subsection \<open>User indices\<close>

lemma find_tind_spec:
  "k \<le> find_tind t k n \<and> find_tind t k n \<le> k + n
   \<and> (find_tind t k n < k + n \<longrightarrow> refcnt (t (find_tind t k n)) < 4095)"
  by (induction n arbitrary: k) (auto dest: spec [of _ "Suc _"], (metis Suc_leD add_Suc_right add_Suc)+)

lemma find_null_spec:
  "i \<le> find_null f i n \<and> find_null f i n \<le> i + n \<and> (\<forall>j. i \<le> j \<longrightarrow> j < find_null f i n \<longrightarrow> f j \<noteq> None)
   \<and> (find_null f i n < i + n \<longrightarrow> f (find_null f i n) = None)"
proof (induction n arbitrary: i)
  case (Suc n)
  show ?case using Suc [of "i + 1"] by (auto simp: le_eq_less_or_eq [of i])
qed simp

lemma or_low: "j < 4096 \<Longrightarrow> or (k * 4096) j = k * 4096 + (j :: nat)"
proof -
  assume j: "j < 4096"
  have "\<not> bit (k * 4096) n \<or> \<not> bit j n" for n
  proof (cases "n < 12")
    case True
    have "k * 4096 = push_bit 12 k" by (simp add: push_bit_eq_mult)
    thus ?thesis using True by (simp add: bit_push_bit_iff)
  next
    case False
    have "(2 :: nat) ^ 12 \<le> 2 ^ n" using False by (intro power_increasing) simp_all
    hence "j < 2 ^ n" using j by simp
    thus ?thesis by (simp add: bit_iff_odd)
  qed
  thus ?thesis by (rule disjunctive_add [symmetric])
qed

lemma get_free_uidx_ok:
  fixes t :: "'p rtable"
  assumes "table_ok t" "0 \<le> get_free_uidx t"
  defines "w \<equiv> (of_int (get_free_uidx t) :: u32)"
  shows "w < 2 ^ 24" "rsc_map t w = None"
proof -
  define k where "k = find_tind t 0 4096"
  define j where "j = (if refcnt (t k) = 0 then 0 else find_null (rsc_ptrs (t k)) 0 4096)"
  have k: "k < 4096" "refcnt (t k) < 4095" "k \<noteq> 4096"
    using find_tind_spec [of 0 t 4096] assms(2) unfolding k_def [symmetric]
    by (auto simp: get_free_uidx_def Let_def k_def [symmetric] split: if_splits)
  have sok: "slot_ok (t k)" using assms(1) k(1) by (simp add: table_ok_def)
  have j: "j < 4096 \<and> slot_map (t k) j = None"
  proof (cases "refcnt (t k) = 0")
    case False
    note n = find_null_spec [of 0 "rsc_ptrs (t k)" 4096]
    have "find_null (rsc_ptrs (t k)) 0 4096 \<noteq> 4096"
    proof
      assume "find_null (rsc_ptrs (t k)) 0 4096 = 4096"
      hence "{i. i < 4096 \<and> slot_map (t k) i \<noteq> None} = {..<4096}"
        using n False unfolding slot_map_def by auto
      thus False using sok k(2) by (simp add: slot_ok_def)
    qed
    thus ?thesis using n False by (auto simp: j_def slot_map_def)
  qed (simp add: j_def slot_map_def)
  have g: "get_free_uidx t = int (k * 4096 + j)"
  proof (cases "refcnt (t k) = 0")
    case True
    thus ?thesis using k(3) by (simp add: get_free_uidx_def Let_def k_def [symmetric] j_def)
  next
    case False
    hence "get_free_uidx t = int (or (k * 4096) j)"
      using k(3) by (simp add: get_free_uidx_def Let_def k_def [symmetric] j_def)
    thus ?thesis using or_low [of j k] j by simp
  qed
  have l: "k * 4096 + j < 2 ^ 24" using k(1) j by simp
  have w: "w = of_nat (k * 4096 + j)" unfolding w_def g by (rule of_int_of_nat_eq)
  have u: "unat w = k * 4096 + j" unfolding w unat_of_nat using l by (simp add: take_bit_nat_eq_self)
  show "w < 2 ^ 24" using l u by (simp add: word_less_nat_alt)
  have "trow w = k" "tcol w = j" using u j by (simp_all add: trow_eq tcol_eq)
  thus "rsc_map t w = None" using j by (simp add: rsc_map_def)
qed

text \<open>Taking and giving back a user index; the failure value is \<open>(uint32_t) -1\<close>.\<close>

definition uidx_take :: "bool \<times> 'p \<Rightarrow> 'p rtable \<Rightarrow> ('p rtable \<times> nat option) res" where
  "uidx_take m t = bind_res (mlx5_store_uidx (fst m) t (snd m)) (\<lambda>(t', w).
     Inr (t', if w = - 1 then None else Some (unat w)))"

definition uidx_give :: "'p rtable \<Rightarrow> nat \<Rightarrow> 'p rtable res" where
  "uidx_give t x = mlx5_clear_uidx t (of_nat x)"

definition uidx_live :: "'p rtable \<Rightarrow> nat set" where
  "uidx_live t = unat ` dom (rsc_map t)"

lemma uidx_take_ok:
  fixes t :: "'p rtable"
  assumes "table_ok t"
  shows "\<exists>t' r. uidx_take m t = Inr (t', r) \<and> table_ok t' \<and> uidx_live t' = uidx_live t \<union> set_option r
     \<and> uidx_live t \<inter> set_option r = {}"
proof (cases "0 \<le> get_free_uidx t")
  case True
  let ?w = "of_int (get_free_uidx t) :: u32"
  note w = get_free_uidx_ok [OF assms True]
  obtain t' r where s: "mlx5_store_rsc (fst m) t ?w (snd m) = Inr (t', r)" "table_ok t'"
    "rsc_map t' = (if r = 0 then (rsc_map t)(?w \<mapsto> snd m) else rsc_map t)"
    using store_rsc_total [OF assms w] by blast
  have "\<not> (- 1 :: u32) < 2 ^ 24" by simp
  hence "?w \<noteq> - 1" using w(1) by metis
  hence run: "uidx_take m t = Inr (t', if r = 0 then Some (unat ?w) else None)"
    using True s(1) by (simp add: uidx_take_def store_uidx_as_rsc)
  have "unat ?w \<notin> uidx_live t"
    using w(2) unfolding uidx_live_def by (metis domIff imageE word_unat_eq_iff)
  moreover have "uidx_live t' = uidx_live t \<union> set_option (if r = 0 then Some (unat ?w) else None)"
    by (auto simp: uidx_live_def s(3))
  ultimately show ?thesis using run s(2) by auto
next
  case False
  hence "uidx_take m t = Inr (t, None)" by (simp add: uidx_take_def mlx5_store_uidx_def Let_def)
  thus ?thesis using assms by auto
qed

lemma uidx_give_ok:
  fixes t :: "'p rtable"
  assumes "table_ok t" "x \<in> uidx_live t"
  shows "\<exists>t'. uidx_give t x = Inr t' \<and> table_ok t' \<and> uidx_live t' = uidx_live t - {x}"
proof -
  from assms(2) obtain w p where w: "x = unat w" "rsc_map t w = Some p" by (auto simp: uidx_live_def)
  obtain t' where c: "mlx5_clear_rsc t w = Inr t'" "table_ok t'" "rsc_map t' = (rsc_map t)(w := None)"
    using clear_rsc_ok [OF assms(1) w(2)] by blast
  have "uidx_give t x = Inr t'" using c(1) by (simp add: uidx_give_def uidx_as_rsc w(1))
  moreover have "uidx_live t' = uidx_live t - {x}" by (auto simp: uidx_live_def c(3) w(1) dom_def word_unat_eq_iff)
  ultimately show ?thesis using c(2) by blast
qed

lemma rsc_map_24: "rsc_map t w = Some p \<Longrightarrow> unat w < 2 ^ 24"
  using less_mult_imp_div_less [of "unat w" 4096 4096]
  by (auto simp: rsc_map_def trow_eq split: if_splits)

lemma uidx_live_iff: "n \<in> uidx_live t \<longleftrightarrow> n < 2 ^ 24 \<and> (\<exists>p. mlx5_find_uidx t (of_nat n) = Inr (Some p))"
proof
  assume "n \<in> uidx_live t"
  then obtain w p where w: "n = unat w" "rsc_map t w = Some p" by (auto simp: uidx_live_def)
  have "n < 2 ^ 24" using rsc_map_24 [OF w(2)] w(1) by simp
  moreover have "w < 2 ^ 24" using calculation w(1) by (simp add: word_less_nat_alt)
  ultimately show "n < 2 ^ 24 \<and> (\<exists>p. mlx5_find_uidx t (of_nat n) = Inr (Some p))"
    using w rsc_tab.fd_map [of w t] by (simp add: uidx_as_rsc)
next
  assume a: "n < 2 ^ 24 \<and> (\<exists>p. mlx5_find_uidx t (of_nat n) = Inr (Some p))"
  have u: "unat (of_nat n :: u32) = n" using a by (simp add: unat_of_nat take_bit_nat_eq_self)
  hence "(of_nat n :: u32) < 2 ^ 24" using a by (simp add: word_less_nat_alt)
  then obtain p where "rsc_map t (of_nat n) = Some p" using a rsc_tab.fd_map [of "of_nat n" t] by (auto simp: uidx_as_rsc)
  thus "n \<in> uidx_live t" unfolding uidx_live_def using u by (metis domI image_eqI)
qed

interpretation uidx_pool: slot_pool table_ok uidx_live "\<lambda>_ _. True" uidx_take uidx_give
  by unfold_locales (blast intro: uidx_take_ok uidx_give_ok)+

subsection \<open>Properties\<close>

text \<open>
  C19: The two-level tables of resources and of shared receive queues are maps from 24-bit numbers, under stores of numbers that are not
  in use and clears of numbers that are: after any such sequence, with allocations that may
  fail, both tables return the same results, no freed block is used, and a lookup finds exactly what
  the same operations leave in a map, a store that failed leaving nothing.
\<close>

theorem rsc_table_is_map:
  fixes ops :: "'p rsc_op list"
  assumes "table_env mlx5_find_rsc mlx5_store_rsc mlx5_clear_rsc ops empty_rtable" "n < 2 ^ 24"
  shows "\<exists>t rs. table_run mlx5_store_rsc mlx5_clear_rsc ops empty_rtable = Inr (t, rs)
    \<and> table_run mlx5_store_srq mlx5_clear_srq ops empty_rtable = Inr (t, rs)
    \<and> mlx5_find_rsc t n = Inr (map_run ops rs Map.empty n) \<and> mlx5_find_srq t n = Inr (map_run ops rs Map.empty n)"
proof -
  obtain t rs where r: "table_run mlx5_store_rsc mlx5_clear_rsc ops empty_rtable = Inr (t, rs)"
    "rsc_map t = map_run ops rs (rsc_map empty_rtable)"
    using rsc_tab.run_map [OF empty_rtable_ok(1) assms(1)] by blast
  have "mlx5_find_rsc t n = Inr (map_run ops rs Map.empty n)"
    using rsc_tab.fd_map [OF assms(2), of t] r(2) by (simp add: empty_rtable_ok(2))
  thus ?thesis using r(1) by (simp add: srq_as_rsc)
qed

theorem rsc_table_is_map_witness:
  "\<exists>t rs. table_run mlx5_store_rsc mlx5_clear_rsc [Store True 5 CHR ''a'', Store False 4101 CHR ''b'', Store True 6 CHR ''c'', Clear 5] empty_rtable = Inr (t, rs)
    \<and> mlx5_find_rsc t 6 = Inr (map_run [Store True 5 CHR ''a'', Store False 4101 CHR ''b'', Store True 6 CHR ''c'', Clear 5] rs Map.empty 6)"
proof -
  have e: "table_env mlx5_find_rsc mlx5_store_rsc mlx5_clear_rsc
      [Store True 5 CHR ''a'', Store False 4101 CHR ''b'', Store True 6 CHR ''c'', Clear 5] empty_rtable"
    by (simp add: mlx5_find_rsc_def mlx5_store_rsc_def mlx5_clear_rsc_def Let_def tind_def toff_def empty_rtable_def)
  show ?thesis using rsc_table_is_map [OF e, of 6] by (simp del: table_run.simps map_run.simps) blast
qed

text \<open>
  C20: User indices are unique: in any sequence of requests and releases of user indices from an empty
  table, with allocations that may fail, no access leaves a table, every index handed out is different
  from the ones held, the indices held are exactly the used ones, and each of them has 24 bits.
\<close>

theorem uidx_unique:
  fixes ops :: "(bool \<times> 'p) pool_op list"
  shows "\<exists>t H. pool_run uidx_take uidx_give ops empty_rtable [] = Inr (t, H) \<and> distinct H
    \<and> (\<forall>n. n \<in> set H \<longleftrightarrow> n < 2 ^ 24 \<and> (\<exists>p. mlx5_find_uidx t (of_nat n) = Inr (Some p)))"
proof -
  have l: "uidx_live (empty_rtable :: 'p rtable) = set []" by (simp add: uidx_live_def empty_rtable_ok(2))
  obtain t H where r: "pool_run uidx_take uidx_give ops empty_rtable [] = Inr (t, H)" "table_ok t" "uidx_live t = set H" "distinct H"
    using uidx_pool.run_ok [OF empty_rtable_ok(1) l distinct_Nil pool_env_True] by blast
  have "n \<in> set H \<longleftrightarrow> n < 2 ^ 24 \<and> (\<exists>p. mlx5_find_uidx t (of_nat n) = Inr (Some p))" for n
    unfolding r(3) [symmetric] by (rule uidx_live_iff)
  thus ?thesis using r by blast
qed

end
