(* ===== verification/Mlx5_Srq_Create.thy ===== *)
theory Mlx5_Srq_Create
  imports Mlx5_Srq Mlx5_Dbrec Mlx5_Table
begin

text \<open>
  Creating and destroying a shared receive queue (libmlx5 verbs.c): the queue's memory, its doorbell
  record, the kernel's object and the entry of the resource table, and how a failure of any of
  them takes back the earlier ones. The results of the C library and of the kernel commands are arguments;
  \<open>blocks\<close> and \<open>kobjs\<close> count the heap blocks and the kernel objects the driver holds. Destroying is
  modelled for every kind of queue: one of \<open>mlx5_create_srq\<close>, an extended one (\<open>is_xsrq\<close>), which a context with a
  \<open>cqe_version\<close> keeps in the table of user indices, and one behind a legacy handle, which is a block of its own.
\<close>

record srq_dev =
  dev_limits :: wq_limits
  dev_dbs :: db_ctx
  dev_srqs :: "nat rtable"
  dev_uidxs :: "nat rtable"
  cqe_version :: int
  blocks :: int
  kobjs :: int

text \<open>
  The outcomes of the calls of one creation: the addresses \<open>calloc\<close> and the page allocator give, the number
  \<open>ibv_cmd_create_srq\<close> returns, and whether the others succeed; \<open>env_destroy\<close> is the success of \<open>ibv_cmd_destroy_srq\<close>
  on the error path, where the code does not look at it.
\<close>

record srq_env =
  env_srq :: "nat option"
  env_lock :: bool
  env_wrid :: bool
  env_buf :: bool
  env_page :: "nat option"
  env_sig :: bool
  env_cmd :: "u32 option"
  env_table :: bool
  env_destroy :: bool

record srq_handle =
  h_ptr :: nat
  h_srq :: srq
  h_db :: nat
  is_xsrq :: bool
  rsc_rsn :: u32
  h_legacy :: bool

definition zero_srq :: srq where
  "zero_srq = \<lparr>srq_wqes = [], srq_wrid = [], srqn = 0, srq_max = 0, srq_max_gs = 0, srq_wqe_shift = 0, srq_head = 0,
     srq_tail = 0, srq_counter = 0, srq_db = 0, srq_wq_sig = False\<rparr>"

text \<open>From the doorbell record on; \<open>d\<close> holds the queue's three blocks.\<close>

definition create_srq_db :: "srq_env \<Rightarrow> nat \<Rightarrow> srq \<Rightarrow> srq_dev \<Rightarrow> (srq_dev \<times> srq_handle option) res" where
  "create_srq_db e p s d =
     bind_res (mlx5_alloc_dbrec (env_page e) (dev_dbs d)) (\<lambda>(dbs, db).
     case db of
       None \<Rightarrow> Inr (d\<lparr>dev_dbs := dbs, blocks := blocks d - 3\<rparr>, None)
     | Some a \<Rightarrow>
         let d1 = d\<lparr>dev_dbs := dbs\<rparr>; s1 = s\<lparr>srq_db := 0, srq_wq_sig := env_sig e\<rparr> in
         (case env_cmd e of
            None \<Rightarrow> bind_res (mlx5_free_db dbs a) (\<lambda>dbs'. Inr (d1\<lparr>dev_dbs := dbs', blocks := blocks d - 3\<rparr>, None))
          | Some n \<Rightarrow>
              bind_res (mlx5_store_srq (env_table e) (dev_srqs d) n p) (\<lambda>(t, r).
              let d2 = d1\<lparr>dev_srqs := t, kobjs := kobjs d + 1\<rparr> in
              if r \<noteq> 0
              then bind_res (mlx5_free_db dbs a) (\<lambda>dbs'.
                   Inr (d2\<lparr>dev_dbs := dbs', kobjs := (if env_destroy e then kobjs d2 - 1 else kobjs d2), blocks := blocks d - 3\<rparr>, None))
              else Inr (d2, Some \<lparr>h_ptr = p, h_srq = s1\<lparr>srqn := n\<rparr>, h_db = a, is_xsrq = False, rsc_rsn = n, h_legacy = False\<rparr>))))"

text \<open>\<open>mlx5_create_srq\<close>, for \<open>max_wr\<close> and \<open>max_sge\<close> of the attributes.\<close>

definition mlx5_create_srq :: "srq_env \<Rightarrow> u32 \<Rightarrow> u32 \<Rightarrow> srq_dev \<Rightarrow> (srq_dev \<times> srq_handle option) res" where
  "mlx5_create_srq e max_wr sges d =
     (case env_srq e of
        None \<Rightarrow> Inr (d, None)
      | Some p \<Rightarrow>
          if \<not> env_lock e then Inr (d, None)
          else if max_srq_recv_wr (dev_limits d) < max_wr then Inr (d, None)
          else let max_sge = to_s32 (max_rq_desc_sz (dev_limits d) mod 2 ^ 64 div sizeof_data_seg) in
          if (of_int max_sge :: u32) < sges then Inr (d, None)
          else bind_res (align_queue_size (uint (max_wr + 1))) (\<lambda>n.
          let s0 = zero_srq\<lparr>srq_max := n, srq_max_gs := sint sges\<rparr> in
          bind_res (mlx5_alloc_srq_buf (max_recv_wr (dev_limits d)) (env_wrid e) (env_buf e) s0) (\<lambda>(r, s, b).
          if r \<noteq> 0 then Inr (d\<lparr>blocks := blocks d + int b\<rparr>, None)
          else create_srq_db e p s (d\<lparr>blocks := blocks d + 1 + int b\<rparr>))))"

text \<open>\<open>mlx5_destroy_srq\<close>; \<open>cmd\<close> is the result of \<open>ibv_cmd_destroy_srq\<close>.\<close>

definition mlx5_destroy_srq :: "int \<Rightarrow> srq_handle \<Rightarrow> srq_dev \<Rightarrow> (srq_dev \<times> int) res" where
  "mlx5_destroy_srq cmd h d =
     (if cmd \<noteq> 0 then Inr (d, cmd)
      else bind_res
             (if cqe_version d \<noteq> 0 \<and> is_xsrq h
              then bind_res (mlx5_clear_uidx (dev_uidxs d) (rsc_rsn h)) (\<lambda>t. Inr (d\<lparr>dev_uidxs := t\<rparr>))
              else bind_res (mlx5_clear_srq (dev_srqs d) (srqn (h_srq h))) (\<lambda>t. Inr (d\<lparr>dev_srqs := t\<rparr>))) (\<lambda>d1.
           bind_res (mlx5_free_db (dev_dbs d1) (h_db h)) (\<lambda>dbs.
           Inr (d1\<lparr>dev_dbs := dbs, kobjs := kobjs d - 1, blocks := blocks d - 3 - (if h_legacy h then 1 else 0)\<rparr>, 0))))"

text \<open>The device is as it should be, and what the driver holds of it.\<close>

definition dev_ok :: "srq_dev \<Rightarrow> bool" where
  "dev_ok d \<longleftrightarrow> ctx_ok (dev_dbs d) \<and> table_ok (dev_srqs d) \<and> table_ok (dev_uidxs d)"

definition same_holdings :: "srq_dev \<Rightarrow> srq_dev \<Rightarrow> bool" where
  "same_holdings d d' \<longleftrightarrow> live_recs (dev_dbs d') = live_recs (dev_dbs d) \<and> rsc_map (dev_srqs d') = rsc_map (dev_srqs d)
     \<and> rsc_map (dev_uidxs d') = rsc_map (dev_uidxs d)"

text \<open>A failed creation has undone its kernel object, unless the command that destroys it failed.\<close>

definition object_undone :: "srq_env \<Rightarrow> srq_dev \<Rightarrow> srq_dev \<Rightarrow> bool" where
  "object_undone e d d' \<longleftrightarrow> kobjs d' = kobjs d \<or> \<not> env_destroy e \<and> kobjs d' = kobjs d + 1"

lemma create_srq_db_ok:
  assumes "dev_ok d" "fresh_mem (dev_dbs d) (env_page e)"
    "\<And>n. env_cmd e = Some n \<Longrightarrow> n < 2 ^ 24 \<and> rsc_map (dev_srqs d) n = None"
  shows "\<exists>d' r. create_srq_db e p s d = Inr (d', r) \<and> dev_ok d' \<and>
    (case r of
       None \<Rightarrow> same_holdings d d' \<and> object_undone e d d' \<and> blocks d' = blocks d - 3
     | Some h \<Rightarrow> blocks d' = blocks d \<and> kobjs d' = kobjs d + 1 \<and> h_db h \<notin> live_recs (dev_dbs d)
         \<and> live_recs (dev_dbs d') = insert (h_db h) (live_recs (dev_dbs d))
         \<and> rsc_map (dev_srqs d) (srqn (h_srq h)) = None \<and> srqn (h_srq h) < 2 ^ 24
         \<and> rsc_map (dev_srqs d') = (rsc_map (dev_srqs d))(srqn (h_srq h) \<mapsto> h_ptr h)
         \<and> rsc_map (dev_uidxs d') = rsc_map (dev_uidxs d) \<and> \<not> is_xsrq h \<and> \<not> h_legacy h)"
proof -
  have ok: "ctx_ok (dev_dbs d)" "table_ok (dev_srqs d)" "table_ok (dev_uidxs d)" using assms(1) by (simp_all add: dev_ok_def)
  note defs = create_srq_db_def Let_def dev_ok_def same_holdings_def object_undone_def
  consider (mem) "mlx5_alloc_dbrec (env_page e) (dev_dbs d) = Inr (dev_dbs d, None)"
    | (db) c a where "mlx5_alloc_dbrec (env_page e) (dev_dbs d) = Inr (c, Some a)" "ctx_ok c" "a \<notin> live_recs (dev_dbs d)"
        "live_recs c = insert a (live_recs (dev_dbs d))"
    using alloc_dbrec_ok [OF ok(1) assms(2)] by blast
  thus ?thesis
  proof cases
    case mem
    thus ?thesis using ok by (simp add: defs)
  next
    case db
    obtain c' where f: "mlx5_free_db c a = Inr c'" "ctx_ok c'" "live_recs c' = live_recs (dev_dbs d)"
      using free_db_ok [OF db(2), of a] db(3,4) by auto
    show ?thesis
    proof (cases "env_cmd e")
      case None
      thus ?thesis using db f ok by (simp add: defs)
    next
      case (Some n)
      have n: "n < 2 ^ 24" "rsc_map (dev_srqs d) n = None" using assms(3) [OF Some] by blast+
      obtain t r where t: "mlx5_store_srq (env_table e) (dev_srqs d) n p = Inr (t, r)" "table_ok t"
        "rsc_map t = (if r = 0 then (rsc_map (dev_srqs d))(n \<mapsto> p) else rsc_map (dev_srqs d))"
        using srq_tab.st_ok [OF ok(2) n] by blast
      show ?thesis using db f ok Some t n by (cases "r = 0") (simp_all add: defs)
    qed
  qed
qed

text \<open>Destroying a queue of either kind takes its number out of the table it is in.\<close>

lemma destroy_srq_ok:
  assumes "dev_ok d" "h_db h \<in> live_recs (dev_dbs d)" "rsc_map (dev_srqs d) (srqn (h_srq h)) = Some q" "srqn (h_srq h) < 2 ^ 24"
    "\<not> is_xsrq h"
  shows "\<exists>d'. mlx5_destroy_srq 0 h d = Inr (d', 0) \<and> dev_ok d' \<and> live_recs (dev_dbs d') = live_recs (dev_dbs d) - {h_db h}
    \<and> rsc_map (dev_srqs d') = (rsc_map (dev_srqs d))(srqn (h_srq h) := None) \<and> rsc_map (dev_uidxs d') = rsc_map (dev_uidxs d)
    \<and> kobjs d' = kobjs d - 1 \<and> blocks d' = blocks d - 3 - (if h_legacy h then 1 else 0)"
proof -
  have ok: "ctx_ok (dev_dbs d)" "table_ok (dev_srqs d)" "table_ok (dev_uidxs d)" using assms(1) by (simp_all add: dev_ok_def)
  obtain c where "mlx5_free_db (dev_dbs d) (h_db h) = Inr c" "ctx_ok c" "live_recs c = live_recs (dev_dbs d) - {h_db h}"
    using free_db_ok [OF ok(1) assms(2)] by blast
  moreover obtain t where "mlx5_clear_srq (dev_srqs d) (srqn (h_srq h)) = Inr t" "table_ok t"
    "rsc_map t = (rsc_map (dev_srqs d))(srqn (h_srq h) := None)"
    using srq_tab.cl_ok [OF ok(2) assms(4,3)] by blast
  ultimately show ?thesis using ok(3) assms(5) by (simp add: mlx5_destroy_srq_def dev_ok_def)
qed

lemma destroy_xsrq_ok:
  assumes "dev_ok d" "h_db h \<in> live_recs (dev_dbs d)" "rsc_map (dev_uidxs d) (rsc_rsn h) = Some q" "rsc_rsn h < 2 ^ 24"
    "is_xsrq h" "cqe_version d \<noteq> 0"
  shows "\<exists>d'. mlx5_destroy_srq 0 h d = Inr (d', 0) \<and> dev_ok d' \<and> live_recs (dev_dbs d') = live_recs (dev_dbs d) - {h_db h}
    \<and> rsc_map (dev_uidxs d') = (rsc_map (dev_uidxs d))(rsc_rsn h := None) \<and> rsc_map (dev_srqs d') = rsc_map (dev_srqs d)
    \<and> kobjs d' = kobjs d - 1 \<and> blocks d' = blocks d - 3 - (if h_legacy h then 1 else 0)"
proof -
  have ok: "ctx_ok (dev_dbs d)" "table_ok (dev_srqs d)" "table_ok (dev_uidxs d)" using assms(1) by (simp_all add: dev_ok_def)
  obtain c where "mlx5_free_db (dev_dbs d) (h_db h) = Inr c" "ctx_ok c" "live_recs c = live_recs (dev_dbs d) - {h_db h}"
    using free_db_ok [OF ok(1) assms(2)] by blast
  moreover obtain t where "mlx5_clear_uidx (dev_uidxs d) (rsc_rsn h) = Inr t" "table_ok t"
    "rsc_map t = (rsc_map (dev_uidxs d))(rsc_rsn h := None)"
    using rsc_tab.cl_ok [OF ok(3) assms(4,3)] unfolding uidx_as_rsc by blast
  ultimately show ?thesis using ok(2) assms(5,6) by (simp add: mlx5_destroy_srq_def dev_ok_def)
qed

text \<open>With a limit on work requests above the size of an entry, a failure keeps no block.\<close>

lemma alloc_srq_buf_total:
  assumes "0 \<le> srq_max_gs s" "srq_max_gs s < 2 ^ 24" "2 * (16 + 16 * srq_max_gs s) \<le> lim" "64 \<le> lim"
    "0 \<le> srq_max s" "srq_max s * (2 * max 32 (16 + 16 * srq_max_gs s)) < 2 ^ 31"
  shows "\<exists>r s' b. mlx5_alloc_srq_buf lim w bf s = Inr (r, s', b) \<and> b = (if r = 0 then 2 else 0)"
proof -
  let ?size = "max 32 (16 + 16 * srq_max_gs s)"
  have t: "to_s32 (16 + srq_max_gs s * 16) = 16 + 16 * srq_max_gs s" using assms(1,2) by (subst to_s32_small) auto
  have "?size \<le> 2 ^ 30" using assms(2) by simp
  then obtain j where j: "mlx5_round_up_power_of_two ?size = Inr (2 ^ j)" "j \<le> 30" "?size \<le> 2 ^ j" "j = 0 \<or> 2 ^ (j - 1) < ?size"
    using round_up_ok by blast
  have jl: "(2 :: int) ^ j \<le> 2 * ?size"
  proof (cases j)
    case 0
    define z where "z = ?size"
    have "32 \<le> z" unfolding z_def by (rule max.cobounded1)
    hence "1 \<le> 2 * z" by linarith
    thus ?thesis unfolding 0 power_0 z_def .
  qed (use j(4) in simp)
  hence "\<not> lim < 2 ^ j" using assms(3,4) by linarith
  moreover have "srq_max s * 2 ^ j < 2 ^ 31" using mult_left_mono [OF jl assms(5)] assms(6) by linarith
  moreover have "0 \<le> srq_max s * 2 ^ j" using assms(5) by simp
  ultimately show ?thesis using assms(1) j(1) ilog2_power [OF j(2)]
    by (simp add: mlx5_alloc_srq_buf_def Let_def size_consts t)
qed

text \<open>A creation stops with nothing held, or goes on with the three blocks of the queue.\<close>

lemma create_srq_cases:
  assumes "max_srq_recv_wr (dev_limits d) < 2 ^ 16" "0 \<le> max_rq_desc_sz (dev_limits d)" "max_rq_desc_sz (dev_limits d) \<le> 2 ^ 13"
    "2 * (max_rq_desc_sz (dev_limits d) + 32) \<le> max_recv_wr (dev_limits d)"
  shows "mlx5_create_srq e max_wr sges d = Inr (d, None)
    \<or> (\<exists>p s. mlx5_create_srq e max_wr sges d = create_srq_db e p s (d\<lparr>blocks := blocks d + 3\<rparr>))"
proof -
  let ?l = "dev_limits d" and ?m = "max_rq_desc_sz (dev_limits d) div 16"
  have m: "to_s32 (max_rq_desc_sz ?l mod 18446744073709551616 div 16) = ?m"
    using assms(2,3) by (simp add: mod_pos_pos_trivial to_s32_small)
  show ?thesis
  proof (cases "env_srq e = None \<or> \<not> env_lock e \<or> max_srq_recv_wr ?l < max_wr \<or> (of_int ?m :: u32) < sges")
    case True
    thus ?thesis by (intro disjI1) (auto simp: mlx5_create_srq_def Let_def sizeof_data_seg_def m split: option.splits)
  next
    case False
    then obtain p where p: "env_srq e = Some p" by auto
    have "uint (of_int ?m :: u32) = ?m" using assms(2,3) by (simp only: unsigned_of_int) (simp add: take_bit_int_eq_self)
    hence sg: "uint sges \<le> ?m" using False by (simp add: word_less_def)
    have wr: "max_wr < 2 ^ 16" using False assms(1) by (meson le_less_trans not_le)
    have u: "uint (max_wr + 1) = uint max_wr + 1" using wr by (simp add: word_less_def uint_plus_if_size word_size)
    have "1 \<le> uint (max_wr + 1)" "uint (max_wr + 1) \<le> 2 ^ 16" using wr unfolding u by (simp_all add: word_less_def)
    then obtain k where k: "align_queue_size (uint (max_wr + 1)) = Inr (2 ^ k)" "k \<le> 16"
      using round_up_small [of "uint (max_wr + 1)" 16] by (auto simp: align_queue_size_def)
    have "to_s32 (uint sges) = uint sges" using sg assms(3) by (intro to_s32_small) auto
    hence su: "sint sges = uint sges" by (simp add: to_s32_def)
    define s0 where "s0 = zero_srq\<lparr>srq_max := 2 ^ k, srq_max_gs := sint sges\<rparr>"
    have "srq_max_gs s0 = uint sges" by (simp add: s0_def su)
    hence gs: "0 \<le> srq_max_gs s0" "srq_max_gs s0 < 2 ^ 24" "2 * (16 + 16 * srq_max_gs s0) \<le> max_recv_wr ?l" "64 \<le> max_recv_wr ?l"
      using sg assms by (auto intro: order_trans [of _ "2 * (max_rq_desc_sz (dev_limits d) + 32)"])
    have "(2 :: int) ^ k \<le> 2 ^ 16" unfolding two_power_le by (rule k(2))
    hence "srq_max s0 \<le> 2 ^ 16" "0 \<le> srq_max s0" by (simp_all add: s0_def)
    moreover have "2 * max 32 (16 + 16 * srq_max_gs s0) \<le> 2 ^ 14 + 64" using sg assms(3) \<open>srq_max_gs s0 = uint sges\<close> by auto
    ultimately have "srq_max s0 * (2 * max 32 (16 + 16 * srq_max_gs s0)) \<le> 2 ^ 16 * (2 ^ 14 + 64)"
      by (intro mult_mono) simp_all
    hence pr: "0 \<le> srq_max s0" "srq_max s0 * (2 * max 32 (16 + 16 * srq_max_gs s0)) < 2 ^ 31" using \<open>0 \<le> srq_max s0\<close> by simp_all
    obtain r s b where a: "mlx5_alloc_srq_buf (max_recv_wr ?l) (env_wrid e) (env_buf e) s0 = Inr (r, s, b)" "b = (if r = 0 then 2 else 0)"
      using alloc_srq_buf_total [OF gs pr] by blast
    have "mlx5_create_srq e max_wr sges d =
       (if r \<noteq> 0 then Inr (d\<lparr>blocks := blocks d\<rparr>, None) else create_srq_db e p s (d\<lparr>blocks := blocks d + 3\<rparr>))"
      using False p k(1) a by (simp add: mlx5_create_srq_def Let_def sizeof_data_seg_def m s0_def add.commute [of 3])
    thus ?thesis by (cases "r = 0") auto
  qed
qed

subsection \<open>Properties\<close>

text \<open>
  C16: Creating a shared receive queue is all or nothing, on a device whose limits are such that twice the size of the largest entry
  (\<open>max_rq_desc_sz\<close> and 32 bytes) is at most \<open>max_recv_wr\<close>, with which the code compares an entry's size, at most \<open>2 ^ 16 - 1\<close> requests and
  \<open>2 ^ 13\<close> bytes of segments are allowed, and the kernel gives numbers that are not in use. Whatever allocation or kernel
  command fails, the doorbell records in use, the resource tables and the number of heap blocks are as before, and no
  kernel object is left unless the command that destroys it failed too, which the code does not notice. When the creation succeeds it holds three blocks
  and one object; destroying the queue restores everything, and when the destroy command is refused nothing changes.
\<close>

theorem srq_create_all_or_nothing:
  assumes "dev_ok d" "fresh_mem (dev_dbs d) (env_page e)"
    "\<And>n. env_cmd e = Some n \<Longrightarrow> n < 2 ^ 24 \<and> rsc_map (dev_srqs d) n = None"
    "max_srq_recv_wr (dev_limits d) < 2 ^ 16" "0 \<le> max_rq_desc_sz (dev_limits d)" "max_rq_desc_sz (dev_limits d) \<le> 2 ^ 13"
    "2 * (max_rq_desc_sz (dev_limits d) + 32) \<le> max_recv_wr (dev_limits d)"
  shows "\<exists>d' r. mlx5_create_srq e max_wr sges d = Inr (d', r) \<and>
    (case r of
       None \<Rightarrow> same_holdings d d' \<and> object_undone e d d' \<and> blocks d' = blocks d
     | Some h \<Rightarrow> blocks d' = blocks d + 3 \<and> kobjs d' = kobjs d + 1
         \<and> (\<exists>d''. mlx5_destroy_srq 0 h d' = Inr (d'', 0) \<and> same_holdings d d'' \<and> kobjs d'' = kobjs d \<and> blocks d'' = blocks d)
         \<and> (\<forall>cmd. cmd \<noteq> 0 \<longrightarrow> mlx5_destroy_srq cmd h d' = Inr (d', cmd)))"
proof -
  let ?d = "d\<lparr>blocks := blocks d + 3\<rparr>"
  consider (none) "mlx5_create_srq e max_wr sges d = Inr (d, None)"
    | (go) p s where "mlx5_create_srq e max_wr sges d = create_srq_db e p s ?d"
    using create_srq_cases [OF assms(4-7)] by blast
  thus ?thesis
  proof cases
    case none
    thus ?thesis by (simp add: same_holdings_def object_undone_def)
  next
    case go
    obtain d' q where c: "create_srq_db e p s ?d = Inr (d', q)" "dev_ok d'"
      "case q of None \<Rightarrow> same_holdings ?d d' \<and> object_undone e ?d d' \<and> blocks d' = blocks ?d - 3
       | Some h \<Rightarrow> blocks d' = blocks ?d \<and> kobjs d' = kobjs ?d + 1 \<and> h_db h \<notin> live_recs (dev_dbs ?d)
         \<and> live_recs (dev_dbs d') = insert (h_db h) (live_recs (dev_dbs ?d))
         \<and> rsc_map (dev_srqs ?d) (srqn (h_srq h)) = None \<and> srqn (h_srq h) < 2 ^ 24
         \<and> rsc_map (dev_srqs d') = (rsc_map (dev_srqs ?d))(srqn (h_srq h) \<mapsto> h_ptr h)
         \<and> rsc_map (dev_uidxs d') = rsc_map (dev_uidxs ?d) \<and> \<not> is_xsrq h \<and> \<not> h_legacy h"
      using create_srq_db_ok [of ?d e p s] assms(1-3) by (auto simp: dev_ok_def)
    show ?thesis
    proof (cases q)
      case None
      thus ?thesis using go c by (simp add: same_holdings_def object_undone_def)
    next
      case (Some h)
      obtain d'' where "mlx5_destroy_srq 0 h d' = Inr (d'', 0)" "live_recs (dev_dbs d'') = live_recs (dev_dbs d') - {h_db h}"
        "rsc_map (dev_srqs d'') = (rsc_map (dev_srqs d'))(srqn (h_srq h) := None)" "rsc_map (dev_uidxs d'') = rsc_map (dev_uidxs d')"
        "kobjs d'' = kobjs d' - 1" "blocks d'' = blocks d' - 3"
        using destroy_srq_ok [OF c(2), of h] c(3) Some by auto
      moreover have "mlx5_destroy_srq cmd h d' = Inr (d', cmd)" if "cmd \<noteq> 0" for cmd using that by (simp add: mlx5_destroy_srq_def)
      ultimately show ?thesis using go c Some by (auto simp: same_holdings_def fun_upd_idem_iff)
    qed
  qed
qed

text \<open>A device with no doorbell pages and no queues, and the outcomes of a creation that fails in the table.\<close>

definition srq_dev_witness :: srq_dev where
  "srq_dev_witness = \<lparr>dev_limits = wq_limits_witness, dev_dbs = db_witness, dev_srqs = empty_rtable, dev_uidxs = empty_rtable,
     cqe_version = 1, blocks = 0, kobjs = 0\<rparr>"

definition srq_env_witness :: "bool \<Rightarrow> srq_env" where
  "srq_env_witness t = \<lparr>env_srq = Some 64, env_lock = True, env_wrid = True, env_buf = True, env_page = Some 8192, env_sig = False,
     env_cmd = Some 5, env_table = t, env_destroy = True\<rparr>"

lemma srq_dev_witness_ok:
  "dev_ok srq_dev_witness" "fresh_mem (dev_dbs srq_dev_witness) (env_page (srq_env_witness t))"
proof -
  have "ctx_ok0 db_witness" unfolding ctx_ok0_def by (simp add: exI [of _ 12])
  thus "dev_ok srq_dev_witness" by (simp add: dev_ok_def srq_dev_witness_def ctx_ok_def empty_rtable_ok)
qed (simp add: fresh_mem_def srq_dev_witness_def srq_env_witness_def)

theorem srq_create_all_or_nothing_witness:
  "\<exists>d' r. mlx5_create_srq (srq_env_witness False) 10 2 srq_dev_witness = Inr (d', r) \<and>
    (case r of None \<Rightarrow> blocks d' = 0 | Some h \<Rightarrow> blocks d' = 3 \<and> (\<exists>d''. mlx5_destroy_srq 0 h d' = Inr (d'', 0) \<and> blocks d'' = 0))"
  using srq_create_all_or_nothing [OF srq_dev_witness_ok, of False 10 2]
  by (fastforce simp: srq_dev_witness_def srq_env_witness_def wq_limits_witness_def empty_rtable_ok split: option.splits)

text \<open>
  The block of work request ids is lost when the size of an entry is above the limit on the number of work
  requests, with which the code compares it.
\<close>

theorem srq_create_leaks:
  "\<exists>d'. mlx5_create_srq (srq_env_witness True) 10 2 (srq_dev_witness\<lparr>dev_limits := \<lparr>max_rq_desc_sz = 512, max_recv_wr = 32, max_srq_recv_wr = 32\<rparr>\<rparr>)
     = Inr (d', None) \<and> blocks d' = 1"
  by (simp add: mlx5_create_srq_def srq_env_witness_def srq_dev_witness_def to_s32_def align_queue_size_def size_consts
        mlx5_round_up_power_of_two_def round_up_from.simps mlx5_alloc_srq_buf_def zero_srq_def)

end
