(* ===== verification/Mlx5_Rq.thy ===== *)
theory Mlx5_Rq
  imports Mlx5_Srq
begin

text \<open>
  The receive queue of a queue pair (libmlx5 qp.c, cq.c): a ring of entries with the 32-bit counters \<open>head\<close> and
  \<open>tail\<close>, which wrap around; posting writes entries at the head, a completion takes the entry at the tail
  and scatters data that came inside the completion. The buffer is the list of its entries, each with its signature
  and its segments. A post holds the lock of the receive queue; a completion holds the lock of its completion queue only, so
  that posts of other threads can run between its two steps: these are an argument of \<open>rq_responder\<close>. A run (\<open>rq_run\<close>) is a sequence of whole
  operations, as in a program with one thread; then the second reading of the counters in the overflow test gives the same
  values. What a post in the middle of a completion can do is \<open>rq_inline_race\<close>. The key that stands for an implicit key is an argument (\<open>real\<close>), \<open>None\<close> when there is none.
\<close>

record rq_wqe =
  rwqe_sig :: u8
  rscat :: "data_seg list"

record mlx5_rq =
  rq_wqes :: "rq_wqe list"
  rq_wrid :: "u64 list"
  rq_cnt :: u32
  rq_head :: u32
  rq_tail :: u32
  rq_max_post :: u32
  rq_max_gs :: int
  rq_shift :: int
  rq_db :: u32
  rq_qpn :: u32
  rq_wq_sig :: bool
  ignore_overflow :: bool
  raw_before_rtr :: bool

definition ODP_GLOBAL_R_LKEY :: u32 where "ODP_GLOBAL_R_LKEY = 0x101"
definition ODP_GLOBAL_W_LKEY :: u32 where "ODP_GLOBAL_W_LKEY = 0x102"

definition mlx5_wq_overflow :: "mlx5_rq \<Rightarrow> u32 \<Rightarrow> bool" where
  "mlx5_wq_overflow q nreq = (let cur = rq_head q - rq_tail q in \<not> cur + nreq < rq_max_post q)"

definition get_recv_wqe :: "mlx5_rq \<Rightarrow> nat \<Rightarrow> rq_wqe res" where
  "get_recv_wqe q n = bind_res (check (n < length (rq_wqes q)) OutOfBounds) (\<lambda>_. Inr (rq_wqes q ! n))"

definition set_data_ptr_seg :: "(sge \<Rightarrow> u32 option) \<Rightarrow> sge \<Rightarrow> u32 \<Rightarrow> data_seg option" where
  "set_data_ptr_seg real sg offset =
     (if sge_lkey sg = ODP_GLOBAL_R_LKEY \<or> sge_lkey sg = ODP_GLOBAL_W_LKEY
      then (case real sg of
              None \<Rightarrow> None
            | Some k \<Rightarrow> Some \<lparr>byte_count = sge_length sg, seg_lkey = k, seg_addr = sge_addr sg\<rparr>)
      else Some \<lparr>byte_count = sge_length sg - offset, seg_lkey = sge_lkey sg, seg_addr = sge_addr sg + ucast offset\<rparr>)"

text \<open>The loop over the segments: \<open>n\<close> are left from \<open>i\<close> on, \<open>j\<close> are written; whether it ended.\<close>

fun post_recv_segs :: "(sge \<Rightarrow> u32 option) \<Rightarrow> nat \<Rightarrow> nat \<Rightarrow> nat \<Rightarrow> sge list \<Rightarrow> data_seg list \<Rightarrow> (data_seg list \<times> nat \<times> bool) res" where
  "post_recv_segs real 0 i j sgl ds = Inr (ds, j, True)"
| "post_recv_segs real (Suc n) i j sgl ds =
     bind_res (check (i < length sgl) OutOfBounds) (\<lambda>_.
     if sge_length (sgl ! i) = 0 then post_recv_segs real n (i + 1) j sgl ds
     else bind_res (check (j < length ds) OutOfBounds) (\<lambda>_.
       case set_data_ptr_seg real (sgl ! i) 0 of
         None \<Rightarrow> Inr (ds, j, False)
       | Some d \<Rightarrow> post_recv_segs real n (i + 1) (j + 1) sgl (ds[j := d])))"

text \<open>The signature of an entry: the xor of \<open>n\<close> bytes of its segments, the queue pair number and the index.\<close>

definition rq_set_sig_seg :: "mlx5_rq \<Rightarrow> rq_wqe \<Rightarrow> nat \<Rightarrow> u16 \<Rightarrow> rq_wqe res" where
  "rq_set_sig_seg q w n idx =
     bind_res (calc_xor (concat (map seg_bytes (rscat w))) n) (\<lambda>a.
     bind_res (calc_xor (le_bytes 4 (rq_qpn q)) 4) (\<lambda>b.
     bind_res (calc_xor (le_bytes 2 idx) 2) (\<lambda>c.
     Inr (w\<lparr>rwqe_sig := NOT (a XOR b XOR c)\<rparr>))))"

text \<open>One turn of the loop of \<open>mlx5_post_recv\<close>, at entry \<open>ind\<close>; the number returned is \<open>err\<close>.\<close>

definition post_recv_one :: "(sge \<Rightarrow> u32 option) \<Rightarrow> mlx5_rq \<Rightarrow> recv_wr \<Rightarrow> u32 \<Rightarrow> u32 \<Rightarrow> (mlx5_rq \<times> int) res" where
  "post_recv_one real q wr ind nreq =
     (if \<not> ignore_overflow q \<and> mlx5_wq_overflow q nreq then Inr (q, ENOMEM)
      else if rq_max_gs q < num_sge wr then Inr (q, EINVAL)
      else
        bind_res (get_recv_wqe q (unat ind)) (\<lambda>w.
        bind_res (post_recv_segs real (nat (num_sge wr)) 0 0 (sg_list wr) (rscat w)) (\<lambda>(ds, j, ok).
        if \<not> ok then Inr (q\<lparr>rq_wqes := (rq_wqes q)[unat ind := w\<lparr>rscat := ds\<rparr>]\<rparr>, - 1)
        else
          bind_res (check (int j < rq_max_gs q \<longrightarrow> j < length ds) OutOfBounds) (\<lambda>_.
          let w' = w\<lparr>rscat := (if int j < rq_max_gs q then ds[j := end_seg] else ds)\<rparr> in
          bind_res (if rq_wq_sig q
                    then bind_res (check (4 \<le> rq_shift q) UndefShift) (\<lambda>_.
                         let sigsz = min (num_sge wr) (2 ^ nat (rq_shift q - 4) - 1) in
                         rq_set_sig_seg q w' (nat (sigsz * 16)) (ucast (rq_head q + nreq)))
                    else Inr w') (\<lambda>w''.
          bind_res (check (unat ind < length (rq_wrid q)) OutOfBounds) (\<lambda>_.
          Inr (q\<lparr>rq_wqes := (rq_wqes q)[unat ind := w''], rq_wrid := (rq_wrid q)[unat ind := wr_id wr]\<rparr>, 0)))))))"

fun post_recv_loop :: "(sge \<Rightarrow> u32 option) \<Rightarrow> mlx5_rq \<Rightarrow> recv_wr list \<Rightarrow> u32 \<Rightarrow> u32 \<Rightarrow> (mlx5_rq \<times> u32 \<times> int \<times> recv_wr option) res" where
  "post_recv_loop real q [] ind nreq = Inr (q, nreq, 0, None)"
| "post_recv_loop real q (wr # ws) ind nreq =
     bind_res (post_recv_one real q wr ind nreq) (\<lambda>(q', err).
     if err \<noteq> 0 then Inr (q', nreq, err, Some wr)
     else post_recv_loop real q' ws ((ind + 1) AND (rq_cnt q - 1)) (nreq + 1))"

text \<open>The result: the queue, \<open>err\<close> and \<open>*bad_wr\<close>.\<close>

definition mlx5_post_recv :: "(sge \<Rightarrow> u32 option) \<Rightarrow> mlx5_rq \<Rightarrow> recv_wr list \<Rightarrow> (mlx5_rq \<times> int \<times> recv_wr option) res" where
  "mlx5_post_recv real q ws =
     bind_res (post_recv_loop real q ws (rq_head q AND (rq_cnt q - 1)) 0) (\<lambda>(q', nreq, err, bad).
     if nreq \<noteq> 0
     then let h = rq_head q' + nreq
          in Inr (q'\<lparr>rq_head := h, rq_db := (if raw_before_rtr q' then rq_db q' else h AND 0xffff)\<rparr>, err, bad)
     else Inr (q', err, bad))"

subsection \<open>Completions\<close>

definition IBV_WC_SUCCESS :: int where "IBV_WC_SUCCESS = 0"
definition IBV_WC_LOC_LEN_ERR :: int where "IBV_WC_LOC_LEN_ERR = 1"

text \<open>
  \<open>copy_to_scat\<close>: \<open>scat\<close> are the segments from the pointer to the end of the entry and \<open>buf\<close> the bytes from the
  pointer to the end of the completion. The result is the user memory and the status.
\<close>

fun copy_to_scat_loop :: "nat \<Rightarrow> data_seg list \<Rightarrow> u8 list \<Rightarrow> u32 \<Rightarrow> store \<Rightarrow> (store \<times> int) res" where
  "copy_to_scat_loop 0 ds buf sz m = Inr (m, IBV_WC_LOC_LEN_ERR)"
| "copy_to_scat_loop (Suc n) ds buf sz m =
     (case ds of
        [] \<Rightarrow> Inl OutOfBounds
      | d # ds' \<Rightarrow>
          let copy = min sz (byte_count d) in
          bind_res (check (unat copy \<le> length buf) OutOfBounds) (\<lambda>_.
          let m' = write_bytes m (unat (seg_addr d)) (take (unat copy) buf); sz' = sz - copy in
          if sz' = 0 then Inr (m', IBV_WC_SUCCESS)
          else copy_to_scat_loop n ds' (drop (unat copy) buf) sz' m'))"

definition copy_to_scat :: "nat \<Rightarrow> data_seg list \<Rightarrow> u8 list \<Rightarrow> u32 \<Rightarrow> store \<Rightarrow> (store \<times> int) res" where
  "copy_to_scat n ds buf sz m = (if sz = 0 then Inr (m, IBV_WC_SUCCESS) else copy_to_scat_loop n ds buf sz m)"

definition mlx5_copy_to_recv_wqe :: "mlx5_rq \<Rightarrow> nat \<Rightarrow> u8 list \<Rightarrow> u32 \<Rightarrow> store \<Rightarrow> (store \<times> int) res" where
  "mlx5_copy_to_recv_wqe q idx buf sz m =
     bind_res (check (4 \<le> rq_shift q) UndefShift) (\<lambda>_.
     bind_res (get_recv_wqe q idx) (\<lambda>w.
     copy_to_scat (2 ^ nat (rq_shift q - 4)) (rscat w) buf sz m))"

text \<open>
  The part of a completion that a receive queue of a queue pair uses: the length, and the bytes the entry carries, if any
  (\<open>MLX5_INLINE_DATA32_SEG\<close> and \<open>MLX5_INLINE_DATA64_SEG\<close>, which differ in where they start).
\<close>

record rq_cqe =
  cqe_byte_cnt :: u32
  cqe_inline :: "u8 list option"

text \<open>The completion of a receive request: the queue, the user memory, \<open>wr_id\<close> and the status.\<close>

definition rq_take :: "mlx5_rq \<Rightarrow> (mlx5_rq \<times> nat \<times> u64) res" where
  "rq_take q =
     (let ctr = unat (rq_tail q AND (rq_cnt q - 1)) in
      bind_res (check (ctr < length (rq_wrid q)) OutOfBounds) (\<lambda>_.
      Inr (q\<lparr>rq_tail := rq_tail q + 1\<rparr>, ctr, rq_wrid q ! ctr)))"

text \<open>\<open>env\<close> is what other threads do to the queue after the tail has moved and before the data is copied.\<close>

definition rq_responder :: "(mlx5_rq \<Rightarrow> mlx5_rq res) \<Rightarrow> mlx5_rq \<Rightarrow> rq_cqe \<Rightarrow> store \<Rightarrow> (mlx5_rq \<times> store \<times> u64 \<times> int) res" where
  "rq_responder env q c m =
     bind_res (rq_take q) (\<lambda>(q1, ctr, wid).
     bind_res (env q1) (\<lambda>q2.
     case cqe_inline c of
       None \<Rightarrow> Inr (q2, m, wid, IBV_WC_SUCCESS)
     | Some buf \<Rightarrow> bind_res (mlx5_copy_to_recv_wqe q2 ctr buf (cqe_byte_cnt c) m) (\<lambda>(m', st). Inr (q2, m', wid, st))))"

text \<open>The completion of a receive request with an error.\<close>

definition rq_error :: "mlx5_rq \<Rightarrow> (mlx5_rq \<times> u64) res" where
  "rq_error q = bind_res (rq_take q) (\<lambda>(q', ctr, wid). Inr (q', wid))"

text \<open>
  A new queue with the layout of \<open>mlx5_calc_rq_size\<close>, as \<open>mlx5_alloc_qp_buf\<close> and \<open>mlx5_init_qp_indices\<close> leave it;
  the array of ids is not initialised.
\<close>

definition new_rq :: "wq_layout \<Rightarrow> bool \<Rightarrow> u32 \<Rightarrow> bool \<Rightarrow> bool \<Rightarrow> u64 list \<Rightarrow> mlx5_rq" where
  "new_rq l wq_sig qpn ign raw ids =
     \<lparr>rq_wqes = replicate (nat (wqe_cnt l)) \<lparr>rwqe_sig = 0, rscat = replicate (nat (max_gs l)) zero_seg\<rparr>,
      rq_wrid = take (nat (wqe_cnt l)) ids, rq_cnt = of_int (wqe_cnt l), rq_head = 0, rq_tail = 0,
      rq_max_post = of_int (max_post l), rq_max_gs = max_gs l, rq_shift = wqe_shift l, rq_db = 0, rq_qpn = qpn,
      rq_wq_sig = wq_sig, ignore_overflow = ign, raw_before_rtr = raw\<rparr>"

subsection \<open>The specification: a bounded queue of requests\<close>

text \<open>The segments a request gives its entry, one for each buffer that is not empty.\<close>

definition wr_segs :: "(sge \<Rightarrow> u32 option) \<Rightarrow> recv_wr \<Rightarrow> data_seg list option" where
  "wr_segs real wr = those (map (\<lambda>sg. set_data_ptr_seg real sg 0)
     (filter (\<lambda>sg. sge_length sg \<noteq> 0) (take (nat (num_sge wr)) (sg_list wr))))"

type_synonym rq_item = "u64 \<times> data_seg list"

fun fifo_post :: "(sge \<Rightarrow> u32 option) \<Rightarrow> nat \<Rightarrow> int \<Rightarrow> rq_item list \<Rightarrow> recv_wr list \<Rightarrow> rq_item list \<times> int \<times> recv_wr option" where
  "fifo_post real cap gs pend [] = (pend, 0, None)"
| "fifo_post real cap gs pend (wr # ws) =
     (if cap \<le> length pend then (pend, ENOMEM, Some wr)
      else if gs < num_sge wr then (pend, EINVAL, Some wr)
      else case wr_segs real wr of
             None \<Rightarrow> (pend, - 1, Some wr)
           | Some ds \<Rightarrow> fifo_post real cap gs (pend @ [(wr_id wr, ds)]) ws)"

text \<open>Data into the buffers of a request, one after the other.\<close>

fun scatter :: "data_seg list \<Rightarrow> u8 list \<Rightarrow> store \<Rightarrow> store" where
  "scatter [] data m = m"
| "scatter (d # ds) data m =
     scatter ds (drop (unat (byte_count d)) data) (write_bytes m (unat (seg_addr d)) (take (unat (byte_count d)) data))"

definition seg_total :: "data_seg list \<Rightarrow> nat" where
  "seg_total ds = sum_list (map (\<lambda>d. unat (byte_count d)) ds)"

datatype rq_op = PostRecv "sge \<Rightarrow> u32 option" "recv_wr list" | Completed rq_cqe | Failed
datatype rq_out = Posted int "recv_wr option" | Done u64 int | Flushed u64

text \<open>
  What the device and the program see. A sequence of operations that has no meaning gives \<open>None\<close>: a request with fewer buffers
  than it says, a completion without a posted request, or one that carries more bytes than the buffers of its request hold.
\<close>

fun fifo_run :: "nat \<Rightarrow> int \<Rightarrow> rq_op list \<Rightarrow> rq_item list \<Rightarrow> store \<Rightarrow> (rq_item list \<times> store \<times> rq_out list) option" where
  "fifo_run cap gs [] pend m = Some (pend, m, [])"
| "fifo_run cap gs (PostRecv real ws # ops) pend m =
     (if \<not> list_all wr_ok ws then None
      else let (pend', err, bad) = fifo_post real cap gs pend ws
           in map_option (\<lambda>(p, m, out). (p, m, Posted err bad # out)) (fifo_run cap gs ops pend' m))"
| "fifo_run cap gs (Completed c # ops) [] m = None"
| "fifo_run cap gs (Completed c # ops) ((wid, ds) # pend) m =
     (case cqe_inline c of
        None \<Rightarrow> map_option (\<lambda>(p, m, out). (p, m, Done wid IBV_WC_SUCCESS # out)) (fifo_run cap gs ops pend m)
      | Some buf \<Rightarrow>
          if seg_total ds < unat (cqe_byte_cnt c) \<or> length buf < unat (cqe_byte_cnt c) then None
          else map_option (\<lambda>(p, m, out). (p, m, Done wid IBV_WC_SUCCESS # out))
                 (fifo_run cap gs ops pend (scatter ds (take (unat (cqe_byte_cnt c)) buf) m)))"
| "fifo_run cap gs (Failed # ops) [] m = None"
| "fifo_run cap gs (Failed # ops) ((wid, ds) # pend) m =
     map_option (\<lambda>(p, m, out). (p, m, Flushed wid # out)) (fifo_run cap gs ops pend m)"

text \<open>The same operations on the queue of the driver.\<close>

fun rq_run :: "rq_op list \<Rightarrow> mlx5_rq \<Rightarrow> store \<Rightarrow> (mlx5_rq \<times> store \<times> rq_out list) res" where
  "rq_run [] q m = Inr (q, m, [])"
| "rq_run (PostRecv real ws # ops) q m =
     bind_res (mlx5_post_recv real q ws) (\<lambda>(q', err, bad).
     bind_res (rq_run ops q' m) (\<lambda>(q, m, out). Inr (q, m, Posted err bad # out)))"
| "rq_run (Completed c # ops) q m =
     bind_res (rq_responder Inr q c m) (\<lambda>(q', m', wid, st).
     bind_res (rq_run ops q' m') (\<lambda>(q, m, out). Inr (q, m, Done wid st # out)))"
| "rq_run (Failed # ops) q m =
     bind_res (rq_error q) (\<lambda>(q', wid).
     bind_res (rq_run ops q' m) (\<lambda>(q, m, out). Inr (q, m, Flushed wid # out)))"

subsection \<open>The ring\<close>

lemma ring_slot:
  assumes "k \<le> 31"
  shows "unat (((t :: u32) + of_nat n) AND (2 ^ k - 1)) = (unat t + n) mod 2 ^ k"
proof -
  have "(2 :: nat) ^ k dvd 2 ^ 32" using assms by (intro le_imp_power_dvd) simp
  hence "unat (t + of_nat n) mod 2 ^ k = (unat t + n) mod 2 ^ k"
    by (simp add: unat_word_ariths unat_of_nat mod_mod_cancel mod_simps del: of_nat_add)
  thus ?thesis using assms by (simp flip: mask_word_eq add: unat_and_mask)
qed

lemma ring_next: "k \<le> 31 \<Longrightarrow> (((x :: u32) AND (2 ^ k - 1)) + 1) AND (2 ^ k - 1) = (x + 1) AND (2 ^ k - 1)"
  using ring_slot [of k "x AND (2 ^ k - 1)" 1] ring_slot [of k x 1] ring_slot [of k x 0]
  by (simp add: word_unat_eq_iff mod_simps)

lemma ring_inj:
  assumes "(t + i) mod n = (t + j) mod n" "i < n" "j < n"
  shows "i = (j :: nat)"
proof -
  have le: "i = j" if "i \<le> j" "(t + i) mod n = (t + j) mod n" "j < n" for i j
  proof -
    have "n dvd (t + j) - (t + i)" using that(1,2) by (metis add_le_cancel_left mod_eq_dvd_iff_nat)
    thus ?thesis using that(1,3) by (auto dest: dvd_imp_le)
  qed
  show ?thesis using le [of i j] le [of j i] assms by (cases "i \<le> j") auto
qed

text \<open>Entry \<open>i\<close> holds a request: its id, its segments and the mark after the last one.\<close>

definition rq_holds :: "mlx5_rq \<Rightarrow> nat \<Rightarrow> rq_item \<Rightarrow> bool" where
  "rq_holds q i x \<longleftrightarrow> rq_wrid q ! i = fst x \<and> int (length (snd x)) \<le> rq_max_gs q
     \<and> take (length (snd x)) (rscat (rq_wqes q ! i)) = snd x
     \<and> (int (length (snd x)) < rq_max_gs q \<longrightarrow> rscat (rq_wqes q ! i) ! length (snd x) = end_seg)"

definition rq_shape :: "nat \<Rightarrow> mlx5_rq \<Rightarrow> bool" where
  "rq_shape k q \<longleftrightarrow> k \<le> 31 \<and> rq_cnt q = 2 ^ k \<and> rq_max_post q = 2 ^ k \<and> \<not> ignore_overflow q
     \<and> length (rq_wqes q) = 2 ^ k \<and> length (rq_wrid q) = 2 ^ k \<and> 0 \<le> rq_max_gs q
     \<and> (\<forall>w\<in>set (rq_wqes q). int (length (rscat w)) = rq_max_gs q)
     \<and> 4 \<le> rq_shift q \<and> rq_max_gs q \<le> 2 ^ nat (rq_shift q - 4)"

text \<open>The ring while \<open>nreq\<close> requests are written that the head does not count yet.\<close>

definition rq_inv :: "nat \<Rightarrow> mlx5_rq \<Rightarrow> u32 \<Rightarrow> rq_item list \<Rightarrow> bool" where
  "rq_inv k q nreq pend \<longleftrightarrow> rq_shape k q \<and> length pend \<le> 2 ^ k \<and> rq_head q + nreq = rq_tail q + of_nat (length pend)
     \<and> (\<forall>i < length pend. rq_holds q ((unat (rq_tail q) + i) mod 2 ^ k) (pend ! i))"

lemma segs_ok:
  assumes "i + n \<le> length sgl" "j + n \<le> length ds"
    "D = map (\<lambda>sg. set_data_ptr_seg real sg 0) (filter (\<lambda>sg. sge_length sg \<noteq> 0) (take n (drop i sgl)))"
  shows "case those D of
      None \<Rightarrow> \<exists>ds' j'. post_recv_segs real n i j sgl ds = Inr (ds', j', False) \<and> length ds' = length ds
    | Some xs \<Rightarrow> \<exists>ds'. post_recv_segs real n i j sgl ds = Inr (ds', j + length xs, True) \<and> length ds' = length ds
        \<and> length xs \<le> n \<and> take (j + length xs) ds' = take j ds @ xs"
  using assms
proof (induction n arbitrary: i j ds D)
  case (Suc n)
  have dr: "drop i sgl = sgl ! i # drop (i + 1) sgl" using Suc.prems(1) by (simp add: Cons_nth_drop_Suc)
  let ?D = "map (\<lambda>sg. set_data_ptr_seg real sg 0) (filter (\<lambda>sg. sge_length sg \<noteq> 0) (take n (drop (i + 1) sgl)))"
  show ?case
  proof (cases "sge_length (sgl ! i) = 0")
    case True
    hence "D = ?D" using Suc.prems(3) dr by simp
    thus ?thesis using Suc.IH [of "i + 1" j ds ?D] Suc.prems(1,2) True by (auto split: option.splits)
  next
    case False
    hence D: "D = set_data_ptr_seg real (sgl ! i) 0 # ?D" using Suc.prems(3) dr by simp
    show ?thesis
    proof (cases "set_data_ptr_seg real (sgl ! i) 0")
      case None
      thus ?thesis using D False Suc.prems(1,2) by simp
    next
      case (Some d)
      have IH: "case those ?D of
          None \<Rightarrow> \<exists>ds' j'. post_recv_segs real n (i + 1) (j + 1) sgl (ds[j := d]) = Inr (ds', j', False) \<and> length ds' = length (ds[j := d])
        | Some xs \<Rightarrow> \<exists>ds'. post_recv_segs real n (i + 1) (j + 1) sgl (ds[j := d]) = Inr (ds', j + 1 + length xs, True)
            \<and> length ds' = length (ds[j := d]) \<and> length xs \<le> n \<and> take (j + 1 + length xs) ds' = take (j + 1) (ds[j := d]) @ xs"
        using Suc.IH [of "i + 1" "j + 1" "ds[j := d]" ?D] Suc.prems(1,2) by simp
      have tk: "take (j + 1) (ds[j := d]) = take j ds @ [d]" using Suc.prems(2) by (simp add: take_Suc_conv_app_nth)
      show ?thesis using IH D Some False Suc.prems(1,2) tk by (auto split: option.splits)
    qed
  qed
qed simp

lemma wr_segs_ok:
  assumes "wr_ok wr" "num_sge wr \<le> int (length ds)"
  shows "case wr_segs real wr of
      None \<Rightarrow> \<exists>ds' j'. post_recv_segs real (nat (num_sge wr)) 0 0 (sg_list wr) ds = Inr (ds', j', False) \<and> length ds' = length ds
    | Some xs \<Rightarrow> \<exists>ds'. post_recv_segs real (nat (num_sge wr)) 0 0 (sg_list wr) ds = Inr (ds', length xs, True)
        \<and> length ds' = length ds \<and> length xs \<le> length ds \<and> take (length xs) ds' = xs"
proof -
  have "nat (num_sge wr) \<le> length (sg_list wr)" "nat (num_sge wr) \<le> length ds" using assms by (auto simp: wr_ok_def)
  thus ?thesis using segs_ok [of 0 "nat (num_sge wr)" "sg_list wr" 0 ds _ real, OF _ _ refl]
    by (auto simp: wr_segs_def split: option.splits)
qed


text \<open>One request: taken, or refused with the reason, the posted requests staying as they are.\<close>

lemma rq_holds_other:
  "rq_holds q i x \<Longrightarrow> i \<noteq> j \<Longrightarrow> rq_holds (q\<lparr>rq_wqes := (rq_wqes q)[j := w], rq_wrid := (rq_wrid q)[j := v]\<rparr>) i x"
  "rq_holds q i x \<Longrightarrow> i \<noteq> j \<Longrightarrow> rq_holds (q\<lparr>rq_wqes := (rq_wqes q)[j := w]\<rparr>) i x"
  by (simp_all add: rq_holds_def)

lemma rq_free_slot:
  assumes "rq_inv k q nreq pend" "length pend < 2 ^ k" "i < length pend"
  shows "(unat (rq_tail q) + i) mod 2 ^ k \<noteq> (unat (rq_tail q) + length pend) mod 2 ^ k"
  using ring_inj [of "unat (rq_tail q)" i "2 ^ k" "length pend"] assms by auto

lemma rq_inv_slot:
  assumes "rq_inv k q nreq pend" "ind = (rq_head q + nreq) AND (rq_cnt q - 1)"
  shows "unat ind = (unat (rq_tail q) + length pend) mod 2 ^ k" "unat ind < 2 ^ k"
proof -
  have "rq_cnt q = 2 ^ k" "k \<le> 31" "rq_head q + nreq = rq_tail q + of_nat (length pend)"
    using assms(1) by (simp_all add: rq_inv_def rq_shape_def)
  thus "unat ind = (unat (rq_tail q) + length pend) mod 2 ^ k" using assms(2) ring_slot [of k "rq_tail q" "length pend"] by simp
  thus "unat ind < 2 ^ k" by simp
qed

lemma rq_overflow_iff:
  assumes "rq_inv k q nreq pend"
  shows "mlx5_wq_overflow q nreq \<longleftrightarrow> 2 ^ k \<le> length pend"
proof -
  have k: "k \<le> 31" and mp: "rq_max_post q = 2 ^ k" and l: "length pend \<le> 2 ^ k"
    and h: "rq_head q + nreq = rq_tail q + of_nat (length pend)"
    using assms by (simp_all add: rq_inv_def rq_shape_def)
  have "(2 :: nat) ^ k \<le> 2 ^ 31" using k by (intro power_increasing) simp_all
  hence u: "unat (of_nat (length pend) :: u32) = length pend" using l by (simp add: unat_of_nat)
  have "unat (2 ^ k :: u32) = 2 ^ k" using k by (simp add: unat_two_power)
  moreover have "rq_head q - rq_tail q + nreq = of_nat (length pend)" using h by (simp add: algebra_simps)
  ultimately show ?thesis by (simp add: mlx5_wq_overflow_def Let_def mp word_less_nat_alt u not_less)
qed

lemma rq_sig_ok:
  assumes "rq_shape k q" "int (length (rscat w)) = rq_max_gs q" "n \<le> rq_max_gs q"
  shows "\<exists>w'. rscat w' = rscat w \<and>
    (if rq_wq_sig q
     then bind_res (check (4 \<le> rq_shift q) UndefShift) (\<lambda>_.
          let sigsz = min n (2 ^ nat (rq_shift q - 4) - 1) in rq_set_sig_seg q w (nat (sigsz * 16)) idx)
     else Inr w) = Inr w'"
proof -
  have "length (concat (map seg_bytes (rscat w))) = 16 * length (rscat w)"
    by (simp add: length_concat comp_def sum_list_triv)
  moreover have "nat (min n (2 ^ nat (rq_shift q - 4) - 1) * 16) \<le> 16 * length (rscat w)"
  proof -
    define z where "z = min n (2 ^ nat (rq_shift q - 4) - 1)"
    have "z \<le> int (length (rscat w))" using assms(2,3) by (simp add: z_def)
    thus ?thesis unfolding z_def [symmetric] by linarith
  qed
  ultimately have "nat (min n (2 ^ nat (rq_shift q - 4) - 1) * 16) \<le> length (concat (map seg_bytes (rscat w)))" by linarith
  thus ?thesis using assms(1) by (simp add: rq_set_sig_seg_def calc_xor_def rq_shape_def Let_def)
qed

lemma rq_shape_upd:
  assumes "rq_shape k q" "int (length (rscat w)) = rq_max_gs q"
  shows "rq_shape k (q\<lparr>rq_wqes := (rq_wqes q)[j := w], rq_wrid := (rq_wrid q)[j := v]\<rparr>)"
    "rq_shape k (q\<lparr>rq_wqes := (rq_wqes q)[j := w]\<rparr>)"
  using assms by (auto simp: rq_shape_def dest!: set_update_subset_insert [THEN subsetD])

lemma rq_one_taken:
  assumes inv: "rq_inv k q nreq pend" and sl: "ind = (rq_head q + nreq) AND (rq_cnt q - 1)"
    and fit: "length pend < 2 ^ k" "num_sge wr \<le> rq_max_gs q" "wr_ok wr" "wr_segs real wr = Some ds"
  shows "\<exists>ws v. post_recv_one real q wr ind nreq = Inr (q\<lparr>rq_wqes := ws, rq_wrid := v\<rparr>, 0)
    \<and> rq_inv k (q\<lparr>rq_wqes := ws, rq_wrid := v\<rparr>) (nreq + 1) (pend @ [(wr_id wr, ds)])"
proof -
  let ?i = "unat ind" and ?w = "rq_wqes q ! unat ind"
  have sh: "rq_shape k q" and pd: "\<forall>i < length pend. rq_holds q ((unat (rq_tail q) + i) mod 2 ^ k) (pend ! i)"
    and hd: "rq_head q + nreq = rq_tail q + of_nat (length pend)"
    using inv by (simp_all add: rq_inv_def)
  have i: "?i = (unat (rq_tail q) + length pend) mod 2 ^ k" "?i < length (rq_wqes q)" "?i < length (rq_wrid q)"
    using rq_inv_slot [OF inv sl] sh by (simp_all add: rq_shape_def)
  have lw: "int (length (rscat ?w)) = rq_max_gs q" using sh i(2) by (simp add: rq_shape_def)
  obtain d where d: "post_recv_segs real (nat (num_sge wr)) 0 0 (sg_list wr) (rscat ?w) = Inr (d, length ds, True)"
    "length d = length (rscat ?w)" "length ds \<le> length (rscat ?w)" "take (length ds) d = ds"
    using wr_segs_ok [of wr "rscat ?w" real] fit(2-4) lw by auto
  define w' where "w' = ?w\<lparr>rscat := (if int (length ds) < rq_max_gs q then d[length ds := end_seg] else d)\<rparr>"
  have lw': "int (length (rscat w')) = rq_max_gs q" using d(2) lw by (simp add: w'_def)
  obtain w'' where w'': "rscat w'' = rscat w'"
    "(if rq_wq_sig q
     then bind_res (check (4 \<le> rq_shift q) UndefShift) (\<lambda>_.
          let sigsz = min (num_sge wr) (2 ^ nat (rq_shift q - 4) - 1) in rq_set_sig_seg q w' (nat (sigsz * 16)) (ucast (rq_head q + nreq)))
     else Inr w') = Inr w''"
    using rq_sig_ok [OF sh lw' fit(2)] by blast
  let ?q = "q\<lparr>rq_wqes := (rq_wqes q)[?i := w''], rq_wrid := (rq_wrid q)[?i := wr_id wr]\<rparr>"
  have ov: "\<not> mlx5_wq_overflow q nreq" using rq_overflow_iff [OF inv] fit(1) by simp
  have run: "post_recv_one real q wr ind nreq = Inr (?q, 0)"
    using ov fit(2) i(2,3) d(1,2) lw w''(2)
    by (simp add: post_recv_one_def get_recv_wqe_def w'_def [symmetric] del: of_nat_less_iff)
  have new: "rq_holds ?q ?i (wr_id wr, ds)"
  proof -
    have "take (length ds) (rscat w'') = ds" using d(4) by (simp add: w''(1) w'_def)
    moreover have "rscat w'' ! length ds = end_seg" if "int (length ds) < rq_max_gs q"
      using that d(2) lw by (simp add: w''(1) w'_def)
    ultimately show ?thesis using i(2,3) d(3) lw by (simp add: rq_holds_def)
  qed
  have "rq_holds ?q ((unat (rq_tail q) + j) mod 2 ^ k) ((pend @ [(wr_id wr, ds)]) ! j)" if "j < length (pend @ [(wr_id wr, ds)])" for j
  proof (cases "j = length pend")
    case True
    thus ?thesis using new i(1) by simp
  next
    case False
    hence "j < length pend" using that by simp
    thus ?thesis using rq_holds_other(1) [OF _ rq_free_slot [OF inv fit(1)]] pd i(1) by (simp add: nth_append)
  qed
  moreover have "rq_shape k ?q" using rq_shape_upd(1) [OF sh] lw' w''(1) by simp
  moreover have "rq_head q + (nreq + 1) = rq_tail q + of_nat (length (pend @ [(wr_id wr, ds)]))"
    using hd by (simp add: algebra_simps)
  ultimately have "rq_inv k ?q (nreq + 1) (pend @ [(wr_id wr, ds)])" using fit(1) by (simp add: rq_inv_def)
  thus ?thesis using run by blast
qed

lemma rq_one_refused:
  assumes inv: "rq_inv k q nreq pend" and sl: "ind = (rq_head q + nreq) AND (rq_cnt q - 1)" and wr: "wr_ok wr"
    and err: "err = (if 2 ^ k \<le> length pend then ENOMEM else if rq_max_gs q < num_sge wr then EINVAL else - 1)"
    and ref: "2 ^ k \<le> length pend \<or> rq_max_gs q < num_sge wr \<or> wr_segs real wr = None"
  shows "\<exists>ws. post_recv_one real q wr ind nreq = Inr (q\<lparr>rq_wqes := ws\<rparr>, err) \<and> rq_inv k (q\<lparr>rq_wqes := ws\<rparr>) nreq pend"
proof (cases "2 ^ k \<le> length pend \<or> rq_max_gs q < num_sge wr")
  case True
  have "q\<lparr>rq_wqes := rq_wqes q\<rparr> = q" by simp
  moreover have "\<not> ignore_overflow q" using inv by (simp add: rq_inv_def rq_shape_def)
  ultimately have "post_recv_one real q wr ind nreq = Inr (q\<lparr>rq_wqes := rq_wqes q\<rparr>, err) \<and> rq_inv k (q\<lparr>rq_wqes := rq_wqes q\<rparr>) nreq pend"
    using True inv err rq_overflow_iff [OF inv] by (auto simp: post_recv_one_def)
  thus ?thesis by blast
next
  case False
  let ?i = "unat ind" and ?w = "rq_wqes q ! unat ind"
  have sh: "rq_shape k q" and pd: "\<forall>i < length pend. rq_holds q ((unat (rq_tail q) + i) mod 2 ^ k) (pend ! i)"
    using inv by (simp_all add: rq_inv_def)
  have i: "?i = (unat (rq_tail q) + length pend) mod 2 ^ k" "?i < length (rq_wqes q)"
    using rq_inv_slot [OF inv sl] sh by (simp_all add: rq_shape_def)
  have lw: "int (length (rscat ?w)) = rq_max_gs q" using sh i(2) by (simp add: rq_shape_def)
  obtain d j where d: "post_recv_segs real (nat (num_sge wr)) 0 0 (sg_list wr) (rscat ?w) = Inr (d, j, False)"
    "length d = length (rscat ?w)"
    using wr_segs_ok [of wr "rscat ?w" real] wr ref False lw by auto
  let ?q = "q\<lparr>rq_wqes := (rq_wqes q)[?i := ?w\<lparr>rscat := d\<rparr>]\<rparr>"
  have run: "post_recv_one real q wr ind nreq = Inr (?q, err)"
    using False rq_overflow_iff [OF inv] i(2) d(1) err by (simp add: post_recv_one_def get_recv_wqe_def)
  have "rq_holds ?q ((unat (rq_tail q) + j) mod 2 ^ k) (pend ! j)" if "j < length pend" for j
    using rq_holds_other(2) [OF _ rq_free_slot [OF inv _ that]] pd that i(1) False by simp
  moreover have "rq_shape k ?q" using rq_shape_upd(2) [OF sh] d(2) lw by simp
  ultimately have "rq_inv k ?q nreq pend" using inv by (simp add: rq_inv_def)
  thus ?thesis using run by blast
qed


text \<open>A list of requests.\<close>

lemma rq_loop_ok:
  assumes "rq_inv k q nreq pend" "list_all wr_ok ws" "ind = (rq_head q + nreq) AND (rq_cnt q - 1)"
    "fifo_post real (2 ^ k) (rq_max_gs q) pend ws = (pend', err, bad)"
  shows "\<exists>w v n. post_recv_loop real q ws ind nreq = Inr (q\<lparr>rq_wqes := w, rq_wrid := v\<rparr>, n, err, bad)
    \<and> rq_inv k (q\<lparr>rq_wqes := w, rq_wrid := v\<rparr>) n pend'"
  using assms
proof (induction ws arbitrary: q nreq pend ind)
  case Nil
  have "q\<lparr>rq_wqes := rq_wqes q, rq_wrid := rq_wrid q\<rparr> = q" by simp
  hence "post_recv_loop real q [] ind nreq = Inr (q\<lparr>rq_wqes := rq_wqes q, rq_wrid := rq_wrid q\<rparr>, nreq, err, bad)
    \<and> rq_inv k (q\<lparr>rq_wqes := rq_wqes q, rq_wrid := rq_wrid q\<rparr>) nreq pend'" using Nil by simp
  thus ?case by blast
next
  case (Cons wr ws)
  show ?case
  proof (cases "length pend < 2 ^ k \<and> num_sge wr \<le> rq_max_gs q \<and> wr_segs real wr \<noteq> None")
    case True
    then obtain ds where ds: "wr_segs real wr = Some ds" by auto
    obtain w v where o: "post_recv_one real q wr ind nreq = Inr (q\<lparr>rq_wqes := w, rq_wrid := v\<rparr>, 0)"
      "rq_inv k (q\<lparr>rq_wqes := w, rq_wrid := v\<rparr>) (nreq + 1) (pend @ [(wr_id wr, ds)])"
      using rq_one_taken [OF Cons.prems(1,3) _ _ _ ds] True Cons.prems(2) by auto
    have k: "k \<le> 31" "rq_cnt q = 2 ^ k" using Cons.prems(1) by (simp_all add: rq_inv_def rq_shape_def)
    have "(ind + 1) AND (rq_cnt q - 1) = (rq_head q + (nreq + 1)) AND (rq_cnt q - 1)"
      using ring_next [OF k(1), of "rq_head q + nreq"] by (simp add: Cons.prems(3) k(2) add.assoc)
    moreover have "fifo_post real (2 ^ k) (rq_max_gs q) (pend @ [(wr_id wr, ds)]) ws = (pend', err, bad)"
      using Cons.prems(4) True ds by simp
    ultimately obtain w' v' n where "post_recv_loop real (q\<lparr>rq_wqes := w, rq_wrid := v\<rparr>) ws ((ind + 1) AND (rq_cnt q - 1)) (nreq + 1)
        = Inr (q\<lparr>rq_wqes := w, rq_wrid := v\<rparr>\<lparr>rq_wqes := w', rq_wrid := v'\<rparr>, n, err, bad)"
      "rq_inv k (q\<lparr>rq_wqes := w, rq_wrid := v\<rparr>\<lparr>rq_wqes := w', rq_wrid := v'\<rparr>) n pend'"
      using Cons.IH [OF o(2)] Cons.prems(2) by fastforce
    thus ?thesis using o(1) by auto
  next
    case False
    define e where "e = (if 2 ^ k \<le> length pend then ENOMEM else if rq_max_gs q < num_sge wr then EINVAL else - 1)"
    have "(pend', err, bad) = (pend, e, Some wr)" using Cons.prems(4) False by (auto simp: e_def split: if_splits)
    moreover obtain w where "post_recv_one real q wr ind nreq = Inr (q\<lparr>rq_wqes := w\<rparr>, e)" "rq_inv k (q\<lparr>rq_wqes := w\<rparr>) nreq pend"
      using rq_one_refused [OF Cons.prems(1,3) _ e_def, of real] False Cons.prems(2) by fastforce
    moreover have "e \<noteq> 0" by (simp add: e_def ENOMEM_def EINVAL_def)
    moreover have "q\<lparr>rq_wqes := w, rq_wrid := rq_wrid q\<rparr> = q\<lparr>rq_wqes := w\<rparr>" by simp
    ultimately have "post_recv_loop real q (wr # ws) ind nreq = Inr (q\<lparr>rq_wqes := w, rq_wrid := rq_wrid q\<rparr>, nreq, err, bad)
      \<and> rq_inv k (q\<lparr>rq_wqes := w, rq_wrid := rq_wrid q\<rparr>) nreq pend'" by simp
    thus ?thesis by blast
  qed
qed

definition db_ok :: "mlx5_rq \<Rightarrow> bool" where
  "db_ok q \<longleftrightarrow> raw_before_rtr q \<or> rq_db q = rq_head q AND 0xffff"

definition rq_ok :: "nat \<Rightarrow> int \<Rightarrow> mlx5_rq \<Rightarrow> rq_item list \<Rightarrow> bool" where
  "rq_ok k gs q pend \<longleftrightarrow> rq_inv k q 0 pend \<and> db_ok q \<and> rq_max_gs q = gs"

lemma rq_holds_head: "rq_holds (q\<lparr>rq_head := h, rq_db := d\<rparr>) i x = rq_holds q i x"
  by (simp add: rq_holds_def)

lemma rq_post_ok:
  assumes "rq_ok k gs q pend" "list_all wr_ok ws" "fifo_post real (2 ^ k) gs pend ws = (pend', err, bad)"
  shows "\<exists>q'. mlx5_post_recv real q ws = Inr (q', err, bad) \<and> rq_ok k gs q' pend'"
proof -
  have gs: "rq_max_gs q = gs" and db: "db_ok q" and inv: "rq_inv k q 0 pend" using assms(1) by (simp_all add: rq_ok_def)
  obtain w v n where r: "post_recv_loop real q ws (rq_head q AND (rq_cnt q - 1)) 0 = Inr (q\<lparr>rq_wqes := w, rq_wrid := v\<rparr>, n, err, bad)"
    "rq_inv k (q\<lparr>rq_wqes := w, rq_wrid := v\<rparr>) n pend'"
    using rq_loop_ok [OF inv assms(2) _ assms(3)[folded gs]] by fastforce
  let ?q = "q\<lparr>rq_wqes := w, rq_wrid := v\<rparr>"
  let ?q' = "if n \<noteq> 0 then ?q\<lparr>rq_head := rq_head q + n, rq_db := (if raw_before_rtr q then rq_db q else (rq_head q + n) AND 0xffff)\<rparr> else ?q"
  have "mlx5_post_recv real q ws = Inr (?q', err, bad)" using r(1) by (simp add: mlx5_post_recv_def Let_def)
  moreover have "rq_inv k ?q' 0 pend'"
    using r(2) by (cases "n = 0") (simp_all add: rq_inv_def rq_shape_def rq_holds_head)
  ultimately show ?thesis using db gs by (auto simp: rq_ok_def db_ok_def)
qed

text \<open>A completion takes the oldest request.\<close>

lemma rq_take_ok:
  assumes "rq_ok k gs q (x # pend)"
  shows "\<exists>i. rq_take q = Inr (q\<lparr>rq_tail := rq_tail q + 1\<rparr>, i, fst x) \<and> rq_ok k gs (q\<lparr>rq_tail := rq_tail q + 1\<rparr>) pend
    \<and> i < length (rq_wqes q) \<and> rq_holds q i x"
proof -
  have sh: "rq_shape k q" and l: "length (x # pend) \<le> 2 ^ k" and hd: "rq_head q = rq_tail q + of_nat (length (x # pend))"
    and pd: "\<forall>i < length (x # pend). rq_holds q ((unat (rq_tail q) + i) mod 2 ^ k) ((x # pend) ! i)"
    using assms by (simp_all add: rq_ok_def rq_inv_def)
  let ?i = "unat (rq_tail q AND (rq_cnt q - 1))" and ?q = "q\<lparr>rq_tail := rq_tail q + 1\<rparr>"
  have k: "k \<le> 31" and c: "rq_cnt q = 2 ^ k" and ln: "length (rq_wrid q) = 2 ^ k" "length (rq_wqes q) = 2 ^ k"
    using sh by (simp_all add: rq_shape_def)
  have i: "?i = unat (rq_tail q) mod 2 ^ k" using ring_slot [OF k, of "rq_tail q" 0] c by simp
  have h: "rq_holds q ?i x" using pd [rule_format, of 0] i by simp
  have "rq_holds ?q ((unat (rq_tail ?q) + j) mod 2 ^ k) (pend ! j)" if "j < length pend" for j
  proof -
    have "(unat (rq_tail q + 1) + j) mod 2 ^ k = (unat (rq_tail q) + Suc j) mod 2 ^ k"
      using ring_slot [OF k, of "rq_tail q + 1" j] ring_slot [OF k, of "rq_tail q" "Suc j"] by (simp add: add.assoc)
    thus ?thesis using pd [rule_format, of "Suc j"] that by (simp add: rq_holds_def)
  qed
  moreover have "rq_shape k ?q" using sh by (simp add: rq_shape_def)
  moreover have "rq_head q = rq_tail q + 1 + of_nat (length pend)" using hd by (simp add: algebra_simps)
  ultimately have "rq_ok k gs ?q pend" using assms l by (simp add: rq_ok_def rq_inv_def db_ok_def)
  moreover have "rq_take q = Inr (?q, ?i, fst x)" using i ln h by (simp add: rq_take_def Let_def rq_holds_def)
  ultimately show ?thesis using h i ln by auto
qed


text \<open>Data in a completion reaches the buffers of the request; what follows them in the entry is not used.\<close>

lemma scatter_Nil: "scatter ds [] m = m"
proof (induction ds arbitrary: m)
  case (Cons d ds)
  have "write_bytes m a [] = m" for a by (rule ext) (auto simp: write_bytes_def)
  thus ?case using Cons by simp
qed simp

lemma copy_loop_ok:
  assumes "0 < unat sz" "unat sz \<le> seg_total ds" "unat sz \<le> length buf" "length ds \<le> n" "take (length ds) es = ds"
  shows "copy_to_scat_loop n es buf sz m = Inr (scatter ds (take (unat sz) buf) m, IBV_WC_SUCCESS)"
  using assms
proof (induction ds arbitrary: n es buf sz m)
  case Nil
  thus ?case by (simp add: seg_total_def)
next
  case (Cons d ds)
  obtain n' where n: "n = Suc n'" "length ds \<le> n'" using Cons.prems(4) by (cases n) auto
  obtain es' where e: "es = d # es'" "take (length ds) es' = ds" using Cons.prems(5) by (cases es) auto
  let ?b = "unat (byte_count d)"
  show ?case
  proof (cases "unat sz \<le> ?b")
    case True
    hence mn: "min sz (byte_count d) = sz" by (simp add: min_def word_le_nat_alt)
    have "scatter (d # ds) (take (unat sz) buf) m = write_bytes m (unat (seg_addr d)) (take (unat sz) buf)"
      using True by (simp add: scatter_Nil min_def)
    thus ?thesis using n e mn Cons.prems(3) by (simp add: Let_def)
  next
    case False
    hence mn: "min sz (byte_count d) = byte_count d" and le: "byte_count d \<le> sz" by (simp_all add: min_def word_le_nat_alt)
    have u: "unat (sz - byte_count d) = unat sz - ?b" using le by (rule unat_sub)
    have IH: "copy_to_scat_loop n' es' (drop ?b buf) (sz - byte_count d) m' =
        Inr (scatter ds (take (unat sz - ?b) (drop ?b buf)) m', IBV_WC_SUCCESS)" for m'
      using Cons.IH [of "sz - byte_count d" "drop ?b buf" n' es'] Cons.prems(2,3) False n(2) e(2) u by (simp add: seg_total_def)
    have "sz - byte_count d \<noteq> 0" using False by auto
    moreover have "scatter (d # ds) (take (unat sz) buf) m =
        scatter ds (take (unat sz - ?b) (drop ?b buf)) (write_bytes m (unat (seg_addr d)) (take ?b buf))"
      using False by (simp add: drop_take min_def)
    ultimately show ?thesis using n e mn Cons.prems(3) False IH by (simp add: Let_def)
  qed
qed

lemma copy_recv_ok:
  assumes "rq_ok k gs q pend" "i < length (rq_wqes q)" "rq_holds q i (wid, ds)" "unat sz \<le> seg_total ds" "unat sz \<le> length buf"
  shows "mlx5_copy_to_recv_wqe q i buf sz m = Inr (scatter ds (take (unat sz) buf) m, IBV_WC_SUCCESS)"
proof -
  have sh: "4 \<le> rq_shift q" "rq_max_gs q \<le> 2 ^ nat (rq_shift q - 4)" using assms(1) by (simp_all add: rq_ok_def rq_inv_def rq_shape_def)
  have h: "int (length ds) \<le> rq_max_gs q" "take (length ds) (rscat (rq_wqes q ! i)) = ds" using assms(3) by (simp_all add: rq_holds_def)
  have n: "length ds \<le> 2 ^ nat (rq_shift q - 4)"
  proof -
    have "int (length ds) \<le> int (2 ^ nat (rq_shift q - 4))" using h(1) sh(2) unfolding of_nat_power of_nat_numeral by linarith
    thus ?thesis by (simp only: of_nat_le_iff)
  qed
  have "copy_to_scat (2 ^ nat (rq_shift q - 4)) (rscat (rq_wqes q ! i)) buf sz m = Inr (scatter ds (take (unat sz) buf) m, IBV_WC_SUCCESS)"
  proof (cases "sz = 0")
    case False
    hence "0 < unat sz" by (simp add: unat_gt_0)
    thus ?thesis using copy_loop_ok [OF _ assms(4,5) n h(2)] False by (simp add: copy_to_scat_def)
  qed (simp add: copy_to_scat_def scatter_Nil)
  thus ?thesis using assms(2) sh(1) by (simp add: mlx5_copy_to_recv_wqe_def get_recv_wqe_def)
qed

lemma responder_inline_ok:
  assumes "rq_ok k gs q ((wid, ds) # pend)" "cqe_inline c = Some buf" "unat (cqe_byte_cnt c) \<le> seg_total ds"
    "unat (cqe_byte_cnt c) \<le> length buf"
  shows "\<exists>q'. rq_responder Inr q c m = Inr (q', scatter ds (take (unat (cqe_byte_cnt c)) buf) m, wid, IBV_WC_SUCCESS) \<and> rq_ok k gs q' pend"
proof -
  let ?q = "q\<lparr>rq_tail := rq_tail q + 1\<rparr>"
  obtain i where t: "rq_take q = Inr (?q, i, wid)" "rq_ok k gs ?q pend" "i < length (rq_wqes q)" "rq_holds q i (wid, ds)"
    using rq_take_ok [OF assms(1)] by auto
  have "rq_holds ?q i (wid, ds)" "i < length (rq_wqes ?q)" using t(3,4) by (simp_all add: rq_holds_def)
  from copy_recv_ok [OF t(2) this(2,1) assms(3,4)] show ?thesis using t(1,2) assms(2) by (simp add: rq_responder_def)
qed

lemma rq_run_ok:
  assumes "rq_ok k gs q pend" "fifo_run (2 ^ k) gs ops pend m = Some (pend', m', outs)"
  shows "\<exists>q'. rq_run ops q m = Inr (q', m', outs) \<and> rq_ok k gs q' pend'"
  using assms
proof (induction ops arbitrary: q pend m outs)
  case (Cons a ops)
  show ?case
  proof (cases a)
    case (PostRecv real ws)
    obtain p err bad where p: "fifo_post real (2 ^ k) gs pend ws = (p, err, bad)" by (metis prod_cases3)
    obtain o' where o: "list_all wr_ok ws" "fifo_run (2 ^ k) gs ops p m = Some (pend', m', o')" "outs = Posted err bad # o'"
      using Cons.prems(2) PostRecv p by (auto split: if_splits)
    obtain q1 where q1: "mlx5_post_recv real q ws = Inr (q1, err, bad)" "rq_ok k gs q1 p" using rq_post_ok [OF Cons.prems(1) o(1) p] by blast
    show ?thesis using Cons.IH [OF q1(2) o(2)] PostRecv q1(1) o(3) by auto
  next
    case (Completed c)
    obtain wid ds pend1 where pd: "pend = (wid, ds) # pend1" using Cons.prems(2) Completed by (cases pend) auto
    show ?thesis
    proof (cases "cqe_inline c")
      case None
      obtain o' where o: "fifo_run (2 ^ k) gs ops pend1 m = Some (pend', m', o')" "outs = Done wid IBV_WC_SUCCESS # o'"
        using Cons.prems(2) Completed pd None by auto
      obtain i where t: "rq_take q = Inr (q\<lparr>rq_tail := rq_tail q + 1\<rparr>, i, wid)" "rq_ok k gs (q\<lparr>rq_tail := rq_tail q + 1\<rparr>) pend1"
        using rq_take_ok [OF Cons.prems(1)[unfolded pd]] by auto
      show ?thesis using Cons.IH [OF t(2) o(1)] Completed None t(1) o(2) by (auto simp: rq_responder_def)
    next
      case (Some buf)
      let ?m = "scatter ds (take (unat (cqe_byte_cnt c)) buf) m"
      obtain o' where o: "unat (cqe_byte_cnt c) \<le> seg_total ds" "unat (cqe_byte_cnt c) \<le> length buf"
        "fifo_run (2 ^ k) gs ops pend1 ?m = Some (pend', m', o')" "outs = Done wid IBV_WC_SUCCESS # o'"
        using Cons.prems(2) Completed pd Some by (auto split: if_splits)
      obtain q1 where q1: "rq_responder Inr q c m = Inr (q1, ?m, wid, IBV_WC_SUCCESS)" "rq_ok k gs q1 pend1"
        using responder_inline_ok [OF Cons.prems(1)[unfolded pd] Some o(1,2)] by blast
      show ?thesis using Cons.IH [OF q1(2) o(3)] Completed q1(1) o(4) by auto
    qed
  next
    case Failed
    obtain wid ds pend1 where pd: "pend = (wid, ds) # pend1" using Cons.prems(2) Failed by (cases pend) auto
    obtain o' where o: "fifo_run (2 ^ k) gs ops pend1 m = Some (pend', m', o')" "outs = Flushed wid # o'"
      using Cons.prems(2) Failed pd by auto
    obtain i where t: "rq_take q = Inr (q\<lparr>rq_tail := rq_tail q + 1\<rparr>, i, wid)" "rq_ok k gs (q\<lparr>rq_tail := rq_tail q + 1\<rparr>) pend1"
      using rq_take_ok [OF Cons.prems(1)[unfolded pd]] by auto
    show ?thesis using Cons.IH [OF t(2) o(1)] Failed t(1) o(2) by (auto simp: rq_error_def)
  qed
qed simp


text \<open>A new queue.\<close>

lemma calc_rq_size_bound:
  assumes "mlx5_calc_rq_size ctx qpt False wrs sges wq_sig rq = Inr (sz, l)"
  shows "sz < 2 ^ 31"
proof -
  have t: "to_s32 x < 2 ^ 31" for x using sint_lt [of "of_int x :: u32"] by (simp add: to_s32_def)
  show ?thesis using assms t
    by (auto simp: mlx5_calc_rq_size_def Let_def size_consts bind_res_eq_Inr max_def split: if_splits)
qed

lemma new_rq_ok:
  assumes "layout_ok wrs sges h sz l" "0 \<le> h" "sz < 2 ^ 31" "nat (wqe_cnt l) \<le> length ids"
  shows "\<exists>k. nat (wqe_cnt l) = 2 ^ k \<and> rq_ok k (max_gs l) (new_rq l wq_sig qpn False raw ids) []"
proof -
  obtain k where k: "wqe_cnt l = 2 ^ k" and sz: "wqe_cnt l * 2 ^ nat (wqe_shift l) = sz" and mp: "max_post l = wqe_cnt l"
    and gs: "1 \<le> max_gs l" "h + 16 * max_gs l \<le> 2 ^ nat (wqe_shift l)"
    using assms(1) by (auto simp: layout_ok_def)
  have "wqe_cnt l \<le> sz" using sz k by (metis mult_le_cancel_left1 not_less one_le_numeral one_le_power zero_le_numeral zero_le_power)
  hence "(2 :: int) ^ k < 2 ^ 31" using assms(3) k by simp
  hence k31: "k \<le> 31" by (simp only: two_power_le)
  have "(2 :: int) ^ 4 \<le> 2 ^ nat (wqe_shift l)" using gs assms(2) by simp
  hence s4: "4 \<le> nat (wqe_shift l)" by (simp only: two_power_le)
  hence "(2 :: int) ^ nat (wqe_shift l) = 16 * 2 ^ nat (wqe_shift l - 4)"
    using power_add [of "2 :: int" 4 "nat (wqe_shift l) - 4"] by (simp add: nat_diff_distrib)
  hence g: "max_gs l \<le> 2 ^ nat (wqe_shift l - 4)" using gs(2) assms(2) by linarith
  have n: "nat (wqe_cnt l) = 2 ^ k" by (simp add: k nat_power_eq)
  have "rq_ok k (max_gs l) (new_rq l wq_sig qpn False raw ids) []"
    using k mp n k31 s4 g gs(1) assms(4) by (simp add: rq_ok_def rq_inv_def rq_shape_def db_ok_def new_rq_def)
  thus ?thesis using n by blast
qed

lemma calc_rq_ok:
  assumes "1 \<le> uint wrs" "uint wrs \<le> max_recv_wr ctx" "max_recv_wr ctx \<le> 2 ^ 15" "max_rq_desc_sz ctx \<le> 2 ^ 15"
    "qpt_has_rq qpt" "uint sges < 2 ^ 26" "mlx5_calc_rq_size ctx qpt False wrs sges wq_sig rq0 = Inr (sz, l)" "0 \<le> sz"
    "nat (wqe_cnt l) \<le> length ids"
  shows "\<exists>k. nat (wqe_cnt l) = 2 ^ k \<and> rq_ok k (max_gs l) (new_rq l wq_sig qpn False raw ids) []"
proof -
  let ?h = "if wq_sig then 16 else 0 :: int"
  have lay: "layout_ok wrs sges ?h sz l" using rq_layout [OF assms(1-6) refl refl, of wq_sig rq0] assms(7,8) by (auto simp: EINVAL_def split: if_splits)
  have "0 \<le> ?h" by simp
  from new_rq_ok [OF lay this calc_rq_size_bound [OF assms(7)] assms(9)] show ?thesis .
qed

text \<open>A post leaves the tail alone.\<close>

lemma post_recv_loop_tail: "post_recv_loop real q ws ind nreq = Inr (q', n, err, bad) \<Longrightarrow> rq_tail q' = rq_tail q"
  by (induction real q ws ind nreq rule: post_recv_loop.induct)
    (fastforce simp: post_recv_one_def Let_def res_simps bind_res_eq_Inr split: if_splits prod.splits)+

lemma rq_post_tail: "mlx5_post_recv real q ws = Inr (q', err, bad) \<Longrightarrow> rq_tail q' = rq_tail q"
  by (auto simp: mlx5_post_recv_def Let_def bind_res_eq_Inr dest!: post_recv_loop_tail split: if_splits)

subsection \<open>Properties\<close>

text \<open>
  C14: The receive queue of a queue pair is a bounded first-in first-out queue. For a queue with the size that the driver
  computes, any sequence of posts and of completions, with and without an error, behaves as a queue of as many requests as it has
  entries: a list of requests is taken up to the first that does not fit, has too many buffers or has an unknown key,
  which is reported with its error number; a completion reports the id of the oldest request and puts the data it carries
  into the buffers of that request. The requests that wait are intact in consecutive entries from the tail on, also when
  the 32-bit counters wrap around, and the doorbell record shows the head to the device.
\<close>

theorem rq_is_fifo:
  assumes "1 \<le> uint wrs" "uint wrs \<le> max_recv_wr ctx" "max_recv_wr ctx \<le> 2 ^ 15" "max_rq_desc_sz ctx \<le> 2 ^ 15"
    "qpt_has_rq qpt" "uint sges < 2 ^ 26" "mlx5_calc_rq_size ctx qpt False wrs sges wq_sig rq0 = Inr (sz, l)" "0 \<le> sz"
    "nat (wqe_cnt l) \<le> length ids"
    "fifo_run (nat (wqe_cnt l)) (max_gs l) ops [] m = Some (pend, m', outs)"
  shows "\<exists>q'. rq_run ops (new_rq l wq_sig qpn False raw ids) m = Inr (q', m', outs) \<and> db_ok q'
    \<and> length pend \<le> nat (wqe_cnt l) \<and> rq_head q' = rq_tail q' + of_nat (length pend)
    \<and> (\<forall>i < length pend. rq_holds q' (unat ((rq_tail q' + of_nat i) AND (rq_cnt q' - 1))) (pend ! i))"
proof -
  obtain k where k: "nat (wqe_cnt l) = 2 ^ k" "rq_ok k (max_gs l) (new_rq l wq_sig qpn False raw ids) []"
    using calc_rq_ok [OF assms(1-9)] by blast
  obtain q' where q: "rq_run ops (new_rq l wq_sig qpn False raw ids) m = Inr (q', m', outs)" "rq_ok k (max_gs l) q' pend"
    using rq_run_ok [OF k(2) assms(10)[unfolded k(1)]] by blast
  have "k \<le> 31" "rq_cnt q' = 2 ^ k" using q(2) by (simp_all add: rq_ok_def rq_inv_def rq_shape_def)
  hence "unat ((rq_tail q' + of_nat i) AND (rq_cnt q' - 1)) = (unat (rq_tail q') + i) mod 2 ^ k" for i using ring_slot by simp
  thus ?thesis using q k(1) by (simp add: rq_ok_def rq_inv_def nat_power_eq)
qed

definition rq_ops_witness :: "rq_op list" where
  "rq_ops_witness = [PostRecv (\<lambda>_. None) [wr_witness 1, wr_witness 2],
     Completed \<lparr>cqe_byte_cnt = 3, cqe_inline = Some [65, 66, 67, 0]\<rparr>, PostRecv (\<lambda>_. None) [wr_witness 3], Failed]"

definition layout_witness :: wq_layout where
  "layout_witness = \<lparr>wqe_cnt = 4, wqe_shift = 4, max_post = 4, max_gs = 1\<rparr>"

lemma layout_witness_calc:
  "mlx5_calc_rq_size wq_limits_witness IBV_QPT_UD False 3 1 False layout_witness = Inr (64, layout_witness)"
proof -
  have "mlx5_calc_rcv_wqe wq_limits_witness False 1 False = Inr (2 ^ 4)"
    by (simp add: mlx5_calc_rcv_wqe_def to_s32_def size_consts wq_limits_witness_def mlx5_round_up_power_of_two_def
          round_up_from.simps)
  moreover have "mlx5_round_up_power_of_two 3 = Inr 4" by (simp add: mlx5_round_up_power_of_two_def round_up_from.simps)
  moreover have "set_layout (2 ^ 6) (2 ^ 4) 0 = Inr layout_witness"
    using set_layout_ok [of 6 4 0] by (simp add: layout_witness_def)
  ultimately show ?thesis by (simp add: mlx5_calc_rq_size_def wq_limits_witness_def to_s32_def MLX5_SEND_WQE_BB_def)
qed

lemma rq_witness_run:
  "fifo_run 4 1 rq_ops_witness [] m = Some ([(3, [\<lparr>byte_count = 64, seg_lkey = 9, seg_addr = 4096\<rparr>])],
     write_bytes m 4096 [65, 66, 67], [Posted 0 None, Done 1 0, Posted 0 None, Flushed 2])"
  by (simp add: rq_ops_witness_def wr_witness_def wr_ok_def wr_segs_def set_data_ptr_seg_def ODP_GLOBAL_R_LKEY_def
        ODP_GLOBAL_W_LKEY_def seg_total_def IBV_WC_SUCCESS_def)

theorem rq_is_fifo_witness:
  "\<exists>q'. rq_run rq_ops_witness (new_rq layout_witness False 5 False False [0, 0, 0, 0]) (\<lambda>_. 0)
      = Inr (q', write_bytes (\<lambda>_. 0) 4096 [65, 66, 67], [Posted 0 None, Done 1 0, Posted 0 None, Flushed 2])
    \<and> rq_head q' = rq_tail q' + 1"
  using rq_is_fifo [of 3 wq_limits_witness IBV_QPT_UD 1 False layout_witness 64 layout_witness "[0, 0, 0, 0]" rq_ops_witness "\<lambda>_. 0",
      OF _ _ _ _ _ _ layout_witness_calc] rq_witness_run [of "\<lambda>_. 0"]
  by (fastforce simp: wq_limits_witness_def layout_witness_def)


text \<open>
  The loop that scatters data of a completion does not stop at the mark after the segments of a request. In a queue of one entry
  with four segments, after a request with three buffers has completed, four bytes for a request with one buffer of two bytes
  are reported as a success: two of them go to the third buffer of the first request.
\<close>

definition wr_bufs :: "u64 \<Rightarrow> (u64 \<times> u32) list \<Rightarrow> recv_wr" where
  "wr_bufs n bs = \<lparr>wr_id = n, num_sge = int (length bs), sg_list = map (\<lambda>(a, l). \<lparr>sge_addr = a, sge_length = l, sge_lkey = 9\<rparr>) bs\<rparr>"

theorem rq_scatter_stale:
  "\<exists>q. rq_run [PostRecv (\<lambda>_. None) [wr_bufs 1 [(100, 4), (200, 4), (300, 4)]], Completed \<lparr>cqe_byte_cnt = 12, cqe_inline = None\<rparr>,
       PostRecv (\<lambda>_. None) [wr_bufs 2 [(400, 2)]], Completed \<lparr>cqe_byte_cnt = 4, cqe_inline = Some [65, 66, 67, 68]\<rparr>]
     (new_rq \<lparr>wqe_cnt = 1, wqe_shift = 6, max_post = 1, max_gs = 4\<rparr> False 5 False False [0]) (\<lambda>_. 0)
   = Inr (q, write_bytes (write_bytes (\<lambda>_. 0) 400 [65, 66]) 300 [67, 68],
       [Posted 0 None, Done 1 IBV_WC_SUCCESS, Posted 0 None, Done 2 IBV_WC_SUCCESS])"
proof -
  have w: "write_bytes m a [] = m" for m a by (rule ext) (auto simp: write_bytes_def)
  have n: "copy_to_scat_loop 4 = copy_to_scat_loop (Suc (Suc (Suc (Suc 0))))" "post_recv_segs real 3 = post_recv_segs real (Suc (Suc (Suc 0)))"
    "replicate 4 (x :: data_seg) = [x, x, x, x]" for real x
    by (simp_all add: eval_nat_numeral)
  show ?thesis
    by (simp add: wr_bufs_def new_rq_def mlx5_post_recv_def post_recv_one_def mlx5_wq_overflow_def get_recv_wqe_def
          set_data_ptr_seg_def ODP_GLOBAL_R_LKEY_def ODP_GLOBAL_W_LKEY_def rq_responder_def rq_take_def mlx5_copy_to_recv_wqe_def
          copy_to_scat_def end_seg_def zero_seg_def Let_def w n)
qed

text \<open>
  A completion moves the tail before it copies the data it carries. In a full queue, after any run, a post of another thread
  in between takes the entry of the completed request, and the data goes to the buffers of the new request, if they are large enough.
\<close>

lemma rq_post_in_between:
  assumes ok: "rq_ok k gs q ((wid, ds) # pend)" and full: "length pend + 1 = 2 ^ k"
    and wr: "wr_ok wr" "num_sge wr \<le> gs" "wr_segs real wr = Some es"
    and c: "cqe_inline c = Some buf" "unat (cqe_byte_cnt c) \<le> seg_total es" "unat (cqe_byte_cnt c) \<le> length buf"
  shows "\<exists>q'. rq_responder (\<lambda>q. bind_res (mlx5_post_recv real q [wr]) (\<lambda>(q', _). Inr q')) q c m
    = Inr (q', scatter es (take (unat (cqe_byte_cnt c)) buf) m, wid, IBV_WC_SUCCESS)"
proof -
  let ?q = "q\<lparr>rq_tail := rq_tail q + 1\<rparr>" and ?pend = "pend @ [(wr_id wr, es)]"
  obtain i where t: "rq_take q = Inr (?q, i, wid)" "rq_ok k gs ?q pend" using rq_take_ok [OF ok] by auto
  have "fifo_post real (2 ^ k) gs pend [wr] = (?pend, 0, None)" using full wr by simp
  then obtain q2 where q2: "mlx5_post_recv real ?q [wr] = Inr (q2, 0, None)" "rq_ok k gs q2 ?pend"
    using rq_post_ok [OF t(2), of "[wr]"] wr(1) by fastforce
  have sh: "k \<le> 31" "rq_cnt q = 2 ^ k" "length (rq_wqes q2) = 2 ^ k" using ok q2(2) by (simp_all add: rq_ok_def rq_inv_def rq_shape_def)
  have i: "i = unat (rq_tail q) mod 2 ^ k"
    using t(1) ring_slot [OF sh(1), of "rq_tail q" 0] sh(2) by (auto simp: rq_take_def Let_def res_simps split: if_splits)
  have tl: "rq_tail q2 = rq_tail q + 1" using rq_post_tail [OF q2(1)] by simp
  have "rq_holds q2 ((unat (rq_tail q2) + length pend) mod 2 ^ k) (?pend ! length pend)"
    using q2(2) unfolding rq_ok_def rq_inv_def by (metis length_append_singleton lessI)
  moreover have "(unat (rq_tail q2) + length pend) mod 2 ^ k = i"
  proof -
    have "(unat (rq_tail q + 1) + length pend) mod 2 ^ k = (unat (rq_tail q) + (length pend + 1)) mod 2 ^ k"
      using ring_slot [OF sh(1), of "rq_tail q + 1" "length pend"] ring_slot [OF sh(1), of "rq_tail q" "length pend + 1"]
      by (simp add: add.assoc)
    thus ?thesis unfolding full mod_add_self2 i tl .
  qed
  ultimately have "rq_holds q2 i (wr_id wr, es)" by simp
  from copy_recv_ok [OF q2(2) _ this c(2,3)] show ?thesis using t(1) q2(1) c(1) i sh(3) by (simp add: rq_responder_def)
qed

theorem rq_inline_race:
  assumes "1 \<le> uint wrs" "uint wrs \<le> max_recv_wr ctx" "max_recv_wr ctx \<le> 2 ^ 15" "max_rq_desc_sz ctx \<le> 2 ^ 15"
    "qpt_has_rq qpt" "uint sges < 2 ^ 26" "mlx5_calc_rq_size ctx qpt False wrs sges wq_sig rq0 = Inr (sz, l)" "0 \<le> sz"
    "nat (wqe_cnt l) \<le> length ids"
    "fifo_run (nat (wqe_cnt l)) (max_gs l) ops [] m = Some ((wid, ds) # pend, m', outs)" "length pend + 1 = nat (wqe_cnt l)"
    "rq_run ops (new_rq l wq_sig qpn False raw ids) m = Inr (q, m', outs)"
    "wr_ok wr" "num_sge wr \<le> max_gs l" "wr_segs real wr = Some es"
    "cqe_inline c = Some buf" "unat (cqe_byte_cnt c) \<le> seg_total es" "unat (cqe_byte_cnt c) \<le> length buf"
  shows "\<exists>q'. rq_responder (\<lambda>q. bind_res (mlx5_post_recv real q [wr]) (\<lambda>(q', _). Inr q')) q c m'
    = Inr (q', scatter es (take (unat (cqe_byte_cnt c)) buf) m', wid, IBV_WC_SUCCESS)"
proof -
  obtain k where k: "nat (wqe_cnt l) = 2 ^ k" "rq_ok k (max_gs l) (new_rq l wq_sig qpn False raw ids) []"
    using calc_rq_ok [OF assms(1-9)] by blast
  have "rq_ok k (max_gs l) q ((wid, ds) # pend)" using rq_run_ok [OF k(2) assms(10)[unfolded k(1)]] assms(12) by auto
  from rq_post_in_between [OF this assms(11)[unfolded k(1)] assms(13-18)] show ?thesis .
qed

end
