(* ===== verification/Mlx5_Srq_Inline.thy ===== *)
theory Mlx5_Srq_Inline
  imports Mlx5_Rq
begin

text \<open>
  Data inside the completions of a shared receive queue (libmlx5 srq.c, cq.c): the driver frees the entry of the completion and then
  scatters the data by the segments of that entry. The lock of the shared receive queue is held for the first step only; what other
  threads do to the queue between the two steps is an argument of \<open>srq_responder\<close>.
\<close>

fun copy_srq_loop :: "nat \<Rightarrow> data_seg list \<Rightarrow> u8 list \<Rightarrow> u32 \<Rightarrow> store \<Rightarrow> (store \<times> int) res" where
  "copy_srq_loop 0 ds buf sz m = Inr (m, IBV_WC_LOC_LEN_ERR)"
| "copy_srq_loop (Suc n) ds buf sz m =
     (case ds of
        [] \<Rightarrow> Inl OutOfBounds
      | d # ds' \<Rightarrow>
          let copy = min sz (byte_count d) in
          bind_res (check (unat copy \<le> length buf) OutOfBounds) (\<lambda>_.
          let m' = write_bytes m (unat (seg_addr d)) (take (unat copy) buf); sz' = sz - copy in
          if sint sz' \<le> 0 then Inr (m', IBV_WC_SUCCESS)
          else copy_srq_loop n ds' (drop (unat copy) buf) sz' m'))"

definition mlx5_copy_to_recv_srq :: "srq \<Rightarrow> int \<Rightarrow> u8 list \<Rightarrow> u32 \<Rightarrow> store \<Rightarrow> (store \<times> int) res" where
  "mlx5_copy_to_recv_srq s idx buf sz m =
     bind_res (check (4 \<le> srq_wqe_shift s) UndefShift) (\<lambda>_.
     bind_res (get_wqe s idx) (\<lambda>w.
     copy_srq_loop (2 ^ nat (srq_wqe_shift s - 4)) (scat w) buf sz m))"

text \<open>The first step of a completion: the id of the request, and the entry is free again.\<close>

definition srq_take :: "srq \<Rightarrow> u16 \<Rightarrow> (srq \<times> u64) res" where
  "srq_take s ctr =
     bind_res (check (unat ctr < length (srq_wrid s)) OutOfBounds) (\<lambda>_.
     bind_res (mlx5_free_srq_wqe s (uint ctr)) (\<lambda>s'. Inr (s', srq_wrid s ! unat ctr)))"

text \<open>Both steps, as \<open>handle_responder\<close> makes them for a shared receive queue, with the operations \<open>env\<close> of other threads in between.\<close>

definition srq_responder :: "(srq \<Rightarrow> srq res) \<Rightarrow> srq \<Rightarrow> u16 \<Rightarrow> rq_cqe \<Rightarrow> store \<Rightarrow> (srq \<times> store \<times> u64 \<times> int) res" where
  "srq_responder env s ctr c m =
     bind_res (srq_take s ctr) (\<lambda>(s1, wid).
     bind_res (env s1) (\<lambda>s2.
     case cqe_inline c of
       None \<Rightarrow> Inr (s2, m, wid, IBV_WC_SUCCESS)
     | Some buf \<Rightarrow> bind_res (mlx5_copy_to_recv_srq s2 (uint ctr) buf (cqe_byte_cnt c) m) (\<lambda>(m', st). Inr (s2, m', wid, st))))"

text \<open>Posts and completions of other threads, with the posted entries \<open>pend\<close>; the buffers of a request.\<close>

definition others :: "srq_op list \<Rightarrow> (nat \<times> recv_wr) list \<Rightarrow> srq \<Rightarrow> srq res" where
  "others ops pend s = bind_res (srq_run ops s pend) (\<lambda>(s', _). Inr s')"

definition req_segs :: "recv_wr \<Rightarrow> data_seg list" where
  "req_segs wr = map seg_of (take (nat (num_sge wr)) (sg_list wr))"

text \<open>As long as the length is not negative as an \<open>int\<close>, the loop is the one of the queue pairs.\<close>

lemma sint_le_0_iff: "unat (x :: u32) < 2 ^ 31 \<Longrightarrow> sint x \<le> 0 \<longleftrightarrow> x = 0"
proof -
  assume "unat x < 2 ^ 31"
  hence "int (unat x) < int (2 ^ 31)" by (simp only: of_nat_less_iff)
  hence "uint x < 2 ^ 31" by (simp only: uint_nat of_nat_power of_nat_numeral)
  hence "signed_take_bit 31 (uint x) = uint x" using uint_ge_0 [of x] by (intro signed_take_bit_int_eq_self) linarith+
  moreover have "sint x = signed_take_bit 31 (uint x)"
    unfolding sint_uint by (rule arg_cong [of _ _ "\<lambda>n. signed_take_bit n (uint x)"]) simp
  ultimately have "sint x = uint x" by (simp only:)
  hence "sint x \<le> 0 \<longleftrightarrow> uint x = 0" using uint_ge_0 [of x] by linarith
  thus ?thesis by (simp only: uint_0_iff)
qed

lemma copy_srq_same:
  "unat sz < 2 ^ 31 \<Longrightarrow> copy_srq_loop n ds buf sz m = copy_to_scat_loop n ds buf sz m"
proof (induction n arbitrary: ds buf sz m)
  case (Suc n)
  show ?case
  proof (cases ds)
    case (Cons d ds')
    have "unat (sz - min sz (byte_count d)) < 2 ^ 31"
      using Suc.prems unat_sub [of "min sz (byte_count d)" sz] by simp
    thus ?thesis using Suc.IH Cons by (simp add: Let_def sint_le_0_iff)
  qed simp
qed simp

subsection \<open>The two steps\<close>

lemma intact_segs:
  assumes "srq_shape s" "intact s i wr" "wr_ok wr"
  shows "take (length (req_segs wr)) (scat (srq_wqes s ! i)) = req_segs wr" "int (length (req_segs wr)) \<le> srq_max_gs s"
proof -
  have l: "int (length (scat (srq_wqes s ! i))) = srq_max_gs s" "num_sge wr \<le> srq_max_gs s" "0 \<le> srq_max_gs s"
    using assms(1,2) by (auto simp: srq_shape_def intact_def)
  have n: "length (req_segs wr) = nat (num_sge wr)" using assms(3) by (simp add: req_segs_def wr_ok_def nat_le_iff)
  show "int (length (req_segs wr)) \<le> srq_max_gs s" using l unfolding n by linarith
  show "take (length (req_segs wr)) (scat (srq_wqes s ! i)) = req_segs wr"
  proof (rule nth_equalityI)
    show "length (take (length (req_segs wr)) (scat (srq_wqes s ! i))) = length (req_segs wr)" using l unfolding n by simp
  qed (use assms n in \<open>auto simp: intact_def wr_ok_def req_segs_def\<close>)
qed

text \<open>The copy follows the segments that the entry has when it runs.\<close>

lemma copy_srq_ok:
  assumes "srq_shape s" "i < length (srq_wqes s)" "int (length ds) \<le> srq_max_gs s" "take (length ds) (scat (srq_wqes s ! i)) = ds"
    "0 < unat sz" "unat sz < 2 ^ 31" "unat sz \<le> seg_total ds" "unat sz \<le> length buf"
  shows "mlx5_copy_to_recv_srq s (int i) buf sz m = Inr (scatter ds (take (unat sz) buf) m, IBV_WC_SUCCESS)"
proof -
  have e: "2 ^ nat (srq_wqe_shift s) = 16 + 16 * srq_max_gs s" "0 \<le> srq_max_gs s" using assms(1) by (simp_all only: srq_shape_def)
  hence "(2 :: int) ^ 4 \<le> 2 ^ nat (srq_wqe_shift s)" by simp
  hence n4: "4 \<le> nat (srq_wqe_shift s)" unfolding two_power_le .
  hence s4: "4 \<le> srq_wqe_shift s" by linarith
  from n4 have "(2 :: int) ^ nat (srq_wqe_shift s) = 16 * 2 ^ nat (srq_wqe_shift s - 4)"
    using power_add [of "2 :: int" 4 "nat (srq_wqe_shift s) - 4"] by (simp add: nat_diff_distrib)
  hence "int (length ds) \<le> int (2 ^ nat (srq_wqe_shift s - 4))" using assms(3) e unfolding of_nat_power of_nat_numeral by linarith
  hence n: "length ds \<le> 2 ^ nat (srq_wqe_shift s - 4)" by (simp only: of_nat_le_iff)
  show ?thesis
    using copy_loop_ok [OF assms(5,7,8) n assms(4)] copy_srq_same [OF assms(6)] shape_get_wqe [OF assms(1,2)] s4
    by (simp add: mlx5_copy_to_recv_srq_def)
qed

lemma srq_inv_entry:
  assumes "srq_inv s chain pend" "x \<in> set (chain @ map fst pend)"
  shows "x < length (srq_wqes s)" "uint (of_nat x :: u16) = int x" "unat (of_nat x :: u16) = x"
proof -
  have "set (chain @ map fst pend) = {..<length (srq_wqes s)}" "length (srq_wqes s) \<le> 2 ^ 16"
    using assms(1) unfolding srq_inv_def srq_shape_def by blast+
  thus l: "x < length (srq_wqes s)" using assms(2) by blast
  hence "x < 2 ^ 16" using \<open>length (srq_wqes s) \<le> 2 ^ 16\<close> by linarith
  thus u: "unat (of_nat x :: u16) = x" by (simp add: unat_of_nat take_bit_nat_eq_self)
  show "uint (of_nat x :: u16) = int x" using uint_nat [of "of_nat x :: u16"] u by simp
qed

lemma srq_take_ok:
  assumes inv: "srq_inv s chain pend" and j: "j < length pend" "pend ! j = (i, wr)"
  shows "\<exists>s'. srq_take s (of_nat i) = Inr (s', wr_id wr) \<and> srq_inv s' (chain @ [i]) (take j pend @ drop (j + 1) pend)
    \<and> srq_max_gs s' = srq_max_gs s \<and> scat (srq_wqes s' ! i) = scat (srq_wqes s ! i)"
proof -
  have "(i, wr) \<in> set pend" using j by (metis nth_mem)
  hence it: "intact s i wr" and mem: "i \<in> set (chain @ map fst pend)" using inv by (force simp: srq_inv_def)+
  have wl: "length (srq_wrid s) = length (srq_wqes s)" using inv by (simp add: srq_inv_def srq_shape_def)
  obtain s' where "mlx5_free_srq_wqe s (int i) = Inr s'" "srq_inv s' (chain @ [i]) (take j pend @ drop (j + 1) pend)"
    "srq_max_gs s' = srq_max_gs s" "scat (srq_wqes s' ! i) = scat (srq_wqes s ! i)"
    using free_wqe_given [OF inv j(1)] j(2) by auto
  thus ?thesis using srq_inv_entry [OF inv mem] wl it by (simp add: srq_take_def intact_def)
qed

text \<open>The requests of a run are those of its posts.\<close>

lemma srq_run_wr_ok:
  "srq_run ops s pend = Inr (s', pend') \<Longrightarrow> list_all op_ok ops \<Longrightarrow> \<forall>x\<in>set pend. wr_ok (snd x) \<Longrightarrow> \<forall>x\<in>set pend'. wr_ok (snd x)"
proof (induction ops s pend rule: srq_run.induct)
  case (2 ws ops s pend)
  obtain s1 n err bad where p: "mlx5_post_srq_recv s ws = Inr (s1, n, err, bad)"
    "srq_run ops s1 (pend @ zip (walk (srq_wqes s) (nat (srq_head s)) n) ws) = Inr (s', pend')"
    using "2.prems"(1) by (auto simp: bind_res_eq_Inr)
  have "wr_ok (snd x)" if "x \<in> set (zip ys ws)" for x and ys :: "nat list"
    using that "2.prems"(2) set_zip_rightD [of "fst x" "snd x" ys ws] by (simp add: list_all_iff)
  hence "\<forall>x\<in>set (pend @ zip (walk (srq_wqes s) (nat (srq_head s)) n) ws). wr_ok (snd x)" using "2.prems"(3) by auto
  moreover have "list_all op_ok ops" using "2.prems"(2) by simp
  ultimately show ?case using "2.IH" [OF p(1) refl refl refl p(2)] by blast
next
  case (3 j ops s pend)
  show ?case
  proof (cases "j < length pend")
    case True
    then obtain s1 where "mlx5_free_srq_wqe s (int (fst (pend ! j))) = Inr s1"
      "srq_run ops s1 (take j pend @ drop (j + 1) pend) = Inr (s', pend')"
      using "3.prems"(1) by (auto simp: bind_res_eq_Inr)
    thus ?thesis using "3.IH"(1) [OF True] "3.prems"(2,3) by (auto dest: in_set_takeD in_set_dropD)
  qed (use 3 in auto)
qed simp

subsection \<open>What other threads can do in between\<close>

text \<open>Posts take entries in front; the freed entry is the last one, and one entry always stays.\<close>

lemma posts_keep_last:
  assumes "srq_inv s (chain @ [i]) pend" "list_all (list_all wr_ok) wss"
  shows "\<exists>s' pend' chain'. srq_run (map Post wss) s pend = Inr (s', pend') \<and> srq_inv s' (chain' @ [i]) pend'
    \<and> srq_max_gs s' = srq_max_gs s \<and> srq_wqes s' ! i = srq_wqes s ! i"
  using assms
proof (induction wss arbitrary: s chain pend)
  case (Cons ws wss)
  have ws: "list_all wr_ok ws" "list_all (list_all wr_ok) wss" using Cons.prems(2) by simp_all
  obtain k s1 err bad where p: "mlx5_post_srq_recv s ws = Inr (s1, k, err, bad)"
    "srq_inv s1 (drop k (chain @ [i])) (pend @ zip (take k (chain @ [i])) (take k ws))" "srq_max_gs s1 = srq_max_gs s"
    "k < length (chain @ [i])" "\<forall>x. x \<notin> set (take k (chain @ [i])) \<longrightarrow> srq_wqes s1 ! x = srq_wqes s ! x"
    using post_srq_recv_ok [OF Cons.prems(1) ws(1)] by blast
  have lk: "linked (srq_wqes s) (chain @ [i])" "nat (srq_head s) = hd (chain @ [i])" and ni: "i \<notin> set chain"
    using Cons.prems(1) by (auto simp: srq_inv_def)
  have w: "walk (srq_wqes s) (nat (srq_head s)) k = take k (chain @ [i])" using walk_chain [OF lk(1) p(4)] lk(2) by simp
  have d: "drop k (chain @ [i]) = drop k chain @ [i]" "take k (chain @ [i]) = take k chain" using p(4) by simp_all
  have "srq_wqes s1 ! i = srq_wqes s ! i" using p(5) ni unfolding d by (auto dest: in_set_takeD)
  thus ?case using Cons.IH [OF p(2)[unfolded d(1) zip_take_left] ws(2)] p(1,3) w by simp
qed auto

text \<open>A post that is not refused takes the whole list, or all entries but one.\<close>

lemma post_takes:
  assumes "srq_inv s chain pend" "wr_ok wr" "num_sge wr \<le> srq_max_gs s" "n < length chain"
  shows "\<exists>s' err bad. srq_run (Post (replicate n wr) # ops) s pend = srq_run ops s' (pend @ zip (take n chain) (replicate n wr))
    \<and> mlx5_post_srq_recv s (replicate n wr) = Inr (s', n, err, bad)
    \<and> srq_inv s' (drop n chain) (pend @ zip (take n chain) (replicate n wr)) \<and> srq_max_gs s' = srq_max_gs s"
proof -
  have ws: "list_all wr_ok (replicate n wr)" using assms(2) by (simp add: list_all_iff)
  obtain k s1 err bad where p: "mlx5_post_srq_recv s (replicate n wr) = Inr (s1, k, err, bad)" "k \<le> n"
    "srq_inv s1 (drop k chain) (pend @ zip (take k chain) (take k (replicate n wr)))" "srq_max_gs s1 = srq_max_gs s"
    "if k = length (replicate n wr) then err = 0 \<and> bad = None
     else bad = Some (replicate n wr ! k) \<and> err = (if srq_max_gs s < num_sge (replicate n wr ! k) then EINVAL else ENOMEM)
       \<and> (num_sge (replicate n wr ! k) \<le> srq_max_gs s \<longrightarrow> k = length chain - 1)"
    using post_srq_recv_ok [OF assms(1) ws] unfolding length_replicate by blast
  have k: "k = n"
  proof (rule ccontr)
    assume "k \<noteq> n"
    hence "k < n" "k = length chain - 1" using p(2,5) assms(3) by (auto split: if_splits)
    thus False using assms(4) by simp
  qed
  have lk: "linked (srq_wqes s) chain" "nat (srq_head s) = hd chain" using assms(1) by (auto simp: srq_inv_def)
  have "walk (srq_wqes s) (nat (srq_head s)) n = take n chain" using walk_chain [OF lk(1) assms(4)] lk(2) by simp
  thus ?thesis using p(1,3,4) k by simp
qed

text \<open>A completion in between frees a second entry, and then the first one can be posted again.\<close>

lemma entry_reposted:
  assumes inv: "srq_inv s (chain @ [i]) pend" "chain \<noteq> []" and wr: "wr_ok wr" "num_sge wr \<le> srq_max_gs s"
  shows "\<exists>ops s' pend'. list_all op_ok ops \<and> srq_run ops s pend = Inr (s', pend') \<and> srq_shape s' \<and> intact s' i wr"
proof -
  let ?n = "length chain" and ?j = "length pend"
  let ?ops2 = "[Complete ?j, Post (replicate 1 wr)]"
  let ?p1 = "pend @ zip chain (replicate ?n wr)"
  obtain s1 where s1: "srq_run (Post (replicate ?n wr) # ?ops2) s pend = srq_run ?ops2 s1 ?p1" "srq_inv s1 [i] ?p1" "srq_max_gs s1 = srq_max_gs s"
    using post_takes [OF inv(1) wr, of ?n ?ops2] by auto
  have j: "?j < length ?p1" using inv(2) by simp
  define x where "x = fst (?p1 ! ?j)"
  let ?p2 = "take ?j ?p1 @ drop (?j + 1) ?p1"
  obtain s2 where s2: "mlx5_free_srq_wqe s1 (int x) = Inr s2" "srq_inv s2 [i, x] ?p2" "srq_max_gs s2 = srq_max_gs s1"
    using free_wqe_given [OF s1(2) j] unfolding x_def by auto
  have wr2: "num_sge wr \<le> srq_max_gs s2" using wr(2) s1(3) s2(3) by simp
  obtain s3 where s3: "srq_run [Post (replicate 1 wr)] s2 ?p2 = srq_run [] s3 (?p2 @ [(i, wr)])" "srq_inv s3 [x] (?p2 @ [(i, wr)])"
    using post_takes [OF s2(2) wr(1) wr2, of 1 "[]"] by auto
  have "srq_run ?ops2 s1 ?p1 = Inr (s3, ?p2 @ [(i, wr)])" using j s2(1) s3(1) unfolding x_def by simp
  hence "srq_run (Post (replicate ?n wr) # ?ops2) s pend = Inr (s3, ?p2 @ [(i, wr)])" using s1(1) by simp
  moreover have "list_all op_ok (Post (replicate ?n wr) # ?ops2)" using wr(1) by (simp add: list_all_iff)
  moreover have "srq_shape s3" "intact s3 i wr" using s3(2) by (auto simp: srq_inv_def)
  ultimately show ?thesis by blast
qed

subsection \<open>Properties\<close>

text \<open>
  C24: The data that a completion of a shared receive queue carries, and the operations of other threads between its two steps. In a new
  queue, after any run, let entry \<open>i\<close> hold request \<open>wr\<close> and be completed with \<open>n\<close> bytes of data. Whatever lists of requests other
  threads post in between, the data goes to the buffers of \<open>wr\<close>. But with a completion in between, as with a second completion
  queue, this fails: for every request \<open>w\<close> with large enough buffers there are posts and completions of other threads after which
  the data goes to the buffers of \<open>w\<close>, while the completion reports the id of \<open>wr\<close> and success.
\<close>

theorem srq_inline_race:
  assumes "srq_max s0 = 2 ^ k" "k \<le> 16" "0 \<le> srq_max_gs s0" "srq_max_gs s0 < 2 ^ 24" "lim \<le> 2 ^ 30"
    "mlx5_alloc_srq_buf lim True True s0 = Inr (0, s, b)" "list_all op_ok ops" "srq_run ops s [] = Inr (s1, pend)"
    "j < length pend" "pend ! j = (i, wr)" "cqe_inline c = Some buf" "n = unat (cqe_byte_cnt c)" "0 < n" "n < 2 ^ 31" "n \<le> length buf"
    "pend1 = take j pend @ drop (j + 1) pend"
  shows "(n \<le> seg_total (req_segs wr) \<longrightarrow> (\<forall>wss. list_all (list_all wr_ok) wss \<longrightarrow>
      (\<exists>s'. srq_responder (others (map Post wss) pend1) s1 (of_nat i) c m = Inr (s', scatter (req_segs wr) (take n buf) m, wr_id wr, IBV_WC_SUCCESS))))
    \<and> (\<forall>w. wr_ok w \<longrightarrow> num_sge w \<le> srq_max_gs s \<longrightarrow> n \<le> seg_total (req_segs w) \<longrightarrow>
      (\<exists>ops' s'. list_all op_ok ops' \<and>
         srq_responder (others ops' pend1) s1 (of_nat i) c m = Inr (s', scatter (req_segs w) (take n buf) m, wr_id wr, IBV_WC_SUCCESS)))"
proof -
  obtain chain where r: "srq_inv s1 chain pend" "srq_max_gs s1 = srq_max_gs s" using new_srq_run [OF assms(1-7)] assms(8) by auto
  have mem: "(i, wr) \<in> set pend" using assms(9,10) by (metis nth_mem)
  hence ok: "wr_ok wr" using srq_run_wr_ok [OF assms(8,7)] by fastforce
  have it: "srq_shape s1" "intact s1 i wr" "chain \<noteq> []" using r(1) mem by (auto simp: srq_inv_def)
  have "i \<in> set (chain @ map fst pend)" using mem by force
  note u = srq_inv_entry [OF r(1) this]
  obtain s2 where t: "srq_take s1 (of_nat i) = Inr (s2, wr_id wr)" "srq_inv s2 (chain @ [i]) pend1" "srq_max_gs s2 = srq_max_gs s1"
    "scat (srq_wqes s2 ! i) = scat (srq_wqes s1 ! i)"
    using srq_take_ok [OF r(1) assms(9,10)] assms(16) by blast
  have copy: "srq_responder (others ops' pend1) s1 (of_nat i) c m = Inr (s3, scatter ds (take n buf) m, wr_id wr, IBV_WC_SUCCESS)"
    if "srq_run ops' s2 pend1 = Inr (s3, p3)" "srq_shape s3" "i < length (srq_wqes s3)" "int (length ds) \<le> srq_max_gs s3"
      "take (length ds) (scat (srq_wqes s3 ! i)) = ds" "n \<le> seg_total ds" for ops' s3 p3 ds
    using copy_srq_ok [OF that(2-5), of "cqe_byte_cnt c" buf m] that(1,6) t(1) u(2) assms(11-15)
    by (simp add: srq_responder_def others_def)
  have "\<exists>s'. srq_responder (others (map Post wss) pend1) s1 (of_nat i) c m = Inr (s', scatter (req_segs wr) (take n buf) m, wr_id wr, IBV_WC_SUCCESS)"
    if n: "n \<le> seg_total (req_segs wr)" and wss: "list_all (list_all wr_ok) wss" for wss
  proof -
    obtain s3 p3 ch where p: "srq_run (map Post wss) s2 pend1 = Inr (s3, p3)" "srq_inv s3 (ch @ [i]) p3"
      "srq_max_gs s3 = srq_max_gs s2" "srq_wqes s3 ! i = srq_wqes s2 ! i" using posts_keep_last [OF t(2) wss] by blast
    have "srq_shape s3" using p(2) by (simp add: srq_inv_def)
    thus ?thesis using copy [OF p(1) _ srq_inv_entry(1) [OF p(2)] _ _ n] intact_segs [OF it(1,2) ok] p(3,4) t(3,4) by auto
  qed
  moreover have "\<exists>ops' s'. list_all op_ok ops' \<and>
       srq_responder (others ops' pend1) s1 (of_nat i) c m = Inr (s', scatter (req_segs w) (take n buf) m, wr_id wr, IBV_WC_SUCCESS)"
    if w: "wr_ok w" "num_sge w \<le> srq_max_gs s" "n \<le> seg_total (req_segs w)" for w
  proof -
    have "num_sge w \<le> srq_max_gs s2" using w(2) r(2) t(3) by simp
    then obtain ops' s3 p3 where p: "list_all op_ok ops'" "srq_run ops' s2 pend1 = Inr (s3, p3)" "srq_shape s3" "intact s3 i w"
      using entry_reposted [OF t(2) it(3) w(1)] by blast
    have "i < length (srq_wqes s3)" using p(4) by (simp add: intact_def)
    thus ?thesis using copy [OF p(2,3) _ _ _ w(3)] intact_segs [OF p(3,4) w(1)] p(1) by blast
  qed
  ultimately show ?thesis by blast
qed

definition srq_two :: srq where
  "srq_two = \<lparr>srq_wqes = free_list 2 1, srq_wrid = [0, 0], srqn = 7, srq_max = 2, srq_max_gs = 1, srq_wqe_shift = 5, srq_head = 0,
     srq_tail = 1, srq_counter = 0, srq_db = 0, srq_wq_sig = False\<rparr>"

lemma srq_two_alloc:
  "mlx5_alloc_srq_buf 32768 True True (srq_two\<lparr>srq_wqes := [], srq_wrid := []\<rparr>) = Inr (0, srq_two, 2)"
proof -
  have "replicate 2 (0 :: u64) = [0, 0]" by (simp add: eval_nat_numeral)
  thus ?thesis
    by (simp add: mlx5_alloc_srq_buf_def srq_two_def to_s32_def size_consts mlx5_round_up_power_of_two_def round_up_from.simps
          mlx5_ilog2_def ilog2_from.simps)
qed

text \<open>A queue of two entries, with a request posted into the first.\<close>

lemma srq_two_post:
  "\<exists>s. srq_run [Post [wr_bufs 1 [(100, 4)]]] srq_two [] = Inr (s, [(0, wr_bufs 1 [(100, 4)])])"
proof -
  have u: "[0..<2] = [0, 1 :: nat]" by (simp add: upt_rec)
  show ?thesis
    by (simp add: srq_two_def free_list_def u mlx5_post_srq_recv_def post_srq_one_def get_wqe_def wr_bufs_def Let_def)
qed

theorem srq_inline_race_witness:
  "\<exists>s1 ops' s'. srq_run [Post [wr_bufs 1 [(100, 4)]]] srq_two [] = Inr (s1, [(0, wr_bufs 1 [(100, 4)])]) \<and> list_all op_ok ops'
    \<and> srq_responder (others ops' []) s1 0 \<lparr>cqe_byte_cnt = 4, cqe_inline = Some [65, 66, 67, 68]\<rparr> (\<lambda>_. 0)
      = Inr (s', write_bytes (\<lambda>_. 0) 300 [65, 66, 67, 68], 1, IBV_WC_SUCCESS)"
proof -
  let ?s0 = "srq_two\<lparr>srq_wqes := [], srq_wrid := []\<rparr>" and ?w = "wr_bufs 1 [(100, 4)]" and ?v = "wr_bufs 3 [(300, 4)]"
  let ?c = "\<lparr>cqe_byte_cnt = 4, cqe_inline = Some [65, 66, 67, 68]\<rparr>"
  obtain s1 where s1: "srq_run [Post [?w]] srq_two [] = Inr (s1, [(0, ?w)])" using srq_two_post by blast
  have two: "srq_max ?s0 = 2 ^ 1" "0 \<le> srq_max_gs ?s0" "srq_max_gs ?s0 < 2 ^ 24" by (simp_all add: srq_two_def)
  have ok: "list_all op_ok [Post [?w]]" "wr_ok ?v" "num_sge ?v \<le> srq_max_gs srq_two" "(4 :: nat) \<le> seg_total (req_segs ?v)"
    by (simp_all add: wr_bufs_def wr_ok_def srq_two_def seg_total_def req_segs_def seg_of_def)
  have sc: "scatter (req_segs ?v) (take 4 [65, 66, 67, 68]) m = write_bytes m 300 [65, 66, 67, 68]" for m
    by (simp add: req_segs_def wr_bufs_def seg_of_def)
  have "\<exists>ops' s'. list_all op_ok ops' \<and> srq_responder (others ops' []) s1 (of_nat 0) ?c (\<lambda>_. 0)
      = Inr (s', scatter (req_segs ?v) (take 4 [65, 66, 67, 68]) (\<lambda>_. 0), wr_id ?w, IBV_WC_SUCCESS)"
    using srq_inline_race [OF two(1) _ two(2,3) _ srq_two_alloc ok(1) s1, of 0 0 ?w ?c "[65, 66, 67, 68]" 4 "[]" "\<lambda>_. 0"] ok(2-4) by simp
  thus ?thesis using s1 unfolding sc by (auto simp: wr_bufs_def)
qed

end
