(* ===== verification/Spec2Isabelle.thy ===== *)
theory Spec2Isabelle
  imports Mica_Props Alloc_Props Conn_Props Herd_Props Sequencer_Props Setup_Props Ss_Props Mlx5_Srq_Create Mlx5_Srq_Inline
begin

text \<open>
  Verification of a collection of RDMA programs in C: the key-value store HERD on the MICA store, two
  sequencers, the library libhrd they share, and parts of the user-space driver libmlx5.

  \<^bold>\<open>The programs.\<close> Clients of HERD (src/herd) write requests with RDMA writes into a region in the memory
  of a server; its workers poll the region, run batches on a MICA store (src/mica) and answer with
  datagrams. The ws-sequencer (src/ws-sequencer) has the same region and hands out numbers of a shared
  counter. The ss-sequencer (src/ss-sequencer) does so with datagrams in both directions. All create and
  connect their queue pairs through libhrd (src/libhrd), whose verbs calls end in libmlx5
  (src/drivers/libmlx5-1.0.2mlnx1).

  \<^bold>\<open>Conventions\<close> (\<open>Prelude\<close>). A C function is a HOL function on its state, with a result of type \<open>'a res\<close> if it
  can fail to return: a failed assertion, a call of exit, an access outside an object, a null or dangling pointer, a
  division by zero, an undefined shift, an overflow of \<open>int\<close>, a free of memory that is not the heap's and a wait that never ends are values
  of \<open>c_error\<close>. An error number that a function
  returns is part of its ordinary result. Words keep their width where the code relies on
  it (hashes, log offsets, tags, counters, bitmaps, signatures); C \<open>int\<close> is \<open>int\<close>, with the conversions
  written out in \<open>Mlx5_Size\<close>. Calls of libibverbs, memcached, the C library and the kernel are arguments. The infinite
  loop of a thread is a step function on its loop variables, and a system of threads a
  relation or a function on sequences of steps, so that a property holds for every interleaving.

  \<^bold>\<open>MICA.\<close> \<open>City\<close> and \<open>Mica\<close> translate mica/city.c and mica/mica.c: \<open>struct mica_kv\<close> is the record \<open>mica_kv\<close>, the
  log a byte store. \<open>Kv_Spec\<close> is the contract of a store that may lose pairs but never returns a wrong one, the
  locale \<open>lossy_store\<close>; \<open>Mica_Proofs\<close> proves the index and log invariant and interprets it, \<open>Mica_Log\<close>
  treats the laps of the log and \<open>Mica_Props\<close> states the results: histories, round trip, population, and
  the overrun of the log on the second lap. \<open>City_Proofs\<close> shows that no hash reads outside its string.

  \<^bold>\<open>Allocator.\<close> \<open>Mica_Alloc\<close> translates mica/alloc/alloc.c on 64-bit cells. \<open>Alloc_Proofs\<close> relates boundary
  tags and free lists to a sequence of chunks; \<open>Alloc_Props\<close> shows over all runs that live items are
  disjoint and that deallocation returns, where clients leave the last 8 data bytes of an item alone, which are the end tag of its chunk; and two runs that
  stop on an assertion, one of them because a client writes these bytes.

  \<^bold>\<open>libhrd.\<close> \<open>Hrd\<close> is hrd_util.c and hrd.h, \<open>Hrd_Conn\<close> is hrd_conn.c, as computations that record their verbs calls.
  \<open>Verbs_Spec\<close> is the contract of verbs objects (created before use, destroyed once, state changes in order);
  \<open>Conn_Proofs\<close> and \<open>Conn_Props\<close> show that creation and destruction of a control block obey it. \<open>Hrd_Props\<close> covers ports, polling and
  the registry. The two loops that may run forever are \<open>partial_function (option)\<close>; that they return is proved
  under a named condition on what the polls deliver.

  \<^bold>\<open>HERD and the ws-sequencer.\<close> \<open>Signaling\<close> is selective signaling, \<open>Req_Region\<close> the region and the polling loop that
  both programs have, \<open>Herd\<close> and \<open>Sequencer\<close> the rest of their clients and workers. \<open>Window_Spec\<close> is what the two
  have in common, with their requests as a parameter: a system with the polling loop of \<open>Req_Region\<close> and with the program's own operations on a slot, whose invariant is
  proved once in the locale \<open>req_channel\<close> (which extends \<open>req_slots\<close>); it is a step of the proofs, not an independent specification.
  \<open>Herd_Proofs\<close> and \<open>Sequencer_Props\<close> interpret it and prove that their runs are runs of it. \<open>Herd_Props\<close> and
  \<open>Sequencer_Props\<close> show exactly-once execution, that no response is lost, that no thread is stuck, unique numbers,
  and a postlist with which a worker is stuck. \<open>Setup\<close> and \<open>Setup_Props\<close> treat the exchange of names before the loops
  (herd/master.c and ws-sequencer/master.c included) in the locale \<open>rendezvous\<close>: who is connected to whom, that every interleaving can be
  completed, when the assertion of a worker on the request region fails, and which port number its address handles have.

  \<^bold>\<open>The ss-sequencer.\<close> \<open>Ss_Sequencer\<close> has the loops of ss-sequencer/client.c and server.c, and a system of 70 clients
  whose datagrams arrive in any order. \<open>Ss_Props\<close> shows that no datagram is lost, that one outstanding request is
  answered exactly, and that with two a client can take a number twice.

  \<^bold>\<open>libmlx5.\<close> \<open>Pool_Spec\<close> is the contract of an allocator of slots, the locale \<open>slot_pool\<close>. \<open>Mlx5_Dbrec\<close> (dbrec.c)
  and the user indices of \<open>Mlx5_Table\<close> (mlx5.c) implement it; the other tables of \<open>Mlx5_Table\<close> (qp.c, srq.c)
  implement a map, the locale \<open>keyed_table\<close>. \<open>Mlx5_Size\<close> is the size of receive queues (verbs.c), \<open>Mlx5_Srq\<close> the shared
  receive queue (srq.c), and \<open>Mlx5_Srq_Create\<close> its creation and destruction with every error path, including a failure of the command that
  undoes a creation. \<open>Mlx5_Rq\<close> is the receive queue of a
  queue pair (qp.c, cq.c): it refines a bounded queue of requests, from the size computation on and across the wrap-around of its
  counters. \<open>Mlx5_Srq_Inline\<close> is the scattering of data inside completions of a shared receive queue. A completion of either kind of queue has two
  steps, of which the second runs without the lock of the queue; what other threads do in between is an argument, and it is shown which operations are
  harmless and which redirect the data.

  \<^bold>\<open>Bounds.\<close> The constants are those of the sources, among them 70 clients, windows of \<open>WINDOW_SIZE\<close> and queues of
  \<open>HRD_Q_DEPTH\<close>. No definition has fuel. The counters \<open>nb_tx\<close>, 64 bits wide in
  the code, are natural numbers. The setup is interpreted with two ports on each side; its properties hold for one to three server
  ports, which is what the workers accept.

  \<^bold>\<open>Assumptions about the environment.\<close> RDMA writes of one queue pair arrive in order and whole; datagrams are
  lost only where no RECV is posted. An operation of the driver under its lock is one step; the runs of a receive queue of a queue pair are sequences
  of whole posts and completions. The device limits with which shared receive queues are created are bounded (\<open>srq_create_all_or_nothing\<close>). A completion carries no
  more data than the buffers of its request hold; \<open>Mlx5_Rq\<close> has a run without this. Small \<open>malloc\<close> calls of libhrd
  succeed. The address handles the ss-sequencer creates on demand exist. The alternatives that
  preprocessor constants switch off (\<open>HRD_CONNECT_IB_ATOMICS\<close>, \<open>DISABLE_SERVER_POSTLIST\<close>, debugging) are left out.

  \<^bold>\<open>Not modelled.\<close> Option parsing, printing and time measurement everywhere, and the exchange of names of the
  ss-sequencer. Of libmlx5: building and posting of send entries (qp.c), polling and compression of
  completion queues (cq.c), kernel commands behind the other verbs (verbs.c), device
  initialisation (mlx5.c), and erasure coding and implicit keys (ec.c, implicit_lkey.c), which no program here uses; the
  huge-page allocator of buf.c, whose bit operations shift an \<open>int\<close> past its width, so that the language gives
  most of its runs no meaning. libhrd_cpp is a C++ variant of libhrd. The echo programs (ws-echo, ww-echo,
  ss-echo) repeat the protocols without a result. The microbenchmarks (atomics-sequencer, rc-swarm, rw-*,
  sender-scalability, ud-*, write-*) measure a device and use no data. Tests and shell scripts are left out.
\<close>

end
